(* ===== verification/Prelude.thy ===== *)
theory Prelude
  imports Main "HOL-Library.FSet" "HOL-Library.Finite_Map" "HOL-Library.Char_ord"
    "HOL-Library.List_Lexorder"
begin

text \<open>
  Shared vocabulary of the development.  A Rust \<open>String\<close> and a Rust \<open>Vec<u8>\<close> are both
  a \<open>string\<close> here: HOL's \<open>char\<close> is a byte, so a \<open>string\<close> is the UTF-8 byte
  sequence of the Rust value and \<open>length\<close> is Rust's \<open>len()\<close>.  An \<open>i64\<close> is an
  \<open>int\<close>, a \<open>u64\<close>, \<open>usize\<close> or \<open>u8\<close> is a \<open>nat\<close>, with ranges checked
  where the code parses and the wrap-around of every \<open>as\<close> cast written out.

  \<open>result\<close> is Rust's \<open>Result\<close>; \<open>outcome\<close> says whether an evaluation returns or
  panics; an \<open>env\<close> carries what one command reads from outside the program (clocks, random
  draws, hash iteration order, the xxh3 digest, the build's overflow checks).
\<close>

named_theorems cast_simps \<open>casts between machine integers that change nothing in range\<close>

section \<open>Results and panics\<close>

datatype ('a, 'e) result = Ok 'a | Err 'e

datatype 'a outcome = Ret 'a | Panic

fun map_err :: "('e \<Rightarrow> 'f) \<Rightarrow> ('a, 'e) result \<Rightarrow> ('a, 'f) result" where
  "map_err f (Ok x) = Ok x"
| "map_err f (Err e) = Err (f e)"

fun ok_or :: "'e \<Rightarrow> 'a option \<Rightarrow> ('a, 'e) result" where
  "ok_or e None = Err e"
| "ok_or e (Some x) = Ok x"

lemma map_err_eq_Ok [simp]: "map_err f r = Ok y \<longleftrightarrow> r = Ok y"
  by (cases r) simp_all

lemma ok_or_eq_Ok [simp]: "ok_or e x = Ok y \<longleftrightarrow> x = Some y"
  by (cases x) auto

section \<open>Machine integers\<close>

abbreviation i64_max :: int where "i64_max \<equiv> 9223372036854775807"
abbreviation u64_max :: nat where "u64_max \<equiv> 18446744073709551615"

definition as_i64 :: "int \<Rightarrow> int" where
  "as_i64 x = (x + 9223372036854775808) mod 18446744073709551616 - 9223372036854775808"

definition as_u64 :: "int \<Rightarrow> nat" where
  "as_u64 x = nat (x mod 18446744073709551616)"

definition as_u8 :: "nat \<Rightarrow> nat" where
  "as_u8 n = n mod 256"

lemma as_i64_id [cast_simps]:
  "- 9223372036854775808 \<le> x \<Longrightarrow> x \<le> i64_max \<Longrightarrow> as_i64 x = x"
  by (simp add: as_i64_def)

lemma as_i64_range: "- 9223372036854775808 \<le> as_i64 x \<and> as_i64 x \<le> i64_max"
  by (simp add: as_i64_def)

lemma as_u8_id [cast_simps]: "n < 256 \<Longrightarrow> as_u8 n = n"
  by (simp add: as_u8_def)

lemma as_u64_id [cast_simps]: "0 \<le> x \<Longrightarrow> x \<le> int u64_max \<Longrightarrow> as_u64 x = nat x"
  by (simp add: as_u64_def)

text \<open>\<open>Vec::with_capacity(n)\<close> of \<open>w\<close>-byte elements panics when the byte size exceeds
  \<open>isize::MAX\<close>; \<open>size_of::<String>()\<close> is 24 on the 64-bit targets.\<close>

definition vec_capacity_ok :: "nat \<Rightarrow> nat \<Rightarrow> bool" where
  "vec_capacity_ok w n = (w * n \<le> 9223372036854775807)"

section \<open>The world a command sees\<close>

text \<open>
  \<open>now_at i\<close> and \<open>unix_at i\<close> are the readings (in nanoseconds) of \<open>Instant::now()\<close>
  and of \<open>SystemTime::now()\<close> relative to the Unix epoch at the \<open>i\<close>-th place where a
  command reads the clock: two places may see different times, and nothing is assumed of them
  unless a lemma says so.  \<open>hash_order\<close> is the iteration order of a \<open>HashMap\<close> or
  \<open>HashSet\<close> with the given keys; \<open>sample_ix w n k\<close> the positions that
  \<open>IteratorRandom::sample\<close> picks out of \<open>n\<close> items of \<open>w\<close> bytes when asked for
  \<open>k\<close>, or a panic;
  \<open>random_ix j n\<close> the \<open>j\<close>-th draw of \<open>random_range(0..n)\<close>; \<open>xxh3\<close> is
  \<open>xxh3_64\<close>; \<open>debug_str\<close> the quoted, escaped form that \<open>{:?}\<close> prints for a
  string; \<open>overflow_checks\<close> whether the build panics on integer overflow.
\<close>

record env =
  now_at :: "nat \<Rightarrow> int"
  unix_at :: "nat \<Rightarrow> int"
  hash_order :: "string fset \<Rightarrow> string list"
  sample_ix :: "nat \<Rightarrow> nat \<Rightarrow> nat \<Rightarrow> nat list outcome"
  random_ix :: "nat \<Rightarrow> nat \<Rightarrow> nat"
  xxh3 :: "string \<Rightarrow> nat"
  debug_str :: "string \<Rightarrow> string"
  overflow_checks :: bool

text \<open>The documented behaviour of the collection iterators and of the \<open>rand\<close> crate:
  \<open>sample\<close> collects up to \<open>k\<close> distinct items into a \<open>Vec\<close>, and may reserve room for all
  \<open>k\<close> of them first; it panics at most where no \<open>Vec\<close> can have that capacity.\<close>

definition hash_order_ok :: "env \<Rightarrow> bool" where
  "hash_order_ok e \<longleftrightarrow> (\<forall>S. distinct (hash_order e S) \<and> set (hash_order e S) = fset S)"

definition sample_ok :: "env \<Rightarrow> bool" where
  "sample_ok e \<longleftrightarrow> (\<forall>w n k. case sample_ix e w n k of
       Ret js \<Rightarrow> distinct js \<and> set js \<subseteq> {..<n} \<and> length js = min k n
     | Panic \<Rightarrow> \<not> vec_capacity_ok w k)"

definition random_ok :: "env \<Rightarrow> bool" where
  "random_ok e \<longleftrightarrow> (\<forall>j n. 0 < n \<longrightarrow> random_ix e j n < n)"

text \<open>\<open>xs.sample(k)\<close> for items of \<open>w\<close> bytes.\<close>

definition pick :: "env \<Rightarrow> nat \<Rightarrow> nat \<Rightarrow> 'a list \<Rightarrow> 'a list outcome" where
  "pick e w k xs =
     (case sample_ix e w (length xs) k of Ret js \<Rightarrow> Ret (map (\<lambda>i. xs ! i) js) | Panic \<Rightarrow> Panic)"

lemma sample_ok_Ret:
  "sample_ok e \<Longrightarrow> sample_ix e w n k = Ret js \<Longrightarrow> distinct js \<and> set js \<subseteq> {..<n} \<and> length js = min k n"
  unfolding sample_ok_def by (drule spec [of _ w], drule spec [of _ n], drule spec [of _ k]) simp

lemma sample_ok_fits:
  "sample_ok e \<Longrightarrow> vec_capacity_ok w k \<Longrightarrow> \<exists>js. sample_ix e w n k = Ret js"
  unfolding sample_ok_def
  by (drule spec [of _ w], drule spec [of _ n], drule spec [of _ k]) (simp split: outcome.splits)

lemma pick_fits: "sample_ok e \<Longrightarrow> vec_capacity_ok w k \<Longrightarrow> \<exists>ys. pick e w k xs = Ret ys"
  using sample_ok_fits [of e w k "length xs"] by (auto simp: pick_def)

lemma pick_RetE:
  assumes "sample_ok e" "pick e w k xs = Ret ys"
  obtains js where "ys = map (\<lambda>i. xs ! i) js" "distinct js" "set js \<subseteq> {..<length xs}" "length js = min k (length xs)"
proof (cases "sample_ix e w (length xs) k")
  case (Ret js)
  with assms(2) sample_ok_Ret [OF assms(1) Ret] that show ?thesis by (auto simp: pick_def)
qed (use assms(2) in \<open>simp add: pick_def\<close>)

lemma pick_subset: "sample_ok e \<Longrightarrow> pick e w k xs = Ret ys \<Longrightarrow> set ys \<subseteq> set xs"
  by (erule (1) pick_RetE) auto

lemma pick_distinct: "sample_ok e \<Longrightarrow> pick e w k xs = Ret ys \<Longrightarrow> distinct xs \<Longrightarrow> distinct ys"
  by (erule (1) pick_RetE) (auto simp: distinct_map inj_on_def nth_eq_iff_index_eq subset_iff)

lemma pick_length: "sample_ok e \<Longrightarrow> pick e w k xs = Ret ys \<Longrightarrow> length ys = min k (length xs)"
  by (erule (1) pick_RetE) simp

text \<open>A concrete world: fixed clocks, lexicographic iteration order, first-come sampling that reserves
  its result first.\<close>

definition demo_env :: "int \<Rightarrow> int \<Rightarrow> env" where
  "demo_env t u = \<lparr>now_at = (\<lambda>_. t), unix_at = (\<lambda>_. u), hash_order = sorted_list_of_fset,
     sample_ix = (\<lambda>w n k. if vec_capacity_ok w k then Ret [0..<min k n] else Panic), random_ix = (\<lambda>j n. 0), xxh3 = length,
     debug_str = (\<lambda>s. s), overflow_checks = False\<rparr>"

lemma demo_env_ok [simp]:
  "hash_order_ok (demo_env t u)" "sample_ok (demo_env t u)" "random_ok (demo_env t u)"
  by (auto simp: hash_order_ok_def sample_ok_def random_ok_def demo_env_def
      sorted_list_of_fset.rep_eq)

lemma demo_env_sel [simp]:
  "now_at (demo_env t u) i = t" "unix_at (demo_env t u) i = u"
  "hash_order (demo_env t u) = sorted_list_of_fset" "xxh3 (demo_env t u) = length"
  "debug_str (demo_env t u) s = s" "overflow_checks (demo_env t u) = False"
  "sample_ix (demo_env t u) w n k = (if vec_capacity_ok w k then Ret [0..<min k n] else Panic)" "random_ix (demo_env t u) j n = 0"
  by (simp_all add: demo_env_def)

section \<open>Generic lemmas\<close>

lemma fmap_lookup_eqI: "(\<And>k. fmlookup m k = fmlookup n k) \<Longrightarrow> m = n"
  by (rule fmap_ext)

lemma fmupd_same: "fmlookup m k = Some v \<Longrightarrow> fmupd k v m = m"
  by (rule fmap_lookup_eqI) auto

lemma fmdrop_absent: "fmlookup m k = None \<Longrightarrow> fmdrop k m = m"
  by (rule fmap_lookup_eqI) simp

section \<open>What belongs to a client\<close>

definition of_client :: "nat \<Rightarrow> (nat \<times> 'a) list \<Rightarrow> 'a list" where
  "of_client i xs = map snd (filter (\<lambda>(j, y). j = i) xs)"

lemma of_client_simps [simp]:
  "of_client i [] = []" "of_client i ((j, y) # xs) = (if j = i then y # of_client i xs else of_client i xs)"
  "of_client i (xs @ ys) = of_client i xs @ of_client i ys"
  by (simp_all add: of_client_def)

end
