(* ===== verification/Rust_Std.thy ===== *)
theory Rust_Std
  imports Prelude
begin

text \<open>
  The parts of the Rust standard library the sources use: decimal and hexadecimal printing and
  \<open>from_str_radix\<close>, UTF-8 validation, \<open>BufRead::read_line\<close> and \<open>Read::read_exact\<close>
  over an in-memory reader, \<open>str::trim_end_matches\<close>, and \<open>Instant\<close>/\<open>Duration\<close>
  arithmetic in nanoseconds.  The lemmas are the round trips and length bounds the codec rests on.
\<close>

section \<open>Integers as text\<close>

definition digit_char :: "nat \<Rightarrow> char" where
  "digit_char d = char_of (if d < 10 then 48 + d else 87 + d)"

definition digit_val :: "nat \<Rightarrow> char \<Rightarrow> nat option" where
  "digit_val radix c =
     (let n = (of_char c :: nat);
          v = (if 48 \<le> n \<and> n \<le> 57 then n - 48
               else if 97 \<le> n \<and> n \<le> 122 then n - 87
               else if 65 \<le> n \<and> n \<le> 90 then n - 55 else 36)
      in if v < radix then Some v else None)"

fun show_radix :: "nat \<Rightarrow> nat \<Rightarrow> string" where
  "show_radix r n =
     (if n < r \<or> r < 2 then [digit_char n] else show_radix r (n div r) @ [digit_char (n mod r)])"

declare show_radix.simps [simp del]

fun parse_digits :: "nat \<Rightarrow> nat \<Rightarrow> string \<Rightarrow> nat option" where
  "parse_digits r acc [] = Some acc"
| "parse_digits r acc (c # cs) =
     (case digit_val r c of None \<Rightarrow> None | Some d \<Rightarrow> parse_digits r (acc * r + d) cs)"

definition strip_plus :: "string \<Rightarrow> string" where
  "strip_plus s = (case s of [] \<Rightarrow> [] | c # cs \<Rightarrow> if c = CHR ''+'' then cs else s)"

text \<open>\<open>str::parse\<close> and \<open>from_str_radix\<close> for an unsigned type whose largest value is
  \<open>bound\<close>; every parse error is \<open>None\<close>, since the callers do not look at its kind.\<close>

definition parse_unsigned :: "nat \<Rightarrow> nat \<Rightarrow> string \<Rightarrow> nat option" where
  "parse_unsigned r bound s =
     (let t = strip_plus s in
      if t = [] then None
      else case parse_digits r 0 t of None \<Rightarrow> None | Some n \<Rightarrow> if n \<le> bound then Some n else None)"

definition parse_u64 :: "string \<Rightarrow> nat option" where
  "parse_u64 = parse_unsigned 10 u64_max"

definition parse_u8 :: "string \<Rightarrow> nat option" where
  "parse_u8 = parse_unsigned 10 255"

definition parse_u64_hex :: "string \<Rightarrow> nat option" where
  "parse_u64_hex = parse_unsigned 16 u64_max"

definition parse_i64 :: "string \<Rightarrow> int option" where
  "parse_i64 s =
     (case s of
        [] \<Rightarrow> None
      | c # cs \<Rightarrow>
          if c = CHR ''-'' then
            (if cs = [] then None
             else case parse_digits 10 0 cs of
                    None \<Rightarrow> None
                  | Some n \<Rightarrow> if n \<le> 9223372036854775808 then Some (- int n) else None)
          else map_option int (parse_unsigned 10 9223372036854775807 s))"

definition show_nat :: "nat \<Rightarrow> string" where
  "show_nat n = show_radix 10 n"

definition show_int :: "int \<Rightarrow> string" where
  "show_int n = (if n < 0 then CHR ''-'' # show_nat (nat (- n)) else show_nat (nat n))"

text \<open>The format \<open>{:016x}\<close>.\<close>

definition show_hex16 :: "nat \<Rightarrow> string" where
  "show_hex16 n = (let h = show_radix 16 n in replicate (16 - length h) (CHR ''0'') @ h)"

lemma of_char_digit_char:
  "d < 36 \<Longrightarrow> of_char (digit_char d) = (if d < 10 then 48 + d else 87 + d :: nat)"
  by (simp add: digit_char_def)

lemma digit_val_digit_char [simp]:
  "d < r \<Longrightarrow> r \<le> 36 \<Longrightarrow> digit_val r (digit_char d) = Some d"
  by (auto simp: digit_val_def of_char_digit_char Let_def)

lemma parse_digits_append:
  "parse_digits r acc (xs @ ys) =
     (case parse_digits r acc xs of None \<Rightarrow> None | Some a \<Rightarrow> parse_digits r a ys)"
  by (induction r acc xs rule: parse_digits.induct) (auto split: option.splits)

lemma parse_show_radix:
  "2 \<le> r \<Longrightarrow> r \<le> 36 \<Longrightarrow> parse_digits r 0 (show_radix r n) = Some n"
proof (induction r n rule: show_radix.induct)
  case (1 r n)
  show ?case
  proof (cases "n < r")
    case True
    with 1 show ?thesis by (simp add: show_radix.simps [of r n])
  next
    case False
    with 1 have "parse_digits r 0 (show_radix r (n div r)) = Some (n div r)" by simp
    with False 1 show ?thesis
      by (simp add: show_radix.simps [of r n] parse_digits_append)
  qed
qed

lemma show_radix_ne [simp]: "show_radix r n \<noteq> []"
  by (subst show_radix.simps) simp

lemma show_radix_digits:
  "2 \<le> r \<Longrightarrow> c \<in> set (show_radix r n) \<Longrightarrow> \<exists>d<r. c = digit_char d"
proof (induction r n rule: show_radix.induct)
  case (1 r n)
  have "n mod r < r" using \<open>2 \<le> r\<close> by simp
  moreover have "n < r \<and> c = digit_char n
      \<or> \<not> n < r \<and> (c = digit_char (n mod r) \<or> c \<in> set (show_radix r (n div r)))"
    using "1.prems" by (cases "n < r") (auto simp: show_radix.simps [of r n])
  ultimately show ?case using "1.IH" "1.prems"(1) by fastforce
qed

lemma show_radix_ascii:
  assumes "2 \<le> r" "r \<le> 16" "c \<in> set (show_radix r n)"
  shows "48 \<le> (of_char c :: nat)" "(of_char c :: nat) \<le> 102"
proof -
  from assms show_radix_digits obtain d where "d < r" "c = digit_char d" by blast
  with assms show "48 \<le> (of_char c :: nat)" "(of_char c :: nat) \<le> 102"
    by (auto simp: of_char_digit_char)
qed

lemma hd_ascii_strip_plus:
  "s \<noteq> [] \<Longrightarrow> (48::nat) \<le> of_char (hd s) \<Longrightarrow> strip_plus s = s"
  by (cases s) (auto simp: strip_plus_def)

lemma strip_plus_show_radix [simp]:
  assumes "2 \<le> r" "r \<le> 16"
  shows "strip_plus (show_radix r n) = show_radix r n"
  using show_radix_ascii(1) [OF assms, of "hd (show_radix r n)" n] by (simp add: hd_ascii_strip_plus)

lemma parse_unsigned_show:
  "2 \<le> r \<Longrightarrow> r \<le> 16 \<Longrightarrow> n \<le> bound \<Longrightarrow> parse_unsigned r bound (show_radix r n) = Some n"
  by (simp add: parse_unsigned_def parse_show_radix)

lemma parse_u64_show [simp]: "n \<le> u64_max \<Longrightarrow> parse_u64 (show_nat n) = Some n"
  by (simp add: parse_u64_def show_nat_def parse_unsigned_show)

lemma show_nat_hd_not_minus: "show_nat n = c # cs \<Longrightarrow> c \<noteq> CHR ''-''"
  using show_radix_ascii(1) [of 10 c n] by (auto simp: show_nat_def)

lemma parse_i64_show [simp]:
  assumes "- 9223372036854775808 \<le> n" "n \<le> i64_max"
  shows "parse_i64 (show_int n) = Some n"
proof (cases "n < 0")
  case True
  then show ?thesis using assms
    by (simp add: parse_i64_def show_int_def show_nat_def parse_show_radix)
next
  case False
  then obtain c cs where s: "show_nat (nat n) = c # cs"
    by (metis neq_Nil_conv show_nat_def show_radix_ne)
  have "parse_unsigned 10 9223372036854775807 (show_nat (nat n)) = Some (nat n)"
    using False assms unfolding show_nat_def by (intro parse_unsigned_show) auto
  with False s show_nat_hd_not_minus [OF s] show ?thesis
    by (simp add: parse_i64_def show_int_def)
qed

lemma parse_digits_zeros:
  "0 < r \<Longrightarrow> parse_digits r 0 (replicate k (CHR ''0'') @ xs) = parse_digits r 0 xs"
  by (induction k) (auto simp: digit_val_def)

lemma parse_hex_show [simp]:
  assumes "n \<le> u64_max"
  shows "parse_u64_hex (show_hex16 n) = Some n"
proof -
  let ?h = "show_radix 16 n" and ?z = "replicate (16 - length (show_radix 16 n)) (CHR ''0'')"
  have "strip_plus (?z @ ?h) = ?z @ ?h"
    using show_radix_ascii(1) [of 16 "hd ?h" n]
    by (intro hd_ascii_strip_plus) (auto simp: hd_append)
  then show ?thesis using assms
    by (simp add: parse_u64_hex_def parse_unsigned_def show_hex16_def Let_def parse_digits_zeros
        parse_show_radix)
qed

section \<open>UTF-8\<close>

definition utf8_cont :: "nat \<Rightarrow> nat \<Rightarrow> char \<Rightarrow> bool" where
  "utf8_cont lo hi c = (lo \<le> (of_char c :: nat) \<and> (of_char c :: nat) \<le> hi)"

text \<open>A lead byte gives the length of its sequence (0: no sequence starts with it) and the range
  of the second byte; \<open>utf8_seq s\<close> is the number of bytes of the well-formed sequence that
  \<open>s\<close> starts with, 0 when there is none.\<close>

definition utf8_lead :: "nat \<Rightarrow> nat \<times> nat \<times> nat" where
  "utf8_lead n =
     (if n < 128 then (1, 0, 0)
      else if 194 \<le> n \<and> n \<le> 223 then (2, 128, 191)
      else if 224 \<le> n \<and> n \<le> 239 then
        (3, if n = 224 then 160 else 128, if n = 237 then 159 else 191)
      else if 240 \<le> n \<and> n \<le> 244 then
        (4, if n = 240 then 144 else 128, if n = 244 then 143 else 191)
      else (0, 0, 0))"

definition utf8_seq :: "string \<Rightarrow> nat" where
  "utf8_seq s =
     (case s of
        [] \<Rightarrow> 0
      | a # _ \<Rightarrow>
          (case utf8_lead (of_char a) of
             (k, lo, hi) \<Rightarrow>
               if k \<le> length s \<and> (2 \<le> k \<longrightarrow> utf8_cont lo hi (s ! 1))
                  \<and> list_all (utf8_cont 128 191) (drop 2 (take k s))
               then k else 0))"

function utf8_valid :: "string \<Rightarrow> bool" where
  "utf8_valid s =
     (if s = [] then True else if utf8_seq s = 0 then False else utf8_valid (drop (utf8_seq s) s))"
  by pat_completeness auto
termination by (relation "measure length") auto

declare utf8_valid.simps [simp del]

lemma utf8_valid_Nil [simp]: "utf8_valid []"
  by (simp add: utf8_valid.simps)

text \<open>\<open>str::is_char_boundary(1)\<close> on a non-empty string: the end, or not a continuation byte.\<close>

definition char_boundary_1 :: "string \<Rightarrow> bool" where
  "char_boundary_1 s = (case tl s of [] \<Rightarrow> True | b # _ \<Rightarrow> \<not> utf8_cont 128 191 b)"

lemma utf8_seq_le: "utf8_seq s \<le> length s"
  by (auto simp: utf8_seq_def split: list.splits prod.splits)

lemma utf8_seq_append: "0 < utf8_seq xs \<Longrightarrow> utf8_seq (xs @ ys) = utf8_seq xs"
proof (cases xs)
  case (Cons a as)
  assume pos: "0 < utf8_seq xs"
  obtain k lo hi where l: "utf8_lead (of_char a) = (k, lo, hi)" by (metis prod_cases3)
  with pos Cons have k: "k \<le> length xs" "utf8_seq xs = k"
    and c: "2 \<le> k \<longrightarrow> utf8_cont lo hi (xs ! 1)" "list_all (utf8_cont 128 191) (drop 2 (take k xs))"
    by (auto simp: utf8_seq_def split: if_splits)
  from k(1) have "take k (xs @ ys) = take k xs" "2 \<le> k \<longrightarrow> (xs @ ys) ! 1 = xs ! 1"
    by (auto simp: nth_append)
  moreover from k(1) have "k \<le> length (xs @ ys)" by simp
  ultimately have "utf8_seq (xs @ ys) = k"
    unfolding utf8_seq_def using c l Cons by (simp del: take_append)
  with k show ?thesis by simp
qed (simp add: utf8_seq_def)

lemma utf8_seq_ascii: "(of_char a :: nat) < 128 \<Longrightarrow> utf8_seq (a # s) = 1"
  by (simp add: utf8_seq_def utf8_lead_def)

lemma utf8_lead_nonascii:
  "128 \<le> n \<Longrightarrow> utf8_lead n = (k, lo, hi) \<Longrightarrow> 0 < k \<Longrightarrow> 194 \<le> n \<and> 2 \<le> k \<and> 128 \<le> lo \<and> hi \<le> 191"
  by (auto simp: utf8_lead_def split: if_splits)

lemma utf8_seq_nonascii:
  assumes "0 < utf8_seq (a # s)" "128 \<le> (of_char a :: nat)"
  shows "194 \<le> (of_char a :: nat)" "s \<noteq> []" "utf8_cont 128 191 (hd s)"
proof -
  obtain k lo hi where l: "utf8_lead (of_char a) = (k, lo, hi)" by (metis prod_cases3)
  with assms(1) have "0 < k" and b: "k \<le> Suc (length s)" "2 \<le> k \<longrightarrow> utf8_cont lo hi ((a # s) ! 1)"
    by (auto simp: utf8_seq_def split: if_splits)
  with utf8_lead_nonascii [OF assms(2) l] have "194 \<le> (of_char a :: nat)" "2 \<le> k" "128 \<le> lo" "hi \<le> 191"
    by auto
  with b show "194 \<le> (of_char a :: nat)" "s \<noteq> []" "utf8_cont 128 191 (hd s)"
    by (cases s; auto simp: utf8_cont_def)+
qed

lemma utf8_valid_append: "utf8_valid xs \<Longrightarrow> utf8_valid (xs @ ys) = utf8_valid ys"
proof (induction xs rule: utf8_valid.induct)
  case (1 s)
  show ?case
  proof (cases "s = []")
    case False
    with "1.prems" have "0 < utf8_seq s" "utf8_valid (drop (utf8_seq s) s)"
      by (auto simp: utf8_valid.simps [of s] split: if_splits)
    with 1 False utf8_seq_append [of s ys] utf8_seq_le [of s] show ?thesis
      by (simp add: utf8_valid.simps [of "s @ ys"])
  qed simp
qed

lemma utf8_valid_Cons_ascii [simp]:
  "(of_char a :: nat) < 128 \<Longrightarrow> utf8_valid (a # s) = utf8_valid s"
  by (simp add: utf8_valid.simps [of "a # s"] utf8_seq_ascii)

lemma utf8_valid_ascii: "(\<And>c. c \<in> set s \<Longrightarrow> (of_char c :: nat) < 128) \<Longrightarrow> utf8_valid s"
  by (induction s) auto

lemma ascii_head_boundary:
  assumes "utf8_valid (a # s)" "(of_char a :: nat) < 128"
  shows "char_boundary_1 (a # s)"
proof (cases s)
  case (Cons b t)
  with assms have "0 < utf8_seq (b # t)"
    by (auto simp: utf8_valid.simps [of "b # t"] split: if_splits)
  with Cons show ?thesis
    using utf8_seq_nonascii(1) [of b t] by (force simp: char_boundary_1_def utf8_cont_def)
qed (simp add: char_boundary_1_def)

lemma nonascii_head_no_boundary:
  assumes "utf8_valid (a # s)" "128 \<le> (of_char a :: nat)"
  shows "\<not> char_boundary_1 (a # s)"
proof -
  from assms(1) have "0 < utf8_seq (a # s)" by (auto simp: utf8_valid.simps [of "a # s"] split: if_splits)
  from utf8_seq_nonascii(2,3) [OF this assms(2)] show ?thesis
    by (cases s) (auto simp: char_boundary_1_def)
qed

text \<open>An ASCII byte ends every sequence, so what stands before one is valid by itself.\<close>

lemma utf8_seq_cont:
  assumes "0 < i" "i < utf8_seq s"
  shows "utf8_cont 128 191 (s ! i)"
proof (cases s)
  case (Cons a as)
  obtain k lo hi where l: "utf8_lead (of_char a) = (k, lo, hi)" by (metis prod_cases3)
  with assms(2) Cons have k: "utf8_seq s = k" "k \<le> length s" "2 \<le> k \<longrightarrow> utf8_cont lo hi (s ! 1)"
    and rest: "list_all (utf8_cont 128 191) (drop 2 (take k s))"
    by (auto simp: utf8_seq_def split: if_splits)
  have "128 \<le> lo \<and> hi \<le> 191" using l k(1) assms by (auto simp: utf8_lead_def split: if_splits)
  then have one: "i = 1 \<Longrightarrow> ?thesis" using k assms by (auto simp: utf8_cont_def)
  have "\<exists>j. i = 2 + j \<and> 2 + j < k" if "i \<noteq> 1" using that assms k(1) by presburger
  then have "i \<noteq> 1 \<Longrightarrow> ?thesis" using rest k(2) by (auto simp: list_all_length less_diff_conv)
  with one show ?thesis by blast
qed (use assms in \<open>simp add: utf8_seq_def\<close>)

lemma utf8_seq_prefix:
  assumes "0 < utf8_seq (xs @ ys)" "utf8_seq (xs @ ys) \<le> length xs"
  shows "utf8_seq xs = utf8_seq (xs @ ys)"
proof (cases xs)
  case (Cons a as)
  obtain k lo hi where l: "utf8_lead (of_char a) = (k, lo, hi)" by (metis prod_cases3)
  with assms(1) Cons have k: "utf8_seq (xs @ ys) = k"
    and c: "2 \<le> k \<longrightarrow> utf8_cont lo hi ((xs @ ys) ! 1)" "list_all (utf8_cont 128 191) (drop 2 (take k (xs @ ys)))"
    by (auto simp: utf8_seq_def simp del: take_append split: if_splits)
  have "take k (xs @ ys) = take k xs" "2 \<le> k \<longrightarrow> (xs @ ys) ! 1 = xs ! 1" using assms(2) k by (auto simp: nth_append)
  then have "utf8_seq xs = k" using c l Cons assms(2) k by (simp add: utf8_seq_def)
  with k show ?thesis by simp
qed (use assms in \<open>simp add: utf8_seq_def\<close>)

lemma utf8_valid_ascii_end:
  assumes "utf8_valid (xs @ y # ys)" "(of_char y :: nat) < 128"
  shows "utf8_valid xs"
  using assms(1)
proof (induction xs rule: utf8_valid.induct)
  case (1 s)
  let ?n = "utf8_seq (s @ y # ys)"
  show ?case
  proof (cases "s = []")
    case False
    have pos: "0 < ?n" "utf8_valid (drop ?n (s @ y # ys))"
      using "1.prems" False by (auto simp: utf8_valid.simps [of "s @ y # ys"] split: if_splits)
    have le: "?n \<le> length s"
    proof (rule ccontr)
      assume "\<not> ?n \<le> length s"
      then have "utf8_cont 128 191 ((s @ y # ys) ! length s)" using False by (intro utf8_seq_cont) auto
      with assms(2) show False by (simp add: utf8_cont_def)
    qed
    have "utf8_seq s = ?n" by (rule utf8_seq_prefix [OF pos(1) le])
    with 1 pos False le show ?thesis by (simp add: utf8_valid.simps [of s])
  qed simp
qed

section \<open>Readers\<close>

abbreviation CR :: char where "CR \<equiv> CHR 0x0D"
abbreviation LF :: char where "LF \<equiv> CHR 0x0A"

fun split_line :: "string \<Rightarrow> string \<times> string" where
  "split_line [] = ([], [])"
| "split_line (c # cs) =
     (if c = LF then ([c], cs) else case split_line cs of (l, r) \<Rightarrow> (c # l, r))"

definition read_line :: "string \<Rightarrow> string option \<times> string" where
  "read_line input = (case split_line input of (l, r) \<Rightarrow> (if utf8_valid l then Some l else None, r))"

definition read_exact :: "nat \<Rightarrow> string \<Rightarrow> (string \<times> string) option" where
  "read_exact n input = (if n \<le> length input then Some (take n input, drop n input) else None)"

fun strip_lfcr :: "string \<Rightarrow> string" where
  "strip_lfcr (a # b # s) = (if a = LF \<and> b = CR then strip_lfcr s else a # b # s)"
| "strip_lfcr s = s"

definition trim_end_crlf :: "string \<Rightarrow> string" where
  "trim_end_crlf s = rev (strip_lfcr (rev s))"

lemma utf8_valid_trim:
  assumes "utf8_valid s"
  shows "utf8_valid (trim_end_crlf s)"
proof -
  have "utf8_valid (rev r) \<Longrightarrow> utf8_valid (rev (strip_lfcr r))" for r
  proof (induction r rule: strip_lfcr.induct)
    case (1 a b r)
    show ?case
    proof (cases "a = LF \<and> b = CR")
      case True
      with "1.prems" utf8_valid_ascii_end [of "rev r" CR "[LF]"] 1 show ?thesis by simp
    qed (use 1 in auto)
  qed simp_all
  with assms show ?thesis unfolding trim_end_crlf_def by simp
qed

lemma split_line_append: "split_line s = (l, r) \<Longrightarrow> s = l @ r"
  by (induction s arbitrary: l) (auto split: if_splits prod.splits)

lemma split_line_shorter: "split_line s = (l, r) \<Longrightarrow> l \<noteq> [] \<Longrightarrow> length r < length s"
  by (auto dest!: split_line_append)

lemma split_line_LF: "LF \<notin> set s \<Longrightarrow> split_line (s @ LF # r) = (s @ [LF], r)"
  by (induction s) auto

lemma read_line_shorter: "read_line s = (Some l, r) \<Longrightarrow> l \<noteq> [] \<Longrightarrow> length r < length s"
  by (auto simp: read_line_def split: prod.splits if_splits dest: split_line_shorter)

lemma read_line_LF:
  "LF \<notin> set s \<Longrightarrow> utf8_valid s \<Longrightarrow> read_line (s @ CR # LF # r) = (Some (s @ [CR, LF]), r)"
  using split_line_LF [of "s @ [CR]" r] by (simp add: read_line_def utf8_valid_append)

lemma read_exact_shorter: "read_exact n s = Some (b, r) \<Longrightarrow> length r + n = length s"
  by (auto simp: read_exact_def split: if_splits)

lemma read_exact_append: "read_exact (length b) (b @ r) = Some (b, r)"
  by (simp add: read_exact_def)

lemma trim_end_crlf_once: "LF \<notin> set s \<Longrightarrow> trim_end_crlf (s @ [CR, LF]) = s"
proof -
  assume "LF \<notin> set s"
  then have "LF \<notin> set (rev s)" by simp
  then have "strip_lfcr (rev s) = rev s" by (cases "rev s" rule: strip_lfcr.cases) auto
  then show ?thesis by (simp add: trim_end_crlf_def)
qed

section \<open>Instants and durations\<close>

text \<open>On the Unix targets an \<open>Instant\<close> keeps its seconds in an \<open>i64\<close>;
  \<open>checked_add\<close> is \<open>None\<close> and \<open>+\<close> panics when they would not fit.\<close>

definition from_secs :: "nat \<Rightarrow> int" where "from_secs n = int n * 1000000000"
definition from_millis :: "nat \<Rightarrow> int" where "from_millis n = int n * 1000000"
definition as_secs :: "int \<Rightarrow> int" where "as_secs d = d div 1000000000"
definition as_millis :: "int \<Rightarrow> int" where "as_millis d = d div 1000000"

definition instant_checked_add :: "int \<Rightarrow> int \<Rightarrow> int option" where
  "instant_checked_add t d = (if as_secs (t + d) \<le> i64_max then Some (t + d) else None)"

definition checked_duration_since :: "int \<Rightarrow> int \<Rightarrow> int option" where
  "checked_duration_since t t0 = (if t0 \<le> t then Some (t - t0) else None)"

lemma instant_checked_add_Some: "instant_checked_add t d = Some t' \<Longrightarrow> t' = t + d"
  by (simp add: instant_checked_add_def split: if_splits)

end
