(* ===== verification/Resp2.thy ===== *)
theory Resp2
  imports Rust_Std
begin

text \<open>
  The RESP2 codec of \<open>resp2.rs\<close>: \<open>encode\<close>, the macro-generated \<open>decode\<close> (one
  definition for the sync and the async instance, which differ only in \<open>.await\<close>), their
  helpers, and the rewriting of relative expiries to \<open>PEXPIREAT\<close>.  A reader is the string of
  bytes still to be read; a decoder returns its result and the remaining bytes, or panics.
  \<open>decode\<close> is total: its termination proof shows that every successful call consumes input.
\<close>

section \<open>Values and errors\<close>

datatype resp_value =
    SimpleString string
  | SimpleError string
  | Integer int
  | BulkString "string option"
  | Array "resp_value list option"

datatype resp_error =
    UnknownPrefix char
  | InvalidInteger string
  | InvalidUtf8
  | UnexpectedEof

abbreviation crlf :: string where "crlf \<equiv> [CR, LF]"

section \<open>Encoding\<close>

definition encode_bulk_string :: "string option \<Rightarrow> string" where
  "encode_bulk_string b =
     (case b of
        Some s \<Rightarrow> ''$'' @ show_nat (length s) @ crlf @ s @ crlf
      | None \<Rightarrow> ''$-1'' @ crlf)"

function encode :: "resp_value \<Rightarrow> string"
  and encode_array :: "resp_value list option \<Rightarrow> string" where
  "encode (SimpleString s) = ''+'' @ s @ crlf"
| "encode (SimpleError s) = ''-'' @ s @ crlf"
| "encode (Integer n) = '':'' @ show_int n @ crlf"
| "encode (BulkString s) = encode_bulk_string s"
| "encode (Array arr) = encode_array arr"
| "encode_array (Some items) =
     (if items = [] then ''*0'' @ crlf
      else ''*'' @ show_nat (length items) @ crlf @ concat (map encode items))"
| "encode_array None = ''*-1'' @ crlf"
  by pat_completeness auto
termination
  by (relation "measure (\<lambda>x. case x of Inl v \<Rightarrow> size v | Inr a \<Rightarrow> size_option (size_list size) a)")
    (auto simp: less_Suc_eq_le elim: size_list_estimation')

section \<open>Decoding\<close>

definition parse_header :: "string \<Rightarrow> (char \<times> string, resp_error) result outcome" where
  "parse_header line =
     (case line of
        [] \<Rightarrow> Ret (Err UnexpectedEof)
      | b # rest \<Rightarrow> if char_boundary_1 line then Ret (Ok (b, trim_end_crlf rest)) else Panic)"

definition parse_length :: "string \<Rightarrow> (int, resp_error) result" where
  "parse_length len =
     (case parse_i64 len of
        None \<Rightarrow> Err (InvalidInteger len)
      | Some n \<Rightarrow> if n < -1 then Err (InvalidInteger (show_int n)) else Ok n)"

definition bulk_string_from_bytes :: "int \<Rightarrow> string \<Rightarrow> (resp_value, resp_error) result" where
  "bulk_string_from_bytes n bytes =
     (let value = take (nat n) bytes in
      if utf8_valid value then Ok (BulkString (Some value)) else Err InvalidUtf8)"

definition parse_bulk_string ::
    "string \<Rightarrow> string \<Rightarrow> ((resp_value, resp_error) result \<times> string) outcome" where
  "parse_bulk_string len reader =
     (case parse_length len of
        Err e \<Rightarrow> Ret (Err e, reader)
      | Ok n \<Rightarrow>
          if n = -1 then Ret (Ok (BulkString None), reader)
          else if \<not> vec_capacity_ok 1 (nat n + 2) then Panic
          else case read_exact (nat n + 2) reader of
                 None \<Rightarrow> Ret (Err UnexpectedEof, [])
               | Some (second_part, reader') \<Rightarrow>
                   Ret (bulk_string_from_bytes n second_part, reader'))"

function (sequential) decode :: "string \<Rightarrow> ((resp_value, resp_error) result \<times> string) outcome"
  and parse_array :: "string \<Rightarrow> string \<Rightarrow> ((resp_value, resp_error) result \<times> string) outcome"
  and parse_items :: "nat \<Rightarrow> string \<Rightarrow> ((resp_value list, resp_error) result \<times> string) outcome"
where
  "decode reader =
     (case read_line reader of
        (None, reader') \<Rightarrow> Ret (Err UnexpectedEof, reader')
      | (Some line, reader') \<Rightarrow>
          if line = [] then Ret (Err UnexpectedEof, reader')
          else case parse_header line of
            Panic \<Rightarrow> Panic
          | Ret (Err e) \<Rightarrow> Ret (Err e, reader')
          | Ret (Ok (first_byte, rest)) \<Rightarrow>
              if first_byte = CHR ''+'' then Ret (Ok (SimpleString rest), reader')
              else if first_byte = CHR ''-'' then Ret (Ok (SimpleError rest), reader')
              else if first_byte = CHR '':'' then
                (case parse_i64 rest of
                   Some n \<Rightarrow> Ret (Ok (Integer n), reader')
                 | None \<Rightarrow> Ret (Err (InvalidInteger rest), reader'))
              else if first_byte = CHR ''$'' then parse_bulk_string rest reader'
              else if first_byte = CHR ''*'' then parse_array rest reader'
              else Ret (Err (UnknownPrefix first_byte), reader'))"
| "parse_array len reader =
     (case parse_length len of
        Err e \<Rightarrow> Ret (Err e, reader)
      | Ok n \<Rightarrow>
          if n = -1 then Ret (Ok (Array None), reader)
          else if n = 0 then Ret (Ok (Array (Some [])), reader)
          else case parse_items (nat n) reader of
                 Panic \<Rightarrow> Panic
               | Ret (Err e, reader') \<Rightarrow> Ret (Err e, reader')
               | Ret (Ok vs, reader') \<Rightarrow> Ret (Ok (Array (Some vs)), reader'))"
| "parse_items k reader =
     (if k = 0 then Ret (Ok [], reader)
      else case decode reader of
             Panic \<Rightarrow> Panic
           | Ret (Err e, reader') \<Rightarrow> Ret (Err e, reader')
           | Ret (Ok v, reader') \<Rightarrow>
               (case parse_items (k - 1) reader' of
                  Panic \<Rightarrow> Panic
                | Ret (Err e, reader'') \<Rightarrow> Ret (Err e, reader'')
                | Ret (Ok vs, reader'') \<Rightarrow> Ret (Ok (v # vs), reader'')))"
  by pat_completeness auto

text \<open>Every successful call consumes: shown on the domain of the recursion, and used to prove that
  the domain is everything.\<close>

lemma parse_bulk_string_consumes:
  "parse_bulk_string len s = Ret (Ok v, r) \<Longrightarrow> length r \<le> length s"
  by (auto simp: parse_bulk_string_def split: result.splits if_splits option.splits
      dest: read_exact_shorter)

lemma decode_consumes_aux:
  "decode_parse_array_parse_items_dom (Inl s) \<Longrightarrow>
     (\<forall>v r. decode s = Ret (Ok v, r) \<longrightarrow> length r < length s)"
  "decode_parse_array_parse_items_dom (Inr (Inl (len, s))) \<Longrightarrow>
     (\<forall>v r. parse_array len s = Ret (Ok v, r) \<longrightarrow> length r \<le> length s)"
  "decode_parse_array_parse_items_dom (Inr (Inr (k, s))) \<Longrightarrow>
     (\<forall>v r. parse_items k s = Ret (Ok v, r) \<longrightarrow> length r \<le> length s)"
proof (induction rule: decode_parse_array_parse_items.pinduct)
  case (1 s)
  show ?case
  proof (intro allI impI)
    fix v r
    assume d: "decode s = Ret (Ok v, r)"
    then obtain line r' where l: "read_line s = (Some line, r')" "line \<noteq> []"
      by (auto simp: decode.psimps [OF "1.hyps"] split: prod.splits option.splits if_splits)
    with d consider "r = r'" | b where "parse_bulk_string b r' = Ret (Ok v, r)"
      | b where "parse_header line = Ret (Ok (CHR ''*'', b))" "parse_array b r' = Ret (Ok v, r)"
      by (auto simp: decode.psimps [OF "1.hyps"] split: outcome.splits result.splits if_splits
          option.splits)
    then have "length r \<le> length r'"
      by cases (use "1.IH" l in \<open>auto dest: parse_bulk_string_consumes\<close>)
    with read_line_shorter [OF l] show "length r < length s" by simp
  qed
next
  case (2 len s)
  then show ?case
    by (auto simp: parse_array.psimps split: result.splits outcome.splits if_splits)
next
  case (3 k s)
  then show ?case
    by (fastforce simp: parse_items.psimps split: result.splits outcome.splits if_splits)
qed

lemma decode_dom_all: "All decode_parse_array_parse_items_dom"
  by (rule "decode_parse_array_parse_items.termination"
      [of "inv_image (less_than <*lex*> less_than <*lex*> less_than)
         (\<lambda>x. case x of Inl s \<Rightarrow> (length s, 0, 0) | Inr (Inl (len, s)) \<Rightarrow> (length s, 2, 0)
              | Inr (Inr (k, s)) \<Rightarrow> (length s, 1, k))"])
    (auto dest: read_line_shorter [OF sym] decode_consumes_aux(1))

termination decode
  by (rule decode_dom_all)

declare decode.simps [simp del] parse_array.simps [simp del] parse_items.simps [simp del]

lemma decode_consumes: "decode s = Ret (Ok v, r) \<Longrightarrow> length r < length s"
  using decode_consumes_aux(1) [OF decode_dom_all [rule_format]] by blast

section \<open>Rewriting relative expiries\<close>

definition u64_add :: "bool \<Rightarrow> nat \<Rightarrow> nat \<Rightarrow> nat outcome" where
  "u64_add checks a b =
     (if a + b \<le> u64_max then Ret (a + b)
      else if checks then Panic else Ret ((a + b) mod (u64_max + 1)))"

definition saturating_mul_u64 :: "nat \<Rightarrow> nat \<Rightarrow> nat" where
  "saturating_mul_u64 a b = min (a * b) u64_max"

text \<open>\<open>duration_since(UNIX_EPOCH).unwrap_or_default().as_millis() as u64\<close>.\<close>

definition unix_millis_or_default :: "int \<Rightarrow> nat" where
  "unix_millis_or_default unix_ns = as_u64 (as_millis (max 0 unix_ns))"

definition pexpireat_frame :: "string \<Rightarrow> nat \<Rightarrow> resp_value" where
  "pexpireat_frame key deadline_ms =
     Array (Some [BulkString (Some ''PEXPIREAT''), BulkString (Some key),
                  BulkString (Some (show_nat deadline_ms))])"

definition convert_expire_to_pexpireat :: "bool \<Rightarrow> int \<Rightarrow> string \<Rightarrow> nat \<Rightarrow> string outcome" where
  "convert_expire_to_pexpireat checks unix_ns key seconds =
     (case u64_add checks (unix_millis_or_default unix_ns) (saturating_mul_u64 seconds 1000) of
        Panic \<Rightarrow> Panic
      | Ret deadline_ms \<Rightarrow> Ret (encode (pexpireat_frame key deadline_ms)))"

definition convert_pexpire_to_pexpireat :: "bool \<Rightarrow> int \<Rightarrow> string \<Rightarrow> nat \<Rightarrow> string outcome" where
  "convert_pexpire_to_pexpireat checks unix_ns key milliseconds =
     (case u64_add checks (unix_millis_or_default unix_ns) milliseconds of
        Panic \<Rightarrow> Panic
      | Ret deadline_ms \<Rightarrow> Ret (encode (pexpireat_frame key deadline_ms)))"

section \<open>Round trip\<close>

text \<open>The values a Rust \<open>RespValue\<close> can hold (strings are UTF-8, integers fit, lengths fit an
  allocation) whose simple strings carry no line feed, as the protocol demands of them.\<close>

fun wf_resp :: "resp_value \<Rightarrow> bool" where
  "wf_resp (SimpleString s) = (utf8_valid s \<and> LF \<notin> set s)"
| "wf_resp (SimpleError s) = (utf8_valid s \<and> LF \<notin> set s)"
| "wf_resp (Integer n) = (- 9223372036854775808 \<le> n \<and> n \<le> i64_max)"
| "wf_resp (BulkString None) = True"
| "wf_resp (BulkString (Some s)) = (utf8_valid s \<and> vec_capacity_ok 1 (length s + 2))"
| "wf_resp (Array None) = True"
| "wf_resp (Array (Some vs)) = (int (length vs) \<le> i64_max \<and> list_all wf_resp vs)"

lemma of_char_LF [simp]: "(of_char LF :: nat) = 10" and of_char_CR [simp]: "(of_char CR :: nat) = 13"
  by simp_all

lemma show_nat_no_LF: "LF \<notin> set (show_nat n)"
  using show_radix_ascii(1) [of 10 LF n] by (auto simp: show_nat_def)

lemma show_nat_utf8: "utf8_valid (show_nat n)"
  unfolding show_nat_def
  by (rule utf8_valid_ascii) (use show_radix_ascii(2) [of 10 _ n] in fastforce)

lemma show_int_no_LF: "LF \<notin> set (show_int n)"
  by (simp add: show_int_def show_nat_no_LF)

lemma show_int_utf8: "utf8_valid (show_int n)"
  by (simp add: show_int_def show_nat_utf8)

lemmas show_line_safe = show_nat_no_LF show_nat_utf8 show_int_no_LF show_int_utf8

lemma parse_header_line:
  "LF \<notin> set s \<Longrightarrow> utf8_valid s \<Longrightarrow> (of_char b :: nat) < 128 \<Longrightarrow>
     parse_header (b # s @ crlf) = Ret (Ok (b, s))"
  using ascii_head_boundary [of b "s @ crlf"]
  by (simp add: parse_header_def trim_end_crlf_once utf8_valid_append)

lemma decode_header:
  assumes "LF \<notin> set s" "utf8_valid s" "(of_char b :: nat) < 128" "b \<noteq> LF"
  shows "decode (b # s @ CR # LF # r) =
     (if b = CHR ''+'' then Ret (Ok (SimpleString s), r)
      else if b = CHR ''-'' then Ret (Ok (SimpleError s), r)
      else if b = CHR '':'' then
        (case parse_i64 s of Some n \<Rightarrow> Ret (Ok (Integer n), r) | None \<Rightarrow> Ret (Err (InvalidInteger s), r))
      else if b = CHR ''$'' then parse_bulk_string s r
      else if b = CHR ''*'' then parse_array s r
      else Ret (Err (UnknownPrefix b), r))"
proof -
  have "read_line ((b # s) @ CR # LF # r) = (Some ((b # s) @ crlf), r)"
    by (rule read_line_LF) (use assms in auto)
  with assms parse_header_line [of s b] show ?thesis by (simp add: decode.simps)
qed

lemma parse_length_show:
  "int n \<le> i64_max \<Longrightarrow> parse_length (show_nat n) = Ok (int n)"
  using parse_i64_show [of "int n"] by (simp add: parse_length_def show_int_def)

lemma parse_length_minus_one: "parse_length ''-1'' = Ok (- 1)"
  by (simp add: parse_length_def parse_i64_def digit_val_def)

lemma parse_length_zero: "parse_length ''0'' = Ok 0"
  by (simp add: parse_length_def parse_i64_def parse_unsigned_def strip_plus_def digit_val_def)

lemma parse_bulk_string_encoded:
  assumes "utf8_valid s" "vec_capacity_ok 1 (length s + 2)"
  shows "parse_bulk_string (show_nat (length s)) (s @ crlf @ rest) = Ret (Ok (BulkString (Some s)), rest)"
proof -
  have "read_exact (length s + 2) ((s @ crlf) @ rest) = Some (s @ crlf, rest)"
    using read_exact_append [of "s @ crlf" rest] by simp
  with assms show ?thesis
    by (simp add: parse_bulk_string_def parse_length_show bulk_string_from_bytes_def
        vec_capacity_ok_def)
qed

lemma parse_items_encoded:
  "(\<And>v rest. v \<in> set vs \<Longrightarrow> decode (encode v @ rest) = Ret (Ok v, rest)) \<Longrightarrow>
     parse_items (length vs) (concat (map encode vs) @ rest) = Ret (Ok vs, rest)"
proof (induction vs)
  case Nil
  then show ?case by (simp add: parse_items.simps)
next
  case (Cons v vs)
  then have "parse_items (length vs) (concat (map encode vs) @ rest) = Ret (Ok vs, rest)"
    and "decode (encode v @ concat (map encode vs) @ rest) = Ret (Ok v, concat (map encode vs) @ rest)"
    by auto
  then show ?case by (simp add: parse_items.simps [of "Suc (length vs)"])
qed

lemma decode_encode_rest: "wf_resp v \<Longrightarrow> decode (encode v @ rest) = Ret (Ok v, rest)"
proof (induction v arbitrary: rest rule: resp_value.induct)
  case (Integer n)
  then show ?case using decode_header [of "show_int n" "CHR '':''" rest] by (simp add: show_line_safe)
next
  case (BulkString b)
  show ?case
  proof (cases b)
    case None
    then show ?thesis using parse_length_minus_one decode_header [of "''-1''" "CHR ''$''" rest]
      by (simp add: encode_bulk_string_def parse_bulk_string_def)
  next
    case (Some s)
    with BulkString show ?thesis
      using decode_header [of "show_nat (length s)" "CHR ''$''" "s @ crlf @ rest"]
        parse_bulk_string_encoded [of s rest]
      by (simp add: encode_bulk_string_def show_line_safe)
  qed
next
  case (Array a)
  show ?case
  proof (cases a)
    case None
    then show ?thesis using parse_length_minus_one decode_header [of "''-1''" "CHR ''*''" rest]
      by (simp add: parse_array.simps)
  next
    case (Some vs)
    show ?thesis
    proof (cases "vs = []")
      case True
      then show ?thesis using Some parse_length_zero decode_header [of "''0''" "CHR ''*''" rest]
        by (simp add: parse_array.simps)
    next
      case False
      have "parse_items (length vs) (concat (map encode vs) @ rest) = Ret (Ok vs, rest)"
        by (rule parse_items_encoded) (use Array Some in \<open>auto simp: list_all_iff\<close>)
      with Array.prems Some False show ?thesis
        using decode_header [of "show_nat (length vs)" "CHR ''*''" "concat (map encode vs) @ rest"]
        by (simp add: show_line_safe parse_array.simps parse_length_show)
    qed
  qed
qed (simp_all add: decode_header)

text \<open>A value a Rust program can hold: every string is UTF-8, every integer an \<open>i64\<close>, and every bulk
  string and array fits an allocation.  (A line that ends in a bare line feed keeps it, so a decoded
  line need not be one that can be encoded again.)\<close>

fun rust_value :: "resp_value \<Rightarrow> bool" where
  "rust_value (SimpleString s) = utf8_valid s"
| "rust_value (SimpleError s) = utf8_valid s"
| "rust_value (Integer n) = (- 9223372036854775808 \<le> n \<and> n \<le> i64_max)"
| "rust_value (BulkString None) = True"
| "rust_value (BulkString (Some s)) = (utf8_valid s \<and> vec_capacity_ok 1 (length s + 2))"
| "rust_value (Array None) = True"
| "rust_value (Array (Some vs)) = (int (length vs) \<le> i64_max \<and> list_all rust_value vs)"

lemma parse_length_range: "parse_length len = Ok n \<Longrightarrow> - 1 \<le> n \<and> n \<le> i64_max"
  by (auto simp: parse_length_def parse_i64_def parse_unsigned_def Let_def split: option.splits if_splits list.splits)

lemma parse_i64_range: "parse_i64 s = Some n \<Longrightarrow> - 9223372036854775808 \<le> n \<and> n \<le> i64_max"
  by (auto simp: parse_i64_def parse_unsigned_def Let_def split: option.splits if_splits list.splits)

lemma header_utf8:
  assumes "read_line s = (Some line, r)" "parse_header line = Ret (Ok (b, rest))"
  shows "utf8_valid rest"
proof (cases line)
  case (Cons a l)
  have valid: "utf8_valid (a # l)" and rest: "char_boundary_1 (a # l)" "rest = trim_end_crlf l"
    using assms Cons by (auto simp: read_line_def parse_header_def split: prod.splits if_splits)
  then have "(of_char a :: nat) < 128" using nonascii_head_no_boundary [OF valid] by force
  with valid rest(2) show ?thesis by (simp add: utf8_valid_trim)
qed (use assms(2) in \<open>simp add: parse_header_def\<close>)

lemma parse_bulk_string_ok: "parse_bulk_string len s = Ret (Ok v, r) \<Longrightarrow> rust_value v"
  by (auto simp: parse_bulk_string_def bulk_string_from_bytes_def Let_def vec_capacity_ok_def read_exact_def
      split: result.splits if_splits option.splits dest: parse_length_range)

lemma decode_rust_value:
  "\<And>v r. decode s = Ret (Ok v, r) \<Longrightarrow> rust_value v"
  "\<And>v r. parse_array len s = Ret (Ok v, r) \<Longrightarrow> rust_value v"
  "\<And>vs r. parse_items k s = Ret (Ok vs, r) \<Longrightarrow> length vs = k \<and> list_all rust_value vs"
proof (induction s and len s and k s rule: decode_parse_array_parse_items.induct)
  case (1 s)
  from "1.prems" obtain line r' where l: "read_line s = (Some line, r')" "line \<noteq> []"
    by (auto simp: decode.simps [of s] split: prod.splits option.splits if_splits)
  have simple: "utf8_valid b" if "parse_header line = Ret (Ok (c, b))" for c b
    by (rule header_utf8 [OF l(1) that])
  from "1.prems" l simple consider "rust_value v" | b where "parse_bulk_string b r' = Ret (Ok v, r)"
      | b where "parse_header line = Ret (Ok (CHR ''*'', b))" "parse_array b r' = Ret (Ok v, r)"
    by (auto simp: decode.simps [of s] dest!: parse_i64_range split: outcome.splits result.splits if_splits option.splits)
  then show ?case by cases (use "1.IH" l parse_bulk_string_ok in auto)
next
  case (2 len s)
  then show ?case
    by (auto simp: parse_array.simps [of len s] split: result.splits outcome.splits if_splits prod.splits dest: parse_length_range)
next
  case (3 k s)
  then show ?case
    by (fastforce simp: parse_items.simps [of k s] split: result.splits outcome.splits if_splits)
qed

section \<open>The codec as an interface\<close>

text \<open>What the connection handler and the append-only file rely on: a decoder that reads back
  what the encoder wrote, leaves the rest of the stream alone and always makes progress.\<close>

locale prefix_codec =
  fixes enc :: "'v \<Rightarrow> string"
    and dec :: "string \<Rightarrow> (('v, 'e) result \<times> string) outcome"
    and valid :: "'v \<Rightarrow> bool"
  assumes roundtrip: "valid v \<Longrightarrow> dec (enc v @ rest) = Ret (Ok v, rest)"
    and consumes: "dec s = Ret (Ok v, r) \<Longrightarrow> length r < length s"
begin

lemma enc_nonempty: "valid v \<Longrightarrow> enc v \<noteq> []"
proof
  assume v: "valid v" and e: "enc v = []"
  from roundtrip [OF v, of "[]"] e have "dec [] = Ret (Ok v, [])" by simp
  from consumes [OF this] show False by simp
qed

lemma framing_unambiguous:
  assumes "valid v" "valid w" and eq: "enc v @ r = enc w @ r'"
  shows "v = w \<and> r = r'"
proof -
  have "Ret (Ok v, r) = Ret (Ok w, r')"
    using roundtrip [OF assms(1), of r] roundtrip [OF assms(2), of r'] unfolding eq by simp
  then show ?thesis by simp
qed

lemma stream_injective:
  "list_all valid vs \<Longrightarrow> list_all valid ws \<Longrightarrow>
     concat (map enc vs) = concat (map enc ws) \<Longrightarrow> vs = ws"
proof (induction vs arbitrary: ws)
  case Nil
  then show ?case by (cases ws) (auto dest: enc_nonempty)
next
  case (Cons v vs)
  then obtain w ws' where ws: "ws = w # ws'"
    by (cases ws) (auto dest: enc_nonempty)
  have "v = w \<and> concat (map enc vs) = concat (map enc ws')"
    by (rule framing_unambiguous) (use Cons.prems ws in auto)
  with Cons ws show ?case by auto
qed

end

interpretation resp: prefix_codec encode decode wf_resp
  by unfold_locales (simp_all add: decode_encode_rest decode_consumes)

section \<open>Properties\<close>

text \<open>C1: decoding the encoding of any value the protocol can carry gives that value back and
  leaves exactly the bytes that followed it, whatever they are.\<close>

theorem decode_encode:
  "wf_resp v \<Longrightarrow> decode (encode v @ rest) = Ret (Ok v, rest)"
  by (rule resp.roundtrip)

theorem decode_encode_witness:
  "decode (encode (Array (Some [BulkString (Some ''a''), Integer (- 3)])) @ ''xyz'')
     = Ret (Ok (Array (Some [BulkString (Some ''a''), Integer (- 3)])), ''xyz'')"
  by (rule decode_encode) (simp add: vec_capacity_ok_def)

text \<open>Framing is unambiguous: two pipelines of replies with the same bytes on the wire are
  the same replies.\<close>

theorem encode_stream_injective:
  "list_all wf_resp vs \<Longrightarrow> list_all wf_resp ws \<Longrightarrow>
     concat (map encode vs) = concat (map encode ws) \<Longrightarrow> vs = ws"
  by (rule resp.stream_injective)

theorem encode_stream_injective_witness:
  "\<exists>!vs. list_all wf_resp vs \<and> concat (map encode vs) = concat (map encode [Integer 1, BulkString None])"
proof
  show "list_all wf_resp [Integer 1, BulkString None] \<and>
      concat (map encode [Integer 1, BulkString None]) = concat (map encode [Integer 1, BulkString None])"
    by simp
  show "vs = [Integer 1, BulkString None]"
    if "list_all wf_resp vs \<and> concat (map encode vs) = concat (map encode [Integer 1, BulkString None])" for vs
    using that encode_stream_injective [of vs "[Integer 1, BulkString None]"] by simp
qed

text \<open>C37: every message that decoding accepts consumes at least one byte of the stream, so a loop over a
  finite stream ends, and the value it gives is one a Rust program can hold, at every depth: every
  string and error line is UTF-8, every integer is an \<open>i64\<close>, and every bulk string and array fits an
  allocation.\<close>

theorem decode_progress:
  "decode s = Ret (Ok v, r) \<Longrightarrow> length r < length s \<and> rust_value v"
  using resp.consumes decode_rust_value(1) by blast

theorem decode_progress_witness:
  "length ''x'' < length (encode (BulkString (Some ''hello'')) @ ''x'') \<and> rust_value (BulkString (Some ''hello''))"
  by (rule decode_progress) (rule decode_encode_rest, simp add: vec_capacity_ok_def)

text \<open>Nothing limits the depth of a value: four bytes a level are accepted as so many nested arrays.  The
  source decodes each level in a call inside the call for the one around it, so that the depth the program
  survives is that of its stack, which is not modelled.\<close>

fun nested :: "nat \<Rightarrow> resp_value" where
  "nested 0 = Array (Some [])"
| "nested (Suc n) = Array (Some [nested n])"

theorem decode_accepts_any_depth:
  "length (encode (nested n)) = 4 * n + 4 \<and> decode (encode (nested n)) = Ret (Ok (nested n), [])"
proof -
  have "wf_resp (nested n)" by (induction n) simp_all
  moreover have "length (encode (nested n)) = 4 * n + 4" by (induction n) (simp_all add: show_nat_def show_radix.simps)
  ultimately show ?thesis using decode_encode_rest [of "nested n" "[]"] by simp
qed

text \<open>A line whose first character is a multi-byte UTF-8 character makes the decoder panic
  instead of answering with an unknown-prefix error: the header parser slices the line at byte 1,
  which is not a character boundary.\<close>

theorem decode_multibyte_prefix_panics:
  "split_line s = (a # l, r) \<Longrightarrow> utf8_valid (a # l) \<Longrightarrow> 128 \<le> (of_char a :: nat) \<Longrightarrow> decode s = Panic"
  using nonascii_head_no_boundary [of a l]
  by (simp add: decode.simps read_line_def parse_header_def)

theorem decode_multibyte_prefix_panics_witness:
  "decode [CHR 0xC3, CHR 0xA9, CR, LF] = Panic"
  by (rule decode_multibyte_prefix_panics [where a = "CHR 0xC3" and l = "[CHR 0xA9, CR, LF]"])
    (simp_all add: utf8_valid.simps utf8_seq_def utf8_lead_def utf8_cont_def)

text \<open>A bulk string is accepted only with its announced length: when the stream holds fewer
  bytes than the announced ones plus the terminator, the decoder reports the end of the stream.\<close>

theorem decode_truncated_bulk:
  "int n \<le> i64_max \<Longrightarrow> vec_capacity_ok 1 (n + 2) \<Longrightarrow> length s < n + 2 \<Longrightarrow>
     decode (''$'' @ show_nat n @ crlf @ s) = Ret (Err UnexpectedEof, [])"
  using decode_header [of "show_nat n" "CHR ''$''" s]
  by (simp add: show_line_safe parse_bulk_string_def parse_length_show read_exact_def)

theorem decode_truncated_bulk_witness:
  "decode (''$'' @ show_nat 5 @ crlf @ ''hel'') = Ret (Err UnexpectedEof, [])"
  by (rule decode_truncated_bulk) (simp_all add: vec_capacity_ok_def)

end
