(* ===== verification/Errors.thy ===== *)
theory Errors
  imports Resp2
begin

text \<open>
  The error types of \<open>errors.rs\<close> with their \<open>Display\<close> texts and their conversion to
  \<open>io::Error\<close>.  \<open>RespError\<close> itself is declared with the codec.  The text of an
  unexpected-type error prints the offending value with \<open>{:?}\<close>: \<open>debug_resp\<close> is the
  derived \<open>Debug\<close> output, with the escaping of strings taken from the world.
\<close>

datatype handler_error =
    UnexpectedType string resp_value
  | UnknownCommand string
  | WrongArity nat nat
  | NotAnInteger string
  | DbIndexOutOfRange
  | SyntaxError

datatype store_error = WrongType | OutOfIndex | NoSuchKey

datatype io_error =
    InvalidDataResp resp_error
  | InvalidDataHandler handler_error
  | InvalidInput string
  | OsError string

section \<open>Display\<close>

definition display_resp_error :: "resp_error \<Rightarrow> string" where
  "display_resp_error e =
     (case e of
        UnknownPrefix c \<Rightarrow> ''unknown RESP2 prefix: '' @ [CHR 0x27, c, CHR 0x27]
      | InvalidInteger s \<Rightarrow> ''invalid integer: '' @ [CHR 0x27] @ s @ [CHR 0x27]
      | InvalidUtf8 \<Rightarrow> ''bulk string contains invalid UTF-8''
      | UnexpectedEof \<Rightarrow> ''connection closed mid-message'')"

fun join_debug :: "string list \<Rightarrow> string" where
  "join_debug [] = []"
| "join_debug [x] = x"
| "join_debug (x # xs) = x @ '', '' @ join_debug xs"

fun debug_resp :: "env \<Rightarrow> resp_value \<Rightarrow> string" where
  "debug_resp e (SimpleString s) = ''SimpleString('' @ debug_str e s @ '')''"
| "debug_resp e (SimpleError s) = ''SimpleError('' @ debug_str e s @ '')''"
| "debug_resp e (Integer n) = ''Integer('' @ show_int n @ '')''"
| "debug_resp e (BulkString None) = ''BulkString(None)''"
| "debug_resp e (BulkString (Some s)) = ''BulkString(Some('' @ debug_str e s @ ''))''"
| "debug_resp e (Array None) = ''Array(None)''"
| "debug_resp e (Array (Some vs)) = ''Array(Some(['' @ join_debug (map (debug_resp e) vs) @ '']))''"

definition display_handler_error :: "env \<Rightarrow> handler_error \<Rightarrow> string" where
  "display_handler_error e err =
     (case err of
        UnexpectedType expected got \<Rightarrow>
          ''unexpected type: expected '' @ [CHR 0x27] @ expected @ [CHR 0x27]
            @ '', got '' @ [CHR 0x27] @ debug_resp e got @ [CHR 0x27]
      | UnknownCommand s \<Rightarrow> ''unknown command: '' @ [CHR 0x27] @ s @ [CHR 0x27]
      | WrongArity expected got \<Rightarrow>
          ''wrong number of arguments: expected '' @ show_nat expected @ '', got '' @ show_nat got
      | NotAnInteger s \<Rightarrow> ''not an integer: '' @ [CHR 0x27] @ s @ [CHR 0x27]
      | DbIndexOutOfRange \<Rightarrow> ''ERR DB index is out of range''
      | SyntaxError \<Rightarrow> ''ERR syntax error'')"

definition display_store_error :: "store_error \<Rightarrow> string" where
  "display_store_error err =
     (case err of
        WrongType \<Rightarrow> ''WRONGTYPE Operation against a key holding the wrong kind of value''
      | OutOfIndex \<Rightarrow> ''ERR index out of range''
      | NoSuchKey \<Rightarrow> ''ERR No such key'')"

definition io_error_of_resp :: "resp_error \<Rightarrow> io_error" where
  "io_error_of_resp e = InvalidDataResp e"

definition io_error_of_handler :: "handler_error \<Rightarrow> io_error" where
  "io_error_of_handler e = InvalidDataHandler e"

lemma display_store_error_inject [simp]:
  "display_store_error a = display_store_error b \<longleftrightarrow> a = b"
  by (cases a; cases b) (simp_all add: display_store_error_def)

end
