(* ===== verification/Command.thy ===== *)
theory Command
  imports Errors
begin

text \<open>
  The commands of \<open>command/mod.rs\<close>, \<open>command/string.rs\<close>, \<open>command/list.rs\<close> and
  \<open>command/set.rs\<close>, and the parser from a decoded RESP2 value.  A parser returns a
  \<open>Result\<close> and panics where the source indexes out of range or reaches an
  \<open>unreachable!\<close>; the arity numbers of an error are the \<open>as u8\<close> casts of the source.

  The second half gives every command a canonical argument vector and shows that the parser
  inverts it.
\<close>

section \<open>Commands\<close>

datatype flush_mode = Sync | Async

datatype set_condition = NX | XX | IfEq string | IfNe string | IfDeq nat | IfDne nat

datatype set_expiry = Ex_secs nat | Px nat | ExAt nat | PxAt nat | KeepTtl

datatype (plugins only: code) command =
    Ping "string option"
  | Get string
  | Set string string "set_condition option" "set_expiry option" bool
  | Delete "string list"
  | GetDel string
  | Exists "string list"
  | MGet "string list"
  | MSet "(string \<times> string) list"
  | StrLen string
  | LPush string "string list"
  | RPush string "string list"
  | LPushX string "string list"
  | RPushX string "string list"
  | LPop string "nat option"
  | RPop string "nat option"
  | LSet string int string
  | LLen string
  | LIndex string int
  | LRange string int int
  | SAdd string "string list"
  | SMembers string
  | SIsMember string string
  | SMIsMember string "string list"
  | SRandMember string "int option"
  | SCard string
  | SMove string string string
  | SPop string "nat option"
  | SRem string "string list"
  | Ttl string
  | PTtl string
  | ExpireTime string
  | PExpireTime string
  | Persist string
  | Expire string nat
  | PExpire string nat
  | ExpireAt string nat
  | PExpireAt string nat
  | Keys string
  | Digest string
  | Select nat
  | DbSize
  | FlushDb "flush_mode option"

fun is_write :: "command \<Rightarrow> bool" where
  "is_write (Set _ _ _ _ _) = True"
| "is_write (Delete _) = True"
| "is_write (GetDel _) = True"
| "is_write (MSet _) = True"
| "is_write (LPush _ _) = True"
| "is_write (RPush _ _) = True"
| "is_write (LPushX _ _) = True"
| "is_write (RPushX _ _) = True"
| "is_write (LPop _ _) = True"
| "is_write (RPop _ _) = True"
| "is_write (SAdd _ _) = True"
| "is_write (SMove _ _ _) = True"
| "is_write (SPop _ _) = True"
| "is_write (SRem _ _) = True"
| "is_write (Persist _) = True"
| "is_write (Expire _ _) = True"
| "is_write (PExpire _ _) = True"
| "is_write (ExpireAt _ _) = True"
| "is_write (PExpireAt _ _) = True"
| "is_write (FlushDb _) = True"
| "is_write _ = False"

section \<open>Argument access\<close>

type_synonym parsed = "(command, handler_error) result outcome"

text \<open>\<open>match &args[i] { BulkString(Some(s)) => .., _ => unreachable!() }\<close>.\<close>

definition with_arg :: "resp_value list \<Rightarrow> nat \<Rightarrow> (string \<Rightarrow> 'a outcome) \<Rightarrow> 'a outcome" where
  "with_arg args i f =
     (if i < length args
      then (case args ! i of BulkString (Some s) \<Rightarrow> f s | _ \<Rightarrow> Panic)
      else Panic)"

text \<open>The loops that collect the remaining arguments.\<close>

fun bulk_strings :: "resp_value list \<Rightarrow> string list outcome" where
  "bulk_strings [] = Ret []"
| "bulk_strings (BulkString (Some s) # rest) =
     (case bulk_strings rest of Ret ss \<Rightarrow> Ret (s # ss) | Panic \<Rightarrow> Panic)"
| "bulk_strings (_ # _) = Panic"

text \<open>\<open>args.get(i)\<close> where anything but a bulk string counts as absent.\<close>

definition opt_arg :: "resp_value list \<Rightarrow> nat \<Rightarrow> string option" where
  "opt_arg args i =
     (if i < length args then (case args ! i of BulkString b \<Rightarrow> b | _ \<Rightarrow> None) else None)"

text \<open>The \<open>?\<close> operator on a \<open>Result\<close> inside a parser.\<close>

definition try_ok :: "('a, 'e) result \<Rightarrow> ('a \<Rightarrow> ('b, 'e) result outcome) \<Rightarrow> ('b, 'e) result outcome" where
  "try_ok r f = (case r of Ok x \<Rightarrow> f x | Err e \<Rightarrow> Ret (Err e))"

definition check_arity :: "resp_value list \<Rightarrow> nat \<Rightarrow> (unit, handler_error) result" where
  "check_arity args expected =
     (if length args \<noteq> expected then Err (WrongArity (as_u8 expected) (as_u8 (length args)))
      else Ok ())"

definition check_min_arity :: "resp_value list \<Rightarrow> nat \<Rightarrow> (unit, handler_error) result" where
  "check_min_arity args min_expected =
     (if length args < min_expected then Err (WrongArity (as_u8 min_expected) (as_u8 (length args)))
      else Ok ())"

text \<open>\<open>s.parse().map_err(|_| NotAnInteger(s))\<close>.\<close>

definition int_arg :: "(string \<Rightarrow> 'n option) \<Rightarrow> string \<Rightarrow> ('n, handler_error) result" where
  "int_arg parse s = ok_or (NotAnInteger s) (parse s)"

section \<open>Parsers\<close>

definition parse_ping_command :: "resp_value list \<Rightarrow> parsed" where
  "parse_ping_command args =
     (if length args = 1 then Ret (Ok (Ping None))
      else with_arg args 1 (\<lambda>message. Ret (Ok (Ping (Some message)))))"

definition parse_key_command :: "resp_value list \<Rightarrow> (string \<Rightarrow> command) \<Rightarrow> parsed" where
  "parse_key_command args make_cmd =
     try_ok (check_arity args 2) (\<lambda>_. with_arg args 1 (\<lambda>key. Ret (Ok (make_cmd key))))"

definition parse_keys_command :: "resp_value list \<Rightarrow> (string list \<Rightarrow> command) \<Rightarrow> parsed" where
  "parse_keys_command args make_cmd =
     try_ok (check_min_arity args 2) (\<lambda>_.
       case bulk_strings (drop 1 args) of Ret keys \<Rightarrow> Ret (Ok (make_cmd keys)) | Panic \<Rightarrow> Panic)"

definition parse_key_with_elements_command ::
    "resp_value list \<Rightarrow> (string \<Rightarrow> string list \<Rightarrow> command) \<Rightarrow> parsed" where
  "parse_key_with_elements_command args make_cmd =
     try_ok (check_min_arity args 3) (\<lambda>_. with_arg args 1 (\<lambda>key.
       case bulk_strings (drop 2 args) of
         Ret elements \<Rightarrow> Ret (Ok (make_cmd key elements)) | Panic \<Rightarrow> Panic))"

definition parse_pop_command :: "resp_value list \<Rightarrow> (string \<Rightarrow> nat option \<Rightarrow> command) \<Rightarrow> parsed" where
  "parse_pop_command args make_cmd =
     try_ok (check_min_arity args 2) (\<lambda>_. with_arg args 1 (\<lambda>key.
       case opt_arg args 2 of
         Some s \<Rightarrow> try_ok (int_arg parse_u64 s) (\<lambda>n. Ret (Ok (make_cmd key (Some n))))
       | None \<Rightarrow> Ret (Ok (make_cmd key None))))"

definition parse_expire_commands :: "resp_value list \<Rightarrow> (string \<Rightarrow> nat \<Rightarrow> command) \<Rightarrow> parsed" where
  "parse_expire_commands args make_cmd =
     try_ok (check_arity args 3) (\<lambda>_. with_arg args 1 (\<lambda>key. with_arg args 2 (\<lambda>s.
       try_ok (int_arg parse_u64 s) (\<lambda>seconds. Ret (Ok (make_cmd key seconds))))))"

definition parse_select_command :: "resp_value list \<Rightarrow> parsed" where
  "parse_select_command args =
     try_ok (check_arity args 2) (\<lambda>_. with_arg args 1 (\<lambda>s.
       case parse_u8 s of
         Some index \<Rightarrow> Ret (Ok (Select index))
       | None \<Rightarrow>
           if parse_i64 s \<noteq> None then Ret (Err DbIndexOutOfRange) else Ret (Err (NotAnInteger s))))"

definition parse_dbsize_command :: "resp_value list \<Rightarrow> parsed" where
  "parse_dbsize_command args = try_ok (check_arity args 1) (\<lambda>_. Ret (Ok DbSize))"

definition parse_flushdb_command :: "resp_value list \<Rightarrow> parsed" where
  "parse_flushdb_command args =
     (if length args > 2 then Ret (Err (WrongArity 1 (as_u8 (length args))))
      else if length args \<le> 1 then Ret (Ok (FlushDb None))
      else with_arg args 1 (\<lambda>s.
        if s = ''SYNC'' then Ret (Ok (FlushDb (Some Sync)))
        else if s = ''ASYNC'' then Ret (Ok (FlushDb (Some Async)))
        else Ret (Err SyntaxError)))"

text \<open>\<open>command/list.rs\<close>.\<close>

definition parse_lset_command :: "resp_value list \<Rightarrow> parsed" where
  "parse_lset_command args =
     try_ok (check_arity args 4) (\<lambda>_. with_arg args 1 (\<lambda>key. with_arg args 2 (\<lambda>s.
       try_ok (int_arg parse_i64 s) (\<lambda>index. with_arg args 3 (\<lambda>element.
         Ret (Ok (LSet key index element)))))))"

definition parse_lindex_command :: "resp_value list \<Rightarrow> parsed" where
  "parse_lindex_command args =
     try_ok (check_arity args 3) (\<lambda>_. with_arg args 1 (\<lambda>key. with_arg args 2 (\<lambda>s.
       try_ok (int_arg parse_i64 s) (\<lambda>index. Ret (Ok (LIndex key index))))))"

definition parse_lrange_command :: "resp_value list \<Rightarrow> parsed" where
  "parse_lrange_command args =
     try_ok (check_arity args 4) (\<lambda>_. with_arg args 1 (\<lambda>key. with_arg args 2 (\<lambda>s.
       try_ok (int_arg parse_i64 s) (\<lambda>start. with_arg args 3 (\<lambda>s'.
         try_ok (int_arg parse_i64 s') (\<lambda>stop. Ret (Ok (LRange key start stop))))))))"

text \<open>\<open>command/set.rs\<close>.\<close>

definition parse_smove_command :: "resp_value list \<Rightarrow> parsed" where
  "parse_smove_command args =
     try_ok (check_arity args 4) (\<lambda>_. with_arg args 1 (\<lambda>source. with_arg args 2 (\<lambda>destination.
       with_arg args 3 (\<lambda>member. Ret (Ok (SMove source destination member))))))"

definition parse_sismember_command :: "resp_value list \<Rightarrow> parsed" where
  "parse_sismember_command args =
     try_ok (check_arity args 3) (\<lambda>_. with_arg args 1 (\<lambda>key. with_arg args 2 (\<lambda>member.
       Ret (Ok (SIsMember key member)))))"

definition parse_smismember_command :: "resp_value list \<Rightarrow> parsed" where
  "parse_smismember_command args =
     try_ok (check_min_arity args 3) (\<lambda>_. with_arg args 1 (\<lambda>key.
       case bulk_strings (drop 2 args) of
         Ret members \<Rightarrow> Ret (Ok (SMIsMember key members)) | Panic \<Rightarrow> Panic))"

definition parse_srandmember_command :: "resp_value list \<Rightarrow> parsed" where
  "parse_srandmember_command args =
     try_ok (check_min_arity args 2) (\<lambda>_. with_arg args 1 (\<lambda>key.
       case opt_arg args 2 of
         Some s \<Rightarrow> try_ok (int_arg parse_i64 s) (\<lambda>n. Ret (Ok (SRandMember key (Some n))))
       | None \<Rightarrow> Ret (Ok (SRandMember key None))))"

section \<open>SET and MSET\<close>

record set_opts =
  opt_condition :: "set_condition option"
  opt_expiry :: "set_expiry option"
  opt_get :: bool

definition get_next_token :: "resp_value list \<Rightarrow> nat \<Rightarrow> (string, handler_error) result" where
  "get_next_token args i = ok_or SyntaxError (opt_arg args (i + 1))"

definition guard_duplicate_condition :: "set_condition option \<Rightarrow> (unit, handler_error) result" where
  "guard_duplicate_condition c = (if c \<noteq> None then Err SyntaxError else Ok ())"

fun bind_res :: "('a, 'e) result \<Rightarrow> ('a \<Rightarrow> ('b, 'e) result) \<Rightarrow> ('b, 'e) result" where
  "bind_res (Ok x) f = f x"
| "bind_res (Err e) f = Err e"

text \<open>One turn of the option loop: the index of the last argument it consumed and the options
  collected so far.\<close>

definition parse_set_option ::
    "resp_value list \<Rightarrow> nat \<Rightarrow> string \<Rightarrow> set_opts \<Rightarrow> (nat \<times> set_opts, handler_error) result" where
  "parse_set_option args i token opts =
     (if token = ''NX'' then
        bind_res (guard_duplicate_condition (opt_condition opts)) (\<lambda>_. Ok (i, opts\<lparr>opt_condition := Some NX\<rparr>))
      else if token = ''XX'' then
        bind_res (guard_duplicate_condition (opt_condition opts)) (\<lambda>_. Ok (i, opts\<lparr>opt_condition := Some XX\<rparr>))
      else if token = ''IFEQ'' then
        bind_res (guard_duplicate_condition (opt_condition opts)) (\<lambda>_.
        bind_res (get_next_token args i) (\<lambda>t. Ok (i + 1, opts\<lparr>opt_condition := Some (IfEq t)\<rparr>)))
      else if token = ''IFNE'' then
        bind_res (guard_duplicate_condition (opt_condition opts)) (\<lambda>_.
        bind_res (get_next_token args i) (\<lambda>t. Ok (i + 1, opts\<lparr>opt_condition := Some (IfNe t)\<rparr>)))
      else if token = ''IFDEQ'' \<or> token = ''IFDNE'' then
        bind_res (guard_duplicate_condition (opt_condition opts)) (\<lambda>_.
        bind_res (get_next_token args i) (\<lambda>t.
        bind_res (int_arg parse_u64_hex t) (\<lambda>n.
          Ok (i + 1, opts\<lparr>opt_condition := Some (if token = ''IFDEQ'' then IfDeq n else IfDne n)\<rparr>))))
      else if token = ''GET'' then Ok (i, opts\<lparr>opt_get := True\<rparr>)
      else if token = ''EX'' \<or> token = ''PX'' \<or> token = ''EXAT'' \<or> token = ''PXAT'' then
        (if opt_expiry opts \<noteq> None then Err SyntaxError
         else
           bind_res (get_next_token args i) (\<lambda>t.
           bind_res (int_arg parse_u64 t) (\<lambda>n.
             Ok (i + 1, opts\<lparr>opt_expiry := Some
               (if token = ''EX'' then Ex_secs n else if token = ''PX'' then Px n
                else if token = ''EXAT'' then ExAt n else PxAt n)\<rparr>))))
      else if token = ''KEEPTTL'' then
        (if opt_expiry opts \<noteq> None then Err SyntaxError else Ok (i, opts\<lparr>opt_expiry := Some KeepTtl\<rparr>))
      else Err SyntaxError)"

lemma bind_res_eq_Ok: "bind_res r f = Ok y \<longleftrightarrow> (\<exists>x. r = Ok x \<and> f x = Ok y)"
  by (cases r) auto

lemma if_ok_elim:
  "(if b then x else y) = Ok z \<Longrightarrow> (x = Ok z \<Longrightarrow> P) \<Longrightarrow> (y = Ok z \<Longrightarrow> P) \<Longrightarrow> P"
  by (cases b) auto

lemma parse_set_option_index: "parse_set_option args i token opts = Ok (j, opts') \<Longrightarrow> i \<le> j"
  unfolding parse_set_option_def
  by (elim if_ok_elim; clarsimp simp only: bind_res_eq_Ok result.inject prod.inject le_refl le_add1
      result.distinct)

function set_loop :: "resp_value list \<Rightarrow> nat \<Rightarrow> set_opts \<Rightarrow> (set_opts, handler_error) result outcome" where
  "set_loop args i opts =
     (if i < length args then
        case args ! i of
          BulkString (Some token) \<Rightarrow>
            (case parse_set_option args i token opts of
               Err e \<Rightarrow> Ret (Err e)
             | Ok (j, opts') \<Rightarrow> set_loop args (j + 1) opts')
        | _ \<Rightarrow> Panic
      else Ret (Ok opts))"
  by pat_completeness auto
termination set_loop
  by (relation "measure (\<lambda>(args, i, opts). length args - i)") (auto dest: parse_set_option_index)

declare set_loop.simps [simp del]

definition parse_set_command :: "resp_value list \<Rightarrow> parsed" where
  "parse_set_command args =
     try_ok (check_min_arity args 3) (\<lambda>_. with_arg args 1 (\<lambda>key. with_arg args 2 (\<lambda>value.
       case set_loop args 3 \<lparr>opt_condition = None, opt_expiry = None, opt_get = False\<rparr> of
         Panic \<Rightarrow> Panic
       | Ret (Err e) \<Rightarrow> Ret (Err e)
       | Ret (Ok opts) \<Rightarrow> Ret (Ok (Set key value (opt_condition opts) (opt_expiry opts) (opt_get opts))))))"

text \<open>\<open>args[1..].chunks_exact(2)\<close>, an odd last element left over.\<close>

fun chunk_pairs :: "'a list \<Rightarrow> ('a \<times> 'a) list" where
  "chunk_pairs (k # v # rest) = (k, v) # chunk_pairs rest"
| "chunk_pairs _ = []"

definition parse_mset_command :: "resp_value list \<Rightarrow> parsed" where
  "parse_mset_command args =
     try_ok (check_min_arity args 3) (\<lambda>_.
       if even (length args)
       then Ret (Err (WrongArity (as_u8 (length args) + 1) (as_u8 (length args))))
       else case bulk_strings (drop 1 args) of
              Ret ss \<Rightarrow> Ret (Ok (MSet (chunk_pairs ss))) | Panic \<Rightarrow> Panic)"

section \<open>Dispatch\<close>

text \<open>The \<open>match\<close> on the command name; the comparison is case sensitive.\<close>

definition parse_command :: "string \<Rightarrow> resp_value list \<Rightarrow> parsed" where
  "parse_command first_arg args =
     (if first_arg = ''PING'' then parse_ping_command args
      else if first_arg = ''GET'' then parse_key_command args Get
      else if first_arg = ''SET'' then parse_set_command args
      else if first_arg = ''DEL'' then parse_keys_command args Delete
      else if first_arg = ''GETDEL'' then parse_key_command args GetDel
      else if first_arg = ''EXISTS'' then parse_keys_command args Exists
      else if first_arg = ''MGET'' then parse_keys_command args MGet
      else if first_arg = ''MSET'' then parse_mset_command args
      else if first_arg = ''STRLEN'' then parse_key_command args StrLen
      else if first_arg = ''LPUSH'' then parse_key_with_elements_command args LPush
      else if first_arg = ''RPUSH'' then parse_key_with_elements_command args RPush
      else if first_arg = ''LPUSHX'' then parse_key_with_elements_command args LPushX
      else if first_arg = ''RPUSHX'' then parse_key_with_elements_command args RPushX
      else if first_arg = ''LPOP'' then parse_pop_command args LPop
      else if first_arg = ''RPOP'' then parse_pop_command args RPop
      else if first_arg = ''LSET'' then parse_lset_command args
      else if first_arg = ''LLEN'' then parse_key_command args LLen
      else if first_arg = ''LINDEX'' then parse_lindex_command args
      else if first_arg = ''LRANGE'' then parse_lrange_command args
      else if first_arg = ''SADD'' then parse_key_with_elements_command args SAdd
      else if first_arg = ''SMEMBERS'' then parse_key_command args SMembers
      else if first_arg = ''SISMEMBER'' then parse_sismember_command args
      else if first_arg = ''SMISMEMBER'' then parse_smismember_command args
      else if first_arg = ''SRANDMEMBER'' then parse_srandmember_command args
      else if first_arg = ''SCARD'' then parse_key_command args SCard
      else if first_arg = ''SMOVE'' then parse_smove_command args
      else if first_arg = ''SPOP'' then parse_pop_command args SPop
      else if first_arg = ''SREM'' then parse_key_with_elements_command args SRem
      else if first_arg = ''TTL'' then parse_key_command args Ttl
      else if first_arg = ''PTTL'' then parse_key_command args PTtl
      else if first_arg = ''EXPIRETIME'' then parse_key_command args ExpireTime
      else if first_arg = ''PEXPIRETIME'' then parse_key_command args PExpireTime
      else if first_arg = ''PERSIST'' then parse_key_command args Persist
      else if first_arg = ''EXPIRE'' then parse_expire_commands args Expire
      else if first_arg = ''PEXPIRE'' then parse_expire_commands args PExpire
      else if first_arg = ''EXPIREAT'' then parse_expire_commands args ExpireAt
      else if first_arg = ''PEXPIREAT'' then parse_expire_commands args PExpireAt
      else if first_arg = ''KEYS'' then parse_key_command args Keys
      else if first_arg = ''DIGEST'' then parse_key_command args Digest
      else if first_arg = ''SELECT'' then parse_select_command args
      else if first_arg = ''DBSIZE'' then parse_dbsize_command args
      else if first_arg = ''FLUSHDB'' then parse_flushdb_command args
      else Ret (Err (UnknownCommand first_arg)))"

definition is_bulk :: "resp_value \<Rightarrow> bool" where
  "is_bulk v = (case v of BulkString (Some _) \<Rightarrow> True | _ \<Rightarrow> False)"

definition from_resp2 :: "resp_value \<Rightarrow> parsed" where
  "from_resp2 v =
     (case v of
        Array (Some args) \<Rightarrow>
          (case find (\<lambda>a. \<not> is_bulk a) args of
             Some bad_arg \<Rightarrow> Ret (Err (UnexpectedType ''BulkString'' bad_arg))
           | None \<Rightarrow> with_arg args 0 (\<lambda>first_arg. parse_command first_arg args))
      | _ \<Rightarrow> Ret (Err (UnexpectedType ''Array'' v)))"

section \<open>Canonical argument vectors\<close>

definition bulks :: "string list \<Rightarrow> resp_value list" where
  "bulks ss = map (\<lambda>s. BulkString (Some s)) ss"

definition request :: "string list \<Rightarrow> resp_value" where
  "request ss = Array (Some (bulks ss))"

definition condition_args :: "set_condition option \<Rightarrow> string list" where
  "condition_args c =
     (case c of
        None \<Rightarrow> []
      | Some NX \<Rightarrow> [''NX'']
      | Some XX \<Rightarrow> [''XX'']
      | Some (IfEq v) \<Rightarrow> [''IFEQ'', v]
      | Some (IfNe v) \<Rightarrow> [''IFNE'', v]
      | Some (IfDeq n) \<Rightarrow> [''IFDEQ'', show_hex16 n]
      | Some (IfDne n) \<Rightarrow> [''IFDNE'', show_hex16 n])"

definition expiry_args :: "set_expiry option \<Rightarrow> string list" where
  "expiry_args x =
     (case x of
        None \<Rightarrow> []
      | Some (Ex_secs n) \<Rightarrow> [''EX'', show_nat n]
      | Some (Px n) \<Rightarrow> [''PX'', show_nat n]
      | Some (ExAt n) \<Rightarrow> [''EXAT'', show_nat n]
      | Some (PxAt n) \<Rightarrow> [''PXAT'', show_nat n]
      | Some KeepTtl \<Rightarrow> [''KEEPTTL''])"

definition opt_count :: "('n \<Rightarrow> string) \<Rightarrow> 'n option \<Rightarrow> string list" where
  "opt_count pr n = (case n of None \<Rightarrow> [] | Some x \<Rightarrow> [pr x])"

fun command_args :: "command \<Rightarrow> string list" where
  "command_args (Ping m) = ''PING'' # (case m of None \<Rightarrow> [] | Some s \<Rightarrow> [s])"
| "command_args (Get k) = [''GET'', k]"
| "command_args (Set k v c x g) =
     [''SET'', k, v] @ condition_args c @ expiry_args x @ (if g then [''GET''] else [])"
| "command_args (Delete ks) = ''DEL'' # ks"
| "command_args (GetDel k) = [''GETDEL'', k]"
| "command_args (Exists ks) = ''EXISTS'' # ks"
| "command_args (MGet ks) = ''MGET'' # ks"
| "command_args (MSet kvs) = ''MSET'' # concat (map (\<lambda>(k, v). [k, v]) kvs)"
| "command_args (StrLen k) = [''STRLEN'', k]"
| "command_args (LPush k xs) = ''LPUSH'' # k # xs"
| "command_args (RPush k xs) = ''RPUSH'' # k # xs"
| "command_args (LPushX k xs) = ''LPUSHX'' # k # xs"
| "command_args (RPushX k xs) = ''RPUSHX'' # k # xs"
| "command_args (LPop k n) = [''LPOP'', k] @ opt_count show_nat n"
| "command_args (RPop k n) = [''RPOP'', k] @ opt_count show_nat n"
| "command_args (LSet k i x) = [''LSET'', k, show_int i, x]"
| "command_args (LLen k) = [''LLEN'', k]"
| "command_args (LIndex k i) = [''LINDEX'', k, show_int i]"
| "command_args (LRange k a b) = [''LRANGE'', k, show_int a, show_int b]"
| "command_args (SAdd k ms) = ''SADD'' # k # ms"
| "command_args (SMembers k) = [''SMEMBERS'', k]"
| "command_args (SIsMember k m) = [''SISMEMBER'', k, m]"
| "command_args (SMIsMember k ms) = ''SMISMEMBER'' # k # ms"
| "command_args (SRandMember k n) = [''SRANDMEMBER'', k] @ opt_count show_int n"
| "command_args (SCard k) = [''SCARD'', k]"
| "command_args (SMove a b m) = [''SMOVE'', a, b, m]"
| "command_args (SPop k n) = [''SPOP'', k] @ opt_count show_nat n"
| "command_args (SRem k ms) = ''SREM'' # k # ms"
| "command_args (Ttl k) = [''TTL'', k]"
| "command_args (PTtl k) = [''PTTL'', k]"
| "command_args (ExpireTime k) = [''EXPIRETIME'', k]"
| "command_args (PExpireTime k) = [''PEXPIRETIME'', k]"
| "command_args (Persist k) = [''PERSIST'', k]"
| "command_args (Expire k n) = [''EXPIRE'', k, show_nat n]"
| "command_args (PExpire k n) = [''PEXPIRE'', k, show_nat n]"
| "command_args (ExpireAt k n) = [''EXPIREAT'', k, show_nat n]"
| "command_args (PExpireAt k n) = [''PEXPIREAT'', k, show_nat n]"
| "command_args (Keys p) = [''KEYS'', p]"
| "command_args (Digest k) = [''DIGEST'', k]"
| "command_args (Select i) = [''SELECT'', show_nat i]"
| "command_args DbSize = [''DBSIZE'']"
| "command_args (FlushDb m) =
     ''FLUSHDB'' # (case m of None \<Rightarrow> [] | Some Sync \<Rightarrow> [''SYNC''] | Some Async \<Rightarrow> [''ASYNC''])"

text \<open>The numbers of a command fit their machine types and its argument lists are not empty.\<close>

definition i64_range :: "int \<Rightarrow> bool" where
  "i64_range n \<longleftrightarrow> - 9223372036854775808 \<le> n \<and> n \<le> i64_max"

fun wf_condition :: "set_condition \<Rightarrow> bool" where
  "wf_condition (IfDeq n) = (n \<le> u64_max)"
| "wf_condition (IfDne n) = (n \<le> u64_max)"
| "wf_condition _ = True"

fun wf_expiry :: "set_expiry \<Rightarrow> bool" where
  "wf_expiry (Ex_secs n) = (n \<le> u64_max)"
| "wf_expiry (Px n) = (n \<le> u64_max)"
| "wf_expiry (ExAt n) = (n \<le> u64_max)"
| "wf_expiry (PxAt n) = (n \<le> u64_max)"
| "wf_expiry KeepTtl = True"

fun wf_command :: "command \<Rightarrow> bool" where
  "wf_command (Set k v c x g) = (pred_option wf_condition c \<and> pred_option wf_expiry x)"
| "wf_command (Delete ks) = (ks \<noteq> [])"
| "wf_command (Exists ks) = (ks \<noteq> [])"
| "wf_command (MGet ks) = (ks \<noteq> [])"
| "wf_command (MSet kvs) = (kvs \<noteq> [])"
| "wf_command (LPush k xs) = (xs \<noteq> [])"
| "wf_command (RPush k xs) = (xs \<noteq> [])"
| "wf_command (LPushX k xs) = (xs \<noteq> [])"
| "wf_command (RPushX k xs) = (xs \<noteq> [])"
| "wf_command (LPop k n) = pred_option (\<lambda>n. n \<le> u64_max) n"
| "wf_command (RPop k n) = pred_option (\<lambda>n. n \<le> u64_max) n"
| "wf_command (LSet k i x) = i64_range i"
| "wf_command (LIndex k i) = i64_range i"
| "wf_command (LRange k a b) = (i64_range a \<and> i64_range b)"
| "wf_command (SAdd k ms) = (ms \<noteq> [])"
| "wf_command (SMIsMember k ms) = (ms \<noteq> [])"
| "wf_command (SRandMember k n) = pred_option i64_range n"
| "wf_command (SPop k n) = pred_option (\<lambda>n. n \<le> u64_max) n"
| "wf_command (SRem k ms) = (ms \<noteq> [])"
| "wf_command (Expire k n) = (n \<le> u64_max)"
| "wf_command (PExpire k n) = (n \<le> u64_max)"
| "wf_command (ExpireAt k n) = (n \<le> u64_max)"
| "wf_command (PExpireAt k n) = (n \<le> u64_max)"
| "wf_command (Select i) = (i < 256)"
| "wf_command _ = True"

section \<open>The parser on bulk arrays\<close>

lemma bulks_simps [simp]:
  "length (bulks ss) = length ss" "drop n (bulks ss) = bulks (drop n ss)"
  "bulk_strings (bulks ss) = Ret ss"
  by (auto simp: bulks_def drop_map) (induction ss; simp)

lemma bulks_nth [simp]: "i < length ss \<Longrightarrow> bulks ss ! i = BulkString (Some (ss ! i))"
  by (simp add: bulks_def)

lemma with_arg_bulks [simp]:
  "with_arg (bulks ss) i f = (if i < length ss then f (ss ! i) else Panic)"
  by (simp add: with_arg_def bulks_def)

lemma opt_arg_bulks [simp]: "opt_arg (bulks ss) i = (if i < length ss then Some (ss ! i) else None)"
  by (simp add: opt_arg_def bulks_def)

lemma find_bulks: "find (\<lambda>a. \<not> is_bulk a) (bulks ss) = None"
  by (simp add: find_None_iff bulks_def is_bulk_def)

lemma from_resp2_request:
  "from_resp2 (request (name # ss)) = parse_command name (bulks (name # ss))"
  by (simp add: from_resp2_def request_def find_bulks)

lemma from_resp2_cases:
  "(\<exists>ss. v = request ss) \<or> (\<exists>e. from_resp2 v = Ret (Err e))"
proof (cases v)
  case (Array a)
  show ?thesis
  proof (cases "a = None \<or> (\<exists>args. a = Some args \<and> find (\<lambda>x. \<not> is_bulk x) args \<noteq> None)")
    case False
    then obtain args where a: "a = Some args" "\<forall>x\<in>set args. is_bulk x"
      by (auto simp: find_None_iff)
    then have "args = bulks (map (\<lambda>x. case x of BulkString (Some s) \<Rightarrow> s | _ \<Rightarrow> []) args)"
      unfolding bulks_def map_map
      by (intro map_idI [symmetric]) (auto simp: is_bulk_def split: resp_value.splits option.splits)
    with a Array show ?thesis by (auto simp: request_def)
  qed (use Array in \<open>auto simp: from_resp2_def\<close>)
qed (simp_all add: from_resp2_def)

lemma parsed_request: "from_resp2 v = Ret (Ok c) \<Longrightarrow> \<exists>ss. v = request ss \<and> ss \<noteq> []"
  using from_resp2_cases [of v] by (auto simp: request_def bulks_def from_resp2_def with_arg_def)

lemma decoded_request_wf: "decode b = Ret (Ok (request ss), r) \<Longrightarrow> wf_resp (request ss)"
  by (drule decode_rust_value(1)) (auto simp: request_def bulks_def list_all_iff)

lemma decoded_wf: "decode b = Ret (Ok v, r) \<Longrightarrow> from_resp2 v = Ret (Ok c) \<Longrightarrow> wf_resp v"
  using decoded_request_wf parsed_request by blast

lemma set_loop_bulks:
  "set_loop (bulks ss) i opts =
     (if i < length ss then
        (case parse_set_option (bulks ss) i (ss ! i) opts of
           Err e \<Rightarrow> Ret (Err e) | Ok (j, opts') \<Rightarrow> set_loop (bulks ss) (j + 1) opts')
      else Ret (Ok opts))"
  by (subst set_loop.simps) simp

lemma nth_append_args:
  "(pre @ a # post) ! length pre = a" "(pre @ a # b # post) ! Suc (length pre) = b"
  by (simp_all add: nth_append)

lemma set_opts_same:
  "opt_condition opts = c \<Longrightarrow> opts\<lparr>opt_condition := c\<rparr> = opts" "opt_expiry opts = x \<Longrightarrow> opts\<lparr>opt_expiry := x\<rparr> = (opts :: set_opts)"
  by auto

lemma set_loop_condition:
  assumes "opt_condition opts = None" "pred_option wf_condition c"
  shows "set_loop (bulks (pre @ condition_args c @ post)) (length pre) opts =
     set_loop (bulks (pre @ condition_args c @ post)) (length pre + length (condition_args c))
       (opts\<lparr>opt_condition := c\<rparr>)"
proof (cases c)
  case None
  with assms show ?thesis by (simp add: condition_args_def set_opts_same)
next
  case (Some d)
  with assms show ?thesis
    by (cases d) (simp_all add: condition_args_def set_loop_bulks [of _ "length pre"] nth_append_args
        parse_set_option_def guard_duplicate_condition_def get_next_token_def int_arg_def)
qed

lemma set_loop_expiry:
  assumes "opt_expiry opts = None" "pred_option wf_expiry x"
  shows "set_loop (bulks (pre @ expiry_args x @ post)) (length pre) opts =
     set_loop (bulks (pre @ expiry_args x @ post)) (length pre + length (expiry_args x))
       (opts\<lparr>opt_expiry := x\<rparr>)"
proof (cases x)
  case None
  with assms show ?thesis by (simp add: expiry_args_def set_opts_same)
next
  case (Some d)
  with assms show ?thesis
    by (cases d) (simp_all add: expiry_args_def set_loop_bulks [of _ "length pre"] nth_append_args
        parse_set_option_def get_next_token_def int_arg_def)
qed

lemma set_loop_get:
  "set_loop (bulks (pre @ (if g then [''GET''] else []))) (length pre) opts =
     Ret (Ok (opts\<lparr>opt_get := g \<or> opt_get opts\<rparr>))"
  by (cases g) (simp_all add: set_loop_bulks [of _ "length pre"] set_loop_bulks [of _ "Suc (length pre)"]
      parse_set_option_def nth_append_args)

lemma parse_set_roundtrip:
  assumes "pred_option wf_condition c" "pred_option wf_expiry x"
  shows "parse_set_command (bulks (command_args (Set k v c x g))) = Ret (Ok (Set k v c x g))"
proof -
  let ?g = "if g then [''GET''] else []" and ?o = "\<lparr>opt_condition = None, opt_expiry = None, opt_get = False\<rparr>"
  let ?p = "[''SET'', k, v]" and ?c = "condition_args c" and ?x = "expiry_args x"
  let ?ss = "?p @ ?c @ ?x @ ?g"
  have "set_loop (bulks ?ss) 3 ?o = set_loop (bulks ?ss) (3 + length ?c) (?o\<lparr>opt_condition := c\<rparr>)"
    using set_loop_condition [of ?o c ?p "?x @ ?g"] assms by (simp add: numeral_3_eq_3 split del: if_split)
  also have "\<dots> = set_loop (bulks ?ss) (3 + length ?c + length ?x) (?o\<lparr>opt_condition := c, opt_expiry := x\<rparr>)"
    using set_loop_expiry [of "?o\<lparr>opt_condition := c\<rparr>" x "?p @ ?c" ?g] assms
    by (simp add: add.commute numeral_3_eq_3 split del: if_split)
  also have "\<dots> = Ret (Ok (?o\<lparr>opt_condition := c, opt_expiry := x, opt_get := g\<rparr>))"
    using set_loop_get [of "?p @ ?c @ ?x" g] by (simp add: add.commute numeral_3_eq_3 split del: if_split)
  finally show ?thesis by (simp add: parse_set_command_def try_ok_def check_min_arity_def numeral_3_eq_3 split del: if_split)
qed

lemma chunk_pairs_concat [simp]: "chunk_pairs (concat (map (\<lambda>(k, v). [k, v]) kvs)) = kvs"
  by (induction kvs) auto

lemma length_pairs [simp]: "length (concat (map (\<lambda>(k, v). [k, v]) kvs)) = 2 * length kvs"
  by (induction kvs) auto

lemmas parse_defs = parse_command_def parse_ping_command_def parse_key_command_def
  parse_keys_command_def parse_key_with_elements_command_def parse_pop_command_def
  parse_expire_commands_def parse_select_command_def parse_dbsize_command_def
  parse_flushdb_command_def parse_lset_command_def parse_lindex_command_def
  parse_lrange_command_def parse_smove_command_def parse_sismember_command_def
  parse_smismember_command_def parse_srandmember_command_def parse_mset_command_def

lemma parse_u8_show [simp]: "n < 256 \<Longrightarrow> parse_u8 (show_nat n) = Some n"
  by (simp add: parse_u8_def show_nat_def parse_unsigned_show)

lemma command_args_Cons: "command_args c = hd (command_args c) # tl (command_args c)"
  by (cases c) auto

lemma parse_canonical:
  "wf_command c \<Longrightarrow> parse_command (hd (command_args c)) (bulks (command_args c)) = Ret (Ok c)"
proof (cases c)
  case (Set k v cond x g)
  then show "wf_command c \<Longrightarrow> ?thesis"
    using parse_set_roundtrip [of cond x k v g] by (simp add: parse_command_def)
qed (auto simp: parse_defs try_ok_def check_arity_def check_min_arity_def int_arg_def opt_count_def
      i64_range_def Suc_le_eq split: option.splits flush_mode.splits)

section \<open>Totality and ranges\<close>

definition yields_wf :: "parsed \<Rightarrow> bool" where
  "yields_wf m \<longleftrightarrow> m \<noteq> Panic \<and> (\<forall>c. m = Ret (Ok c) \<longrightarrow> wf_command c)"

lemma yields_wf_intros:
  "yields_wf x \<Longrightarrow> yields_wf y \<Longrightarrow> yields_wf (if b then x else y)"
  "wf_command c \<Longrightarrow> yields_wf (Ret (Ok c))" "yields_wf (Ret (Err e))"
  by (simp_all add: yields_wf_def)

lemma yields_wf_try: "(\<And>x. r = Ok x \<Longrightarrow> yields_wf (f x)) \<Longrightarrow> yields_wf (try_ok r f)"
  by (cases r) (simp_all add: try_ok_def yields_wf_def)

lemma parse_range:
  "parse_u64 s = Some n \<Longrightarrow> n \<le> u64_max" "parse_u64_hex s = Some n \<Longrightarrow> n \<le> u64_max"
  "parse_u8 s = Some n \<Longrightarrow> n < 256" "parse_i64 s = Some i \<Longrightarrow> i64_range i"
  by (auto simp: parse_u64_def parse_u64_hex_def parse_u8_def parse_i64_def parse_unsigned_def
      i64_range_def Let_def split: option.splits if_splits list.splits)

lemma check_arity_Ok: "check_arity args n = Ok x \<longleftrightarrow> length args = n"
  "check_min_arity args n = Ok x \<longleftrightarrow> n \<le> length args"
  by (auto simp: check_arity_def check_min_arity_def)

lemmas parser_simps = check_arity_Ok int_arg_def

lemma key_parser_wf:
  "(\<And>k. wf_command (mk k)) \<Longrightarrow> yields_wf (parse_key_command (bulks ss) mk)"
  unfolding parse_key_command_def by (rule yields_wf_try) (simp add: parser_simps yields_wf_intros)

lemma keys_parser_wf:
  "(\<And>ks. wf_command (mk ks) \<longleftrightarrow> ks \<noteq> []) \<Longrightarrow> yields_wf (parse_keys_command (bulks ss) mk)"
  unfolding parse_keys_command_def by (rule yields_wf_try) (simp add: parser_simps yields_wf_intros)

lemma elements_parser_wf:
  "(\<And>k xs. wf_command (mk k xs) \<longleftrightarrow> xs \<noteq> []) \<Longrightarrow>
     yields_wf (parse_key_with_elements_command (bulks ss) mk)"
  unfolding parse_key_with_elements_command_def
  by (rule yields_wf_try) (simp add: parser_simps yields_wf_intros)

lemmas key_parsers_wf = key_parser_wf keys_parser_wf elements_parser_wf

lemma pop_parser_wf:
  "(\<And>k n. wf_command (mk k n) \<longleftrightarrow> pred_option (\<lambda>n. n \<le> u64_max) n) \<Longrightarrow>
     yields_wf (parse_pop_command (bulks ss) mk)"
  by (auto simp: parse_pop_command_def parser_simps parse_range(1) intro!: yields_wf_try yields_wf_intros(2))

lemma expire_parser_wf:
  "(\<And>k n. wf_command (mk k n) \<longleftrightarrow> n \<le> u64_max) \<Longrightarrow> yields_wf (parse_expire_commands (bulks ss) mk)"
  by (auto simp: parse_expire_commands_def parser_simps parse_range(1) intro!: yields_wf_try yields_wf_intros(2))

lemma other_parsers_wf:
  "ss \<noteq> [] \<Longrightarrow> yields_wf (parse_ping_command (bulks ss))"
  "yields_wf (parse_select_command (bulks ss))"
  "yields_wf (parse_dbsize_command (bulks ss))"
  "yields_wf (parse_flushdb_command (bulks ss))"
  "yields_wf (parse_lset_command (bulks ss))"
  "yields_wf (parse_lindex_command (bulks ss))"
  "yields_wf (parse_lrange_command (bulks ss))"
  "yields_wf (parse_smove_command (bulks ss))"
  "yields_wf (parse_sismember_command (bulks ss))"
  "yields_wf (parse_smismember_command (bulks ss))"
  "yields_wf (parse_srandmember_command (bulks ss))"
  unfolding parse_ping_command_def parse_select_command_def parse_dbsize_command_def
    parse_flushdb_command_def parse_lset_command_def parse_lindex_command_def parse_lrange_command_def
    parse_smove_command_def parse_sismember_command_def parse_smismember_command_def
    parse_srandmember_command_def
  by (auto simp: parser_simps Suc_lessI parse_range split: option.splits
      intro!: yields_wf_try yields_wf_intros(2,3))

lemma mset_parser_wf: "yields_wf (parse_mset_command (bulks ss))"
proof -
  have "chunk_pairs xs \<noteq> []" if "2 \<le> length xs" for xs :: "string list"
    using that by (cases xs rule: chunk_pairs.cases) auto
  then show ?thesis
    unfolding parse_mset_command_def
    by (auto simp: parser_simps intro!: yields_wf_try yields_wf_intros)
qed

definition wf_opts :: "set_opts \<Rightarrow> bool" where
  "wf_opts opts \<longleftrightarrow> pred_option wf_condition (opt_condition opts) \<and> pred_option wf_expiry (opt_expiry opts)"

lemma parse_set_option_wf:
  "parse_set_option args i token opts = Ok (j, opts') \<Longrightarrow> wf_opts opts \<Longrightarrow> wf_opts opts'"
  unfolding parse_set_option_def
  by (elim if_ok_elim; clarsimp simp: bind_res_eq_Ok int_arg_def wf_opts_def parse_range split del: if_split)
    (auto dest: parse_range)

lemma set_loop_wf:
  "wf_opts opts \<Longrightarrow> set_loop (bulks ss) i opts \<noteq> Panic \<and>
     (\<forall>opts'. set_loop (bulks ss) i opts = Ret (Ok opts') \<longrightarrow> wf_opts opts')"
proof (induction "length ss - i" arbitrary: i opts rule: less_induct)
  case less
  show ?case
  proof (cases "i < length ss")
    case True
    show ?thesis
    proof (cases "parse_set_option (bulks ss) i (ss ! i) opts")
      case (Ok jo)
      obtain j o' where jo: "jo = (j, o')" by fastforce
      with Ok parse_set_option_index parse_set_option_wf less.prems have "i \<le> j" "wf_opts o'" by blast+
      with True less.hyps [of "j + 1" o'] Ok jo show ?thesis by (simp add: set_loop_bulks [of ss i])
    qed (simp add: set_loop_bulks [of ss i] True)
  qed (use less.prems in \<open>simp add: set_loop_bulks\<close>)
qed

lemma set_parser_wf: "yields_wf (parse_set_command (bulks ss))"
  unfolding parse_set_command_def
  using set_loop_wf [of "\<lparr>opt_condition = None, opt_expiry = None, opt_get = False\<rparr>" ss 3]
  by (auto simp: parser_simps wf_opts_def split: outcome.splits result.splits
      intro!: yields_wf_try yields_wf_intros)

lemma parse_command_wf: "ss \<noteq> [] \<Longrightarrow> yields_wf (parse_command name (bulks ss))"
  unfolding parse_command_def
  by (intro yields_wf_intros key_parsers_wf pop_parser_wf expire_parser_wf other_parsers_wf mset_parser_wf set_parser_wf) simp_all

lemma parsed_wf: "from_resp2 v = Ret (Ok c) \<Longrightarrow> wf_command c"
proof -
  assume ok: "from_resp2 v = Ret (Ok c)"
  with from_resp2_cases [of v] obtain ss where v: "v = request ss" by auto
  with ok obtain name rest where "ss = name # rest"
    by (cases ss) (simp_all add: from_resp2_def request_def bulks_def with_arg_def)
  with ok v parse_command_wf [of ss name] from_resp2_request [of name rest] show ?thesis
    by (simp add: yields_wf_def)
qed

section \<open>Properties\<close>

text \<open>C14: the parser inverts the canonical argument vector of every well-formed command: each of
  the forty-two commands can be written down and is read back as itself, with every option of
  \<open>SET\<close>, the hexadecimal digests included.\<close>

theorem from_resp2_roundtrip:
  "wf_command c \<Longrightarrow> from_resp2 (request (command_args c)) = Ret (Ok c)"
  using parse_canonical [of c] from_resp2_request [of "hd (command_args c)" "tl (command_args c)"]
  by (simp flip: command_args_Cons)

theorem from_resp2_roundtrip_witness:
  "from_resp2 (request (command_args (Set ''k'' ''v'' (Some (IfDeq 255)) (Some (Px 10)) True)))
     = Ret (Ok (Set ''k'' ''v'' (Some (IfDeq 255)) (Some (Px 10)) True))"
  using from_resp2_roundtrip [of "Set ''k'' ''v'' (Some (IfDeq 255)) (Some (Px 10)) True"] by simp

text \<open>C34: parsing panics on exactly one value, the empty array, whose missing first element the
  code indexes; every other value gives a command or an error.\<close>

theorem from_resp2_panics_iff: "from_resp2 v = Panic \<longleftrightarrow> v = Array (Some [])"
proof (cases "\<exists>ss. v = request ss")
  case True
  then obtain ss where v: "v = request ss" ..
  show ?thesis
  proof (cases ss)
    case (Cons name rest)
    with v parse_command_wf [of ss name] from_resp2_request [of name rest] show ?thesis
      by (simp add: yields_wf_def request_def bulks_def)
  qed (simp add: v from_resp2_def request_def bulks_def with_arg_def)
next
  case False
  with from_resp2_cases [of v] show ?thesis by (auto simp: request_def bulks_def)
qed

text \<open>A command that the parser accepts is well formed: its numbers fit their machine types
  and its key, element and pair lists are not empty.\<close>

theorem from_resp2_sound: "from_resp2 v = Ret (Ok c) \<Longrightarrow> wf_command c"
  by (rule parsed_wf)

theorem from_resp2_sound_witness:
  "wf_command (Expire ''k'' 7)"
  using from_resp2_sound [of "request [''EXPIRE'', ''k'', ''7'']" "Expire ''k'' 7"]
    from_resp2_request [of "''EXPIRE''" "[''k'', ''7'']"]
  by (simp add: parse_command_def parse_expire_commands_def try_ok_def check_arity_def int_arg_def
      parse_u64_def parse_unsigned_def digit_val_def strip_plus_def)

end
