(* ===== verification/Pattern.thy ===== *)
theory Pattern
  imports Prelude "HOL-Library.Sublist"
begin

text \<open>
  The glob matcher of \<open>pattern.rs\<close>, with the loops of \<open>string_match_impl\<close> as recursive
  functions over the two byte slices, the \<open>skip_longer_matches\<close> flag passed and returned, and
  the recursion depth capped by \<open>MAX_DEPTH\<close>.  Against it stands a declarative reading of a
  pattern: a list of tokens (\<open>tokenize\<close>), matched by \<open>glob_match\<close>, which simply tries
  every split at a star.  The main lemma shows that the optimised search computes the same answer.
\<close>

section \<open>The matcher\<close>

definition MAX_DEPTH :: nat where "MAX_DEPTH = 1000"

abbreviation STAR :: char where "STAR \<equiv> CHR ''*''"
abbreviation BACKSLASH :: char where "BACKSLASH \<equiv> CHR 0x5C"

text \<open>\<open>while pattern.len() > 1 && pattern[1] == b'*'\<close>.\<close>

fun collapse_stars :: "string \<Rightarrow> string" where
  "collapse_stars (a # b # p) = (if b = STAR then collapse_stars (b # p) else a # b # p)"
| "collapse_stars p = p"

text \<open>The walk over a character class, up to its closing bracket or the end of the pattern.\<close>

fun class_walk :: "char \<Rightarrow> bool \<Rightarrow> string \<Rightarrow> bool \<times> string" where
  "class_walk c matched p =
     (if 1 < length p \<and> hd p = BACKSLASH then class_walk c (matched \<or> p ! 1 = c) (drop 2 p)
      else if p \<noteq> [] \<and> hd p = CHR '']'' then (matched, p)
      else if p = [] then (matched, p)
      else if 2 < length p \<and> p ! 1 = CHR ''-'' then
        (let (start, end) = (if p ! 2 < p ! 0 then (p ! 2, p ! 0) else (p ! 0, p ! 2))
         in class_walk c (matched \<or> (start \<le> c \<and> c \<le> end)) (drop 3 p))
      else class_walk c (matched \<or> hd p = c) (tl p))"

declare class_walk.simps [simp del]

text \<open>What one iteration of the outer loop does with a pattern that does not start with a star:
  \<open>None\<close> is the early \<open>return false\<close>, \<open>Some p\<close> the pattern after the step.\<close>

definition match_one :: "char \<Rightarrow> string \<Rightarrow> string option" where
  "match_one c p =
     (if hd p = CHR ''?'' then Some (tl p)
      else if hd p = CHR ''['' then
        (let p1 = tl p;
             negated = (p1 \<noteq> [] \<and> hd p1 = CHR ''^'');
             p2 = (if negated then tl p1 else p1);
             (matched, p3) = class_walk c False p2
         in if matched = negated then None else Some (tl p3))
      else if hd p = BACKSLASH \<and> 1 < length p then
        (if p ! 1 \<noteq> c then None else Some (drop 2 p))
      else if hd p \<noteq> c then None else Some (tl p))"

text \<open>\<open>string_match_impl\<close> is the outer loop; \<open>star_loop\<close> the loop that tries the rest of the
  pattern at every remaining offset.  Both return the answer and the flag.\<close>

lemma class_walk_length: "length (snd (class_walk c m p)) \<le> length p"
proof (induction c m p rule: class_walk.induct)
  case (1 c m p)
  then show ?case
    by (subst class_walk.simps) (fastforce simp: Let_def split: if_splits)
qed

lemma match_one_shorter: "p \<noteq> [] \<Longrightarrow> match_one c p = Some p' \<Longrightarrow> length p' < length p"
  using class_walk_length [of c False "tl p"] class_walk_length [of c False "tl (tl p)"]
  by (cases p) (auto simp: match_one_def Let_def split: if_splits prod.splits)

lemma collapse_stars_length: "length (collapse_stars p) \<le> length p"
  by (induction p rule: collapse_stars.induct) auto

function (sequential) string_match_impl :: "string \<Rightarrow> string \<Rightarrow> bool \<Rightarrow> nat \<Rightarrow> bool \<times> bool"
  and match_loop :: "string \<Rightarrow> string \<Rightarrow> bool \<Rightarrow> nat \<Rightarrow> bool \<times> bool"
  and star_loop :: "string \<Rightarrow> string \<Rightarrow> bool \<Rightarrow> nat \<Rightarrow> bool \<times> bool"
where
  "string_match_impl s p skip depth =
     (if MAX_DEPTH < depth then (False, skip) else match_loop s p skip depth)"
| "match_loop s p skip depth =
     (if p = [] \<or> s = [] then (p = [] \<and> s = [], skip)
      else if hd p = STAR then
        (let p1 = collapse_stars p in
         if length p1 = 1 then (True, skip) else star_loop s (tl p1) skip depth)
      else case match_one (hd s) p of
             None \<Rightarrow> (False, skip)
           | Some p1 \<Rightarrow>
               if tl s = [] then (dropWhile (\<lambda>x. x = STAR) p1 = [], skip)
               else match_loop (tl s) p1 skip depth)"
| "star_loop s rest skip depth =
     (if s = [] then (False, True)
      else case string_match_impl s rest skip (depth + 1) of
             (found, skip1) \<Rightarrow>
               if found then (True, skip1)
               else if skip1 then (False, skip1)
               else star_loop (tl s) rest skip1 depth)"
  by pat_completeness auto
termination
proof (relation "inv_image (less_than <*lex*> less_than <*lex*> less_than)
    (\<lambda>x. case x of Inl (s, p, k, d) \<Rightarrow> (length p, length s, Suc 0)
         | Inr (Inl (s, p, k, d)) \<Rightarrow> (length p, length s, 0)
         | Inr (Inr (s, p, k, d)) \<Rightarrow> (length p, length s, 2))", goal_cases)
  case (3 s p skip depth p1)
  then have "length (tl p1) < length p"
    using collapse_stars_length [of p] by (cases p) auto
  then show ?case by simp
next
  case (4 s p skip depth p1)
  then show ?case using match_one_shorter [of p "hd s" p1] by auto
qed auto

declare string_match_impl.simps [simp del] match_loop.simps [simp del] star_loop.simps [simp del]

definition string_match :: "string \<Rightarrow> string \<Rightarrow> bool" where
  "string_match s p = fst (string_match_impl s p False 0)"

section \<open>What a pattern means\<close>

datatype gtok = GStar | GAny | GClass bool "(char \<times> char) list" | GLit char

fun class_members :: "string \<Rightarrow> (char \<times> char) list \<times> string" where
  "class_members p =
     (if 1 < length p \<and> hd p = BACKSLASH then
        (case class_members (drop 2 p) of (ms, r) \<Rightarrow> ((p ! 1, p ! 1) # ms, r))
      else if p \<noteq> [] \<and> hd p = CHR '']'' then ([], p)
      else if p = [] then ([], p)
      else if 2 < length p \<and> p ! 1 = CHR ''-'' then
        (case class_members (drop 3 p) of (ms, r) \<Rightarrow> ((min (p ! 0) (p ! 2), max (p ! 0) (p ! 2)) # ms, r))
      else (case class_members (tl p) of (ms, r) \<Rightarrow> ((hd p, hd p) # ms, r)))"

declare class_members.simps [simp del]

definition next_token :: "string \<Rightarrow> gtok \<times> string" where
  "next_token p =
     (if hd p = STAR then (GStar, tl p)
      else if hd p = CHR ''?'' then (GAny, tl p)
      else if hd p = CHR ''['' then
        (let p1 = tl p;
             negated = (p1 \<noteq> [] \<and> hd p1 = CHR ''^'');
             (ms, r) = class_members (if negated then tl p1 else p1)
         in (GClass negated ms, tl r))
      else if hd p = BACKSLASH \<and> 1 < length p then (GLit (p ! 1), drop 2 p)
      else (GLit (hd p), tl p))"

lemma class_members_length: "length (snd (class_members p)) \<le> length p"
proof (induction p rule: class_members.induct)
  case (1 p)
  then show ?case
    by (subst class_members.simps) (fastforce split: if_splits prod.splits)
qed

lemma next_token_shorter: "p \<noteq> [] \<Longrightarrow> length (snd (next_token p)) < length p"
  using class_members_length [of "tl p"] class_members_length [of "tl (tl p)"]
  by (cases p) (auto simp: next_token_def Let_def split: prod.splits if_splits)

function tokenize :: "string \<Rightarrow> gtok list" where
  "tokenize p = (if p = [] then [] else fst (next_token p) # tokenize (snd (next_token p)))"
  by pat_completeness auto
termination
  by (relation "measure length") (auto simp: next_token_shorter)

declare tokenize.simps [simp del]

definition class_has :: "char \<Rightarrow> (char \<times> char) list \<Rightarrow> bool" where
  "class_has c ms = list_ex (\<lambda>(a, b). a \<le> c \<and> c \<le> b) ms"

fun tok_accepts :: "gtok \<Rightarrow> char \<Rightarrow> bool" where
  "tok_accepts GStar c = False"
| "tok_accepts GAny c = True"
| "tok_accepts (GClass negated ms) c = (class_has c ms \<noteq> negated)"
| "tok_accepts (GLit a) c = (a = c)"

function (sequential) glob_match :: "gtok list \<Rightarrow> string \<Rightarrow> bool" where
  "glob_match [] s = (s = [])"
| "glob_match (GStar # ts) s = (glob_match ts s \<or> (if s = [] then False else glob_match (GStar # ts) (tl s)))"
| "glob_match (t # ts) [] = False"
| "glob_match (t # ts) (c # s) = (tok_accepts t c \<and> glob_match ts s)"
  by pat_completeness auto
termination
  by (relation "measures [\<lambda>(ts, s). length ts, \<lambda>(ts, s). length s]") auto

declare glob_match.simps(2) [simp del]

lemma glob_match_star_simps [simp]:
  "glob_match (GStar # ts) [] = glob_match ts []"
  "glob_match (GStar # ts) (c # s) = (glob_match ts (c # s) \<or> glob_match (GStar # ts) s)"
  by (simp_all add: glob_match.simps(2) [of ts "[]"] glob_match.simps(2) [of ts "c # s"])

text \<open>The runs of stars of a pattern: each one costs the matcher one level of recursion.\<close>

fun star_runs :: "gtok list \<Rightarrow> nat" where
  "star_runs (GStar # GStar # ts) = star_runs (GStar # ts)"
| "star_runs (GStar # ts) = Suc (star_runs ts)"
| "star_runs (t # ts) = star_runs ts"
| "star_runs [] = 0"

section \<open>The optimised search computes it\<close>

lemma class_walk_members:
  "class_walk c m p =
     (m \<or> class_has c (fst (class_members p)), snd (class_members p))"
proof (induction c m p rule: class_walk.induct)
  case (1 c m p)
  show ?case
    by (subst class_walk.simps, subst (1 2) class_members.simps)
      (use 1 in \<open>auto simp: class_has_def Let_def min_def max_def split: prod.splits\<close>)
qed

lemma match_one_token:
  "hd p \<noteq> STAR \<Longrightarrow> match_one c p =
     (if tok_accepts (fst (next_token p)) c then Some (snd (next_token p)) else None)"
  by (cases "hd p = CHR ''[''")
    (auto simp: match_one_def next_token_def class_walk_members Let_def case_prod_beta)

lemma next_token_not_star: "hd p \<noteq> STAR \<Longrightarrow> fst (next_token p) \<noteq> GStar"
  by (simp add: next_token_def Let_def split: prod.splits)

lemma next_token_star: "hd p = STAR \<Longrightarrow> next_token p = (GStar, tl p)"
  by (simp add: next_token_def)

lemma tokenize_Nil [simp]: "tokenize [] = []"
  by (simp add: tokenize.simps)

lemma tokenize_star [simp]: "tokenize (STAR # p) = GStar # tokenize p"
  by (simp add: tokenize.simps [of "STAR # p"] next_token_star)

lemma glob_match_nonstar:
  "t \<noteq> GStar \<Longrightarrow> glob_match (t # ts) s = (s \<noteq> [] \<and> tok_accepts t (hd s) \<and> glob_match ts (tl s))"
  by (cases t; cases s) auto

lemma glob_match_star: "glob_match (GStar # ts) s \<longleftrightarrow> (\<exists>t. suffix t s \<and> glob_match ts t)"
proof (induction s)
  case (Cons c s)
  then show ?case by (auto simp: suffix_Cons)
qed simp

lemma glob_match_star_star: "glob_match (GStar # GStar # ts) s = glob_match (GStar # ts) s"
  unfolding glob_match_star by (meson suffix_order.trans suffix_order.refl)

lemma glob_match_end: "glob_match (tokenize p) [] = (dropWhile (\<lambda>x. x = STAR) p = [])"
proof (induction p)
  case (Cons a p)
  show ?case
  proof (cases "a = STAR")
    case False
    then show ?thesis
      using next_token_not_star [of "a # p"]
      by (simp add: tokenize.simps [of "a # p"] glob_match_nonstar)
  qed (use Cons in simp)
qed simp

lemma all_stars_runs: "glob_match (tokenize p) [] \<Longrightarrow> star_runs (tokenize p) \<le> 1"
proof (induction p)
  case (Cons a p)
  then show ?case
  proof (cases "a = STAR")
    case True
    with Cons show ?thesis by (cases p) (auto simp: glob_match_end split: if_splits)
  qed (simp add: glob_match_end)
qed simp

lemma collapse_stars_spec:
  "hd p = STAR \<Longrightarrow> p \<noteq> [] \<Longrightarrow> \<exists>q. collapse_stars p = STAR # q \<and> (q = [] \<or> hd q \<noteq> STAR)
     \<and> star_runs (tokenize p) = Suc (star_runs (tokenize q))
     \<and> (\<forall>s. glob_match (tokenize p) s = glob_match (GStar # tokenize q) s)"
proof (induction p rule: collapse_stars.induct)
  case (1 a b p)
  show ?case
  proof (cases "b = STAR")
    case True
    with 1 obtain q where "collapse_stars (b # p) = STAR # q" "q = [] \<or> hd q \<noteq> STAR"
      "star_runs (tokenize (b # p)) = Suc (star_runs (tokenize q))"
      "\<And>s. glob_match (tokenize (b # p)) s = glob_match (GStar # tokenize q) s"
      by auto
    with True 1 show ?thesis by (auto simp: glob_match_star_star)
  next
    case False
    then obtain t ts where "tokenize (b # p) = t # ts" "t \<noteq> GStar"
      using next_token_not_star [of "b # p"] by (simp add: tokenize.simps [of "b # p"])
    with False 1 show ?thesis by (cases t) auto
  qed
qed auto

text \<open>The flag is only raised when the remaining pattern matches at no later offset (a star in
  front of it would not help), which is why an enclosing star may give up.\<close>

definition search_ok :: "string \<Rightarrow> string \<Rightarrow> bool \<times> bool \<Rightarrow> bool" where
  "search_ok s p res \<longleftrightarrow> fst res = glob_match (tokenize p) s
     \<and> (snd res \<longrightarrow> \<not> glob_match (GStar # tokenize p) s)"

definition star_ok :: "string \<Rightarrow> string \<Rightarrow> bool \<times> bool \<Rightarrow> bool" where
  "star_ok s p res \<longleftrightarrow> fst res = glob_match (GStar # tokenize p) s
     \<and> (snd res \<longrightarrow> \<not> glob_match (GStar # tokenize p) s)"

lemma glob_star_step:
  "t \<noteq> GStar \<Longrightarrow> s \<noteq> [] \<Longrightarrow> glob_match (GStar # t # ts) s \<Longrightarrow> glob_match (GStar # ts) (tl s)"
proof (induction s)
  case (Cons c s)
  then show ?case by (cases s) (auto simp: glob_match_nonstar)
qed simp

lemma glob_star_cong:
  "(\<And>s. glob_match ts s = glob_match us s) \<Longrightarrow> glob_match (GStar # ts) s = glob_match (GStar # us) s"
  by (simp only: glob_match_star)

lemma match_loop_token:
  assumes "p \<noteq> []" "hd p \<noteq> STAR" "s \<noteq> []"
  shows "match_loop s p skip d =
     (if tok_accepts (fst (next_token p)) (hd s) then
        if tl s = [] then (glob_match (tokenize (snd (next_token p))) [], skip)
        else match_loop (tl s) (snd (next_token p)) skip d
      else (False, skip))"
  using assms by (simp add: match_loop.simps [of s p] match_one_token glob_match_end)

lemma search_ok_token:
  assumes "p \<noteq> []" "hd p \<noteq> STAR" "s \<noteq> []"
    and IH: "tl s \<noteq> [] \<Longrightarrow> tok_accepts (fst (next_token p)) (hd s) \<Longrightarrow>
      search_ok (tl s) (snd (next_token p)) (match_loop (tl s) (snd (next_token p)) False d)"
  shows "search_ok s p (match_loop s p False d)"
proof -
  let ?t = "fst (next_token p)" and ?r = "snd (next_token p)"
  have t: "?t \<noteq> GStar" using assms(2) by (rule next_token_not_star)
  have tok: "tokenize p = ?t # tokenize ?r" using assms(1) by (simp add: tokenize.simps [of p])
  have "glob_match (tokenize p) s = (tok_accepts ?t (hd s) \<and> glob_match (tokenize ?r) (tl s))"
    using t tok assms(3) by (simp add: glob_match_nonstar)
  moreover have "glob_match (GStar # tokenize p) s \<Longrightarrow> glob_match (GStar # tokenize ?r) (tl s)"
    unfolding tok using t assms(3) by (rule glob_star_step)
  ultimately show ?thesis using IH assms
    by (auto simp: search_ok_def match_loop_token)
qed

lemma search_ok_star:
  assumes "p \<noteq> []" "hd p = STAR" "s \<noteq> []"
    and q: "collapse_stars p = STAR # q" "q = [] \<or> hd q \<noteq> STAR"
      "\<And>s. glob_match (tokenize p) s = glob_match (GStar # tokenize q) s"
    and IH: "q \<noteq> [] \<Longrightarrow> star_ok s q (star_loop s q False d)"
  shows "search_ok s p (match_loop s p False d)"
proof -
  have "glob_match (GStar # tokenize p) s = glob_match (GStar # tokenize q) s"
    using glob_star_cong [of "tokenize p" "GStar # tokenize q" s] q(3) glob_match_star_star by metis
  moreover have "q = [] \<Longrightarrow> glob_match (GStar # tokenize q) s"
    by (auto simp: glob_match_star)
  ultimately show ?thesis using IH assms(1-3) q
    by (auto simp: search_ok_def star_ok_def match_loop.simps [of s p])
qed

lemma star_ok_step:
  assumes "\<not> glob_match (tokenize p) []"
    and here: "s \<noteq> [] \<Longrightarrow> search_ok s p (string_match_impl s p False (d + 1))"
    and IH: "s \<noteq> [] \<Longrightarrow> string_match_impl s p False (d + 1) = (False, False) \<Longrightarrow>
      star_ok (tl s) p (star_loop (tl s) p False d)"
  shows "star_ok s p (star_loop s p False d)"
proof (cases s)
  case Nil
  with assms(1) show ?thesis by (simp add: star_ok_def star_loop.simps [of "[]"])
next
  case (Cons c s')
  then have "glob_match (GStar # tokenize p) s =
      (glob_match (tokenize p) s \<or> glob_match (GStar # tokenize p) s')" by simp
  with Cons here IH show ?thesis
    by (auto simp: star_ok_def search_ok_def star_loop.simps [of "c # s'"]
        split: prod.splits)
qed

lemma matcher_correct_aux:
  "s \<noteq> [] \<Longrightarrow> skip = False \<Longrightarrow> d + star_runs (tokenize p) \<le> MAX_DEPTH \<Longrightarrow>
     search_ok s p (string_match_impl s p skip d)"
  "s \<noteq> [] \<Longrightarrow> skip = False \<Longrightarrow> d + star_runs (tokenize p) \<le> MAX_DEPTH \<Longrightarrow>
     search_ok s p (match_loop s p skip d)"
  "skip = False \<Longrightarrow> d + Suc (star_runs (tokenize p)) \<le> MAX_DEPTH \<Longrightarrow>
     \<not> glob_match (tokenize p) [] \<Longrightarrow> star_ok s p (star_loop s p skip d)"
proof (induction s p skip d and s p skip d and s p skip d
    rule: string_match_impl_match_loop_star_loop.induct)
  case (1 s p skip d)
  then show ?case by (subst string_match_impl.simps) simp
next
  case (2 s p skip d)
  consider "p = []" | "p \<noteq> []" "hd p = STAR" | "p \<noteq> []" "hd p \<noteq> STAR" by blast
  then show ?case
  proof cases
    case 1
    with "2.prems" show ?thesis
      by (simp add: match_loop.simps [of s "[]"] search_ok_def)
  next
    case star: 2
    then obtain q where q: "collapse_stars p = STAR # q" "q = [] \<or> hd q \<noteq> STAR"
      "star_runs (tokenize p) = Suc (star_runs (tokenize q))"
      "\<And>s. glob_match (tokenize p) s = glob_match (GStar # tokenize q) s"
      using collapse_stars_spec by blast
    have "q \<noteq> [] \<Longrightarrow> \<not> glob_match (tokenize q) []"
      using q(2) by (cases q) (auto simp: glob_match_end)
    then have "q \<noteq> [] \<Longrightarrow> star_ok s q (star_loop s q False d)"
      using "2.IH"(1) [OF _ _ refl] "2.prems" star q by simp
    with star q "2.prems" show ?thesis by (simp add: search_ok_star [where q = q])
  next
    case nostar: 3
    have "star_runs (tokenize (snd (next_token p))) = star_runs (tokenize p)"
      using nostar next_token_not_star [of p]
      by (cases "fst (next_token p)") (auto simp: tokenize.simps [of p])
    then have "tl s \<noteq> [] \<Longrightarrow> tok_accepts (fst (next_token p)) (hd s) \<Longrightarrow>
        search_ok (tl s) (snd (next_token p)) (match_loop (tl s) (snd (next_token p)) False d)"
      using "2.IH"(2) "2.prems" nostar by (simp add: match_one_token)
    with nostar "2.prems" show ?thesis by (simp add: search_ok_token)
  qed
next
  case (3 s rest skip d)
  have "star_ok s rest (star_loop s rest False d)"
    by (rule star_ok_step) (use 3 in auto)
  with "3.prems" show ?case by simp
qed

text \<open>Past the depth limit nothing matches: every run of stars with something behind it costs one
  level.\<close>

lemma deep_pattern_aux:
  "MAX_DEPTH + 2 \<le> d + star_runs (tokenize p) \<Longrightarrow> \<not> fst (string_match_impl s p skip d)"
  "MAX_DEPTH + 2 \<le> d + star_runs (tokenize p) \<Longrightarrow> d \<le> MAX_DEPTH \<Longrightarrow> \<not> fst (match_loop s p skip d)"
  "MAX_DEPTH + 1 \<le> d + star_runs (tokenize p) \<Longrightarrow> d \<le> MAX_DEPTH \<Longrightarrow> \<not> fst (star_loop s p skip d)"
proof (induction s p skip d and s p skip d and s p skip d
    rule: string_match_impl_match_loop_star_loop.induct)
  case (1 s p skip d)
  then show ?case by (simp add: string_match_impl.simps [of s p])
next
  case (2 s p skip d)
  then have p: "p \<noteq> []" and runs: "2 \<le> star_runs (tokenize p)" by auto
  consider "s = []" | "s \<noteq> []" "hd p = STAR" | "s \<noteq> []" "hd p \<noteq> STAR" by blast
  then show ?case
  proof cases
    case 1
    with p show ?thesis by (simp add: match_loop.simps [of "[]" p])
  next
    case star: 2
    then obtain q where q: "collapse_stars p = STAR # q"
      "star_runs (tokenize p) = Suc (star_runs (tokenize q))"
      using collapse_stars_spec [OF star(2) p] by blast
    with runs have "q \<noteq> []" by auto
    with 2 star p q show ?thesis by (simp add: match_loop.simps [of s p])
  next
    case nostar: 3
    let ?r = "snd (next_token p)"
    have r: "star_runs (tokenize ?r) = star_runs (tokenize p)"
      using p nostar next_token_not_star [of p]
      by (cases "fst (next_token p)") (auto simp: tokenize.simps [of p])
    then have "\<not> glob_match (tokenize ?r) []" using runs all_stars_runs [of ?r] by auto
    with 2 nostar p r show ?thesis by (simp add: match_loop_token match_one_token)
  qed
next
  case (3 s rest skip d)
  then show ?case
    by (cases "s = []") (auto simp: star_loop.simps [of s] star_loop.simps [of "[]"] split: prod.splits)
qed

section \<open>Properties\<close>

text \<open>C11: on a non-empty key the matcher, with its early unwinding, decides exactly whether the
  key matches the tokens of the pattern (stars, single bytes, classes, escapes), for every
  pattern with at most \<open>MAX_DEPTH\<close> runs of stars.\<close>

theorem string_match_correct:
  "s \<noteq> [] \<Longrightarrow> star_runs (tokenize p) \<le> MAX_DEPTH \<Longrightarrow> string_match s p = glob_match (tokenize p) s"
  using matcher_correct_aux(1) [of s False 0 p] by (simp add: string_match_def search_ok_def)

theorem string_match_correct_witness:
  "star_runs (tokenize ''h[a-c]*o?'') \<le> MAX_DEPTH \<and>
     string_match ''hbllox'' ''h[a-c]*o?'' = glob_match (tokenize ''h[a-c]*o?'') ''hbllox''"
proof -
  have r: "star_runs (tokenize ''h[a-c]*o?'') \<le> MAX_DEPTH"
    by (simp add: MAX_DEPTH_def tokenize.simps next_token_def class_members.simps Let_def)
  with string_match_correct [OF _ r, of "''hbllox''"] show ?thesis by simp
qed

text \<open>The empty key is matched by the empty pattern only, not even by \<open>*\<close>: the loop
  never starts.\<close>

theorem string_match_empty_key: "string_match [] p \<longleftrightarrow> p = []"
  by (simp add: string_match_def string_match_impl.simps match_loop.simps [of "[]"])

text \<open>The recursion limit is sound: a pattern with more than \<open>MAX_DEPTH + 1\<close> runs of stars
  is reported as a non-match of every key.\<close>

theorem string_match_depth_cap:
  "MAX_DEPTH + 1 < star_runs (tokenize p) \<Longrightarrow> \<not> string_match s p"
  using deep_pattern_aux(1) [of 0 p s False] by (simp add: string_match_def)

lemma star_runs_repeat: "star_runs (tokenize (concat (replicate n ''*a''))) = n"
proof (induction n)
  case (Suc n)
  have "tokenize (CHR ''a'' # r) = GLit (CHR ''a'') # tokenize r" for r
    by (simp add: tokenize.simps [of "CHR ''a'' # r"] next_token_def)
  with Suc show ?case by simp
qed simp

theorem string_match_depth_cap_witness:
  "\<not> string_match (replicate 1100 (CHR ''a'')) (concat (replicate 1100 ''*a''))"
  by (rule string_match_depth_cap) (simp only: star_runs_repeat, simp add: MAX_DEPTH_def)

end
