(* ===== verification/Store.thy ===== *)
theory Store
  imports Errors Pattern
begin

text \<open>
  The shared key-value store of \<open>store/mod.rs\<close>.  A \<open>store_inner\<close> is the pair of hash
  maps; a \<open>store\<close> is the \<open>RwLock\<close> around it, with its poison flag: a panic while the write
  lock is held poisons it, and every later \<open>read().unwrap()\<close> or \<open>write().unwrap()\<close>
  panics.  Every operation is a function from the store to its outcome and the store it leaves,
  with the clock readings it makes as arguments.

  The second half gives the meaning of a store: \<open>keyspace t\<close> maps every key that is live at
  time \<open>t\<close> to its value and deadline, and each operation is related to an update of it.
\<close>

named_theorems op_simps \<open>the lock and the sequencing of store operations\<close>
named_theorems store_defs \<open>definitions of the store operations\<close>

section \<open>The store and its lock\<close>

datatype store_value = Str string | ListVal "string list" | SetVal "string fset"

record store_inner =
  data :: "(string, store_value) fmap"
  expiry_index :: "(string, int) fmap"

record store =
  inner :: store_inner
  poisoned :: bool

type_synonym 'a store_op = "store \<Rightarrow> 'a outcome \<times> store"

definition with_read :: "(store_inner \<Rightarrow> 'a outcome) \<Rightarrow> 'a store_op" where
  "with_read f s = (if poisoned s then (Panic, s) else (f (inner s), s))"

definition with_write :: "(store_inner \<Rightarrow> 'a outcome \<times> store_inner) \<Rightarrow> 'a store_op" where
  "with_write f s =
     (if poisoned s then (Panic, s)
      else case f (inner s) of
             (Ret x, g) \<Rightarrow> (Ret x, s\<lparr>inner := g\<rparr>)
           | (Panic, g) \<Rightarrow> (Panic, s\<lparr>inner := g, poisoned := True\<rparr>))"

text \<open>Sequencing: a panic unwinds through the caller.\<close>

definition ret_op :: "'a \<Rightarrow> 'a store_op" where
  "ret_op x s = (Ret x, s)"

definition panic_op :: "'a store_op" where
  "panic_op s = (Panic, s)"

definition bind_op :: "'a store_op \<Rightarrow> ('a \<Rightarrow> 'b store_op) \<Rightarrow> 'b store_op" where
  "bind_op m f s = (case m s of (Ret x, s') \<Rightarrow> f x s' | (Panic, s') \<Rightarrow> (Panic, s'))"

lemmas [op_simps] = with_read_def with_write_def ret_op_def panic_op_def bind_op_def

section \<open>Operations\<close>

definition inner_get :: "int \<Rightarrow> string \<Rightarrow> store_inner \<Rightarrow> store_value option" where
  "inner_get now key g =
     (if (case fmlookup (expiry_index g) key of Some v \<Rightarrow> now \<ge> v | None \<Rightarrow> False) then None
      else fmlookup (data g) key)"

definition inner_get_mut :: "int \<Rightarrow> string \<Rightarrow> store_inner \<Rightarrow> store_value option" where
  "inner_get_mut now key g =
     (if (case fmlookup (expiry_index g) key of Some v \<Rightarrow> now \<ge> v | None \<Rightarrow> False) then None
      else fmlookup (data g) key)"

text \<open>The two updates every whole-key operation makes: insert a value and forget its old deadline,
  or forget both.\<close>

definition inner_put :: "string \<Rightarrow> store_value \<Rightarrow> store_inner \<Rightarrow> store_inner" where
  "inner_put key value g =
     g\<lparr>expiry_index := fmdrop key (expiry_index g), data := fmupd key value (data g)\<rparr>"

definition inner_remove :: "string \<Rightarrow> store_inner \<Rightarrow> store_inner" where
  "inner_remove key g =
     g\<lparr>expiry_index := fmdrop key (expiry_index g), data := fmdrop key (data g)\<rparr>"

definition store_new :: store where
  "store_new = \<lparr>inner = \<lparr>data = fmempty, expiry_index = fmempty\<rparr>, poisoned = False\<rparr>"

definition store_get :: "int \<Rightarrow> string \<Rightarrow> store_value option store_op" where
  "store_get now key = with_read (\<lambda>g. Ret
     (if (case fmlookup (expiry_index g) key of None \<Rightarrow> True | Some v \<Rightarrow> now < v)
      then fmlookup (data g) key else None))"

definition store_set :: "string \<Rightarrow> store_value \<Rightarrow> unit store_op" where
  "store_set key value = with_write (\<lambda>g. (Ret (), inner_put key value g))"

definition store_delete :: "string \<Rightarrow> bool store_op" where
  "store_delete key = with_write (\<lambda>g.
     (Ret (fmlookup (data g) key \<noteq> None), inner_remove key g))"

definition store_get_del :: "int \<Rightarrow> string \<Rightarrow> store_value option store_op" where
  "store_get_del now key = with_write (\<lambda>g.
     if (case fmlookup (expiry_index g) key of None \<Rightarrow> True | Some v \<Rightarrow> now < v)
     then (Ret (fmlookup (data g) key), inner_remove key g)
     else (Ret None, g))"

definition store_exists :: "int \<Rightarrow> string \<Rightarrow> bool store_op" where
  "store_exists now key = with_read (\<lambda>g. Ret
     (fmlookup (data g) key \<noteq> None
      \<and> (case fmlookup (expiry_index g) key of None \<Rightarrow> True | Some v \<Rightarrow> now < v)))"

definition store_get_ttl :: "string \<Rightarrow> int option store_op" where
  "store_get_ttl key = with_read (\<lambda>g. Ret (fmlookup (expiry_index g) key))"

definition store_set_ttl :: "string \<Rightarrow> int \<Rightarrow> bool store_op" where
  "store_set_ttl key ttl = with_write (\<lambda>g.
     if fmlookup (data g) key \<noteq> None
     then (Ret True, g\<lparr>expiry_index := fmupd key ttl (expiry_index g)\<rparr>)
     else (Ret False, g))"

definition store_persist :: "string \<Rightarrow> bool store_op" where
  "store_persist key = with_write (\<lambda>g.
     (Ret (fmlookup (expiry_index g) key \<noteq> None),
      g\<lparr>expiry_index := fmdrop key (expiry_index g)\<rparr>))"

text \<open>What is sampled is pairs of references, of 16 bytes on the 64-bit targets.\<close>

definition store_sample_eviction_index :: "env \<Rightarrow> nat \<Rightarrow> (string \<times> int) list store_op" where
  "store_sample_eviction_index e n = with_read (\<lambda>g.
     (pick e 16 n (List.map_filter (\<lambda>k. map_option (Pair k) (fmlookup (expiry_index g) k))
        (hash_order e (fmdom (expiry_index g))))))"

definition store_delete_bulk :: "string list \<Rightarrow> unit store_op" where
  "store_delete_bulk keys = with_write (\<lambda>g. (Ret (), fold inner_remove keys g))"

definition store_keys :: "env \<Rightarrow> int \<Rightarrow> string \<Rightarrow> string list store_op" where
  "store_keys e now pattern = with_read (\<lambda>g. Ret
     (let all_keys = (pattern = ''*'') in
      filter (\<lambda>key. (all_keys \<or> string_match key pattern)
          \<and> (case fmlookup (expiry_index g) key of None \<Rightarrow> True | Some v \<Rightarrow> now < v))
        (hash_order e (fmdom (data g)))))"

definition store_size :: "nat store_op" where
  "store_size = with_read (\<lambda>g. Ret (fcard (fmdom (data g))))"

definition store_clear :: "unit store_op" where
  "store_clear = with_write (\<lambda>g. (Ret (), g\<lparr>expiry_index := fmempty, data := fmempty\<rparr>))"

text \<open>\<open>clear_async\<close> swaps fresh maps in under the lock and drops the old ones in a
  background task that holds nothing of the store.\<close>

definition store_clear_async :: "unit store_op" where
  "store_clear_async = with_write (\<lambda>g.
     let old_data = data g; old_expiry_index = expiry_index g
     in (Ret (), g\<lparr>data := fmempty, expiry_index := fmempty\<rparr>))"

lemmas [store_defs] = store_get_def store_set_def store_delete_def store_get_del_def
  store_exists_def store_get_ttl_def store_set_ttl_def store_persist_def
  store_sample_eviction_index_def store_delete_bulk_def store_keys_def store_size_def
  store_clear_def store_clear_async_def

section \<open>What a store means\<close>

definition expired :: "int \<Rightarrow> string \<Rightarrow> store_inner \<Rightarrow> bool" where
  "expired t key g = (case fmlookup (expiry_index g) key of Some v \<Rightarrow> v \<le> t | None \<Rightarrow> False)"

definition keyspace :: "int \<Rightarrow> store_inner \<Rightarrow> (string \<rightharpoonup> store_value \<times> int option)" where
  "keyspace t g key =
     (if expired t key g then None
      else map_option (\<lambda>v. (v, fmlookup (expiry_index g) key)) (fmlookup (data g) key))"

lemma inner_get_keyspace: "inner_get t key g = map_option fst (keyspace t g key)"
  by (auto simp: inner_get_def keyspace_def expired_def option.map_comp comp_def option.map_ident
      split: option.splits)

lemma inner_get_mut_eq [simp]: "inner_get_mut t key g = inner_get t key g"
  by (simp add: inner_get_mut_def inner_get_def)

lemma not_expired_iff:
  "(case fmlookup (expiry_index g) key of None \<Rightarrow> True | Some v \<Rightarrow> t < v) \<longleftrightarrow> \<not> expired t key g"
  by (auto simp: expired_def split: option.splits)

lemma inner_get_expired: "inner_get t key g = (if expired t key g then None else fmlookup (data g) key)"
  by (simp add: inner_get_def expired_def)

lemma store_inner_eqI:
  "(\<And>k. fmlookup (data g) k = fmlookup (data h) k) \<Longrightarrow>
   (\<And>k. fmlookup (expiry_index g) k = fmlookup (expiry_index h) k) \<Longrightarrow> g = (h :: store_inner)"
  by (simp add: fmap_lookup_eqI)

lemma store_eta [simp]: "inner s = g \<Longrightarrow> s\<lparr>inner := g\<rparr> = (s :: store)"
  by auto

lemma keyspace_put: "keyspace t (inner_put k v g) = (keyspace t g)(k \<mapsto> (v, None))"
  by (auto simp: keyspace_def expired_def inner_put_def fun_eq_iff)

lemma keyspace_remove: "keyspace t (inner_remove k g) = (keyspace t g)(k := None)"
  by (auto simp: keyspace_def expired_def inner_remove_def fun_eq_iff)

lemma keyspace_update_data:
  "\<not> expired t k g \<Longrightarrow> keyspace t (g\<lparr>data := fmupd k v (data g)\<rparr>)
     = (keyspace t g)(k \<mapsto> (v, fmlookup (expiry_index g) k))"
  by (auto simp: keyspace_def expired_def fun_eq_iff)

lemma keyspace_drop_data:
  "keyspace t (g\<lparr>data := fmdrop k (data g)\<rparr>) = (keyspace t g)(k := None)"
  by (auto simp: keyspace_def expired_def fun_eq_iff)

lemma keyspace_SomeD:
  "keyspace t g k = Some (v, d) \<Longrightarrow>
     fmlookup (data g) k = Some v \<and> fmlookup (expiry_index g) k = d \<and> \<not> expired t k g"
  by (auto simp: keyspace_def split: if_splits)

lemma inner_get_SomeD:
  "inner_get t k g = Some v \<Longrightarrow> fmlookup (data g) k = Some v \<and> \<not> expired t k g"
  by (auto simp: inner_get_expired split: if_splits)

lemma store_get_del_view:
  "\<not> poisoned s \<Longrightarrow>
     fst (store_get_del t k s) = Ret (map_option fst (keyspace t (inner s) k)) \<and>
     keyspace t (inner (snd (store_get_del t k s))) = (keyspace t (inner s))(k := None)"
  by (auto simp: store_get_del_def with_write_def keyspace_remove not_expired_iff keyspace_def
      option.map_comp comp_def option.map_ident)

section \<open>The key-value interface\<close>

text \<open>What batch operations rely on: looking up after an insertion or a removal.\<close>

locale kv_interface =
  fixes look :: "'k \<Rightarrow> 's \<Rightarrow> 'v option"
    and put :: "'k \<Rightarrow> 'v \<Rightarrow> 's \<Rightarrow> 's"
    and del :: "'k \<Rightarrow> 's \<Rightarrow> 's"
  assumes look_put: "look k (put k' v s) = (if k = k' then Some v else look k s)"
    and look_del: "look k (del k' s) = (if k = k' then None else look k s)"
begin

lemma look_put_many:
  "look k (fold (\<lambda>(k, v). put k v) kvs s) =
     (case map_of (rev kvs) k of Some v \<Rightarrow> Some v | None \<Rightarrow> look k s)"
proof (induction kvs arbitrary: s)
  case (Cons kv kvs)
  then show ?case
    by (cases kv) (auto simp: look_put map_add_def split: option.splits)
qed simp

lemma look_del_many: "look k (fold del ks s) = (if k \<in> set ks then None else look k s)"
  by (induction ks arbitrary: s) (auto simp: look_del)

end

interpretation kv: kv_interface "inner_get t" inner_put inner_remove for t
  by unfold_locales (simp_all add: inner_get_keyspace keyspace_put keyspace_remove)

interpretation kvd: kv_interface "\<lambda>k g. fmlookup (data g) k" inner_put inner_remove
  by unfold_locales (simp_all add: inner_put_def inner_remove_def)

lemma keyspace_remove_many:
  "keyspace t (fold inner_remove ks g) = (\<lambda>k. if k \<in> set ks then None else keyspace t g k)"
  by (induction ks arbitrary: g) (auto simp: keyspace_remove fun_eq_iff)

section \<open>Properties\<close>

text \<open>On a healthy lock, \<open>set\<close> makes exactly one change to the live keyspace at any time:
  the key holds the new value and has no deadline any more, even when its old value had expired.\<close>

theorem store_set_keyspace:
  "\<not> poisoned s \<Longrightarrow> fst (store_set k v s) = Ret () \<and>
     (\<forall>t. keyspace t (inner (snd (store_set k v s))) = (keyspace t (inner s))(k \<mapsto> (v, None)))"
  by (simp add: store_set_def with_write_def keyspace_put)

theorem store_set_keyspace_witness:
  "keyspace 5 (inner (snd (store_set ''a'' (Str ''x'') store_new))) ''a'' = Some (Str ''x'', None)"
  using store_set_keyspace [of store_new "''a''" "Str ''x''"] by (simp add: store_new_def)

text \<open>\<open>get_del\<close> answers the live value and removes the key with its deadline; on an expired
  or missing key it answers nothing and the live keyspace is unchanged.\<close>

theorem store_get_del_keyspace:
  "\<not> poisoned s \<Longrightarrow>
     fst (store_get_del t k s) = Ret (map_option fst (keyspace t (inner s) k)) \<and>
     keyspace t (inner (snd (store_get_del t k s))) = (keyspace t (inner s))(k := None)"
  by (rule store_get_del_view)

theorem store_get_del_keyspace_witness:
  "fst (store_get_del 1 ''a'' (snd (store_set ''a'' (Str ''x'') store_new))) = Ret (Some (Str ''x''))"
  using store_get_del_keyspace [of "snd (store_set ''a'' (Str ''x'') store_new)" 1 "''a''"]
  by (simp add: store_set_def with_write_def store_new_def keyspace_put)

text \<open>\<open>KEYS\<close> lists every live key that matches the pattern, each once, and no other key;
  the pattern consisting of one star lists all live keys, the empty key included.\<close>

theorem store_keys_exact:
  assumes "\<not> poisoned s" "hash_order_ok e" "fst (store_keys e t p s) = Ret ks"
  shows "distinct ks \<and> (\<forall>k. k \<in> set ks \<longleftrightarrow> keyspace t (inner s) k \<noteq> None \<and> (p = ''*'' \<or> string_match k p))"
  using assms
  by (auto simp: store_keys_def with_read_def hash_order_ok_def not_expired_iff keyspace_def
      fmlookup_dom_iff)

theorem store_keys_exact_witness:
  "(\<forall>k. k \<in> set [[]] \<longleftrightarrow> keyspace 3 (inner (snd (store_set [] (Str ''x'') store_new))) k \<noteq> None
      \<and> (''*'' = ''*'' \<or> string_match k ''*''))"
  using store_keys_exact [of "snd (store_set [] (Str ''x'') store_new)" "demo_env 3 0" 3 "''*''" "[[]]"]
  by (simp add: store_keys_def store_set_def with_read_def with_write_def store_new_def inner_put_def
      sorted_list_of_fset_def)

text \<open>Setting a deadline on a key whose value has expired but was not evicted yet brings the
  dead value back: the operation looks at the data map only.\<close>

theorem store_set_ttl_resurrects:
  assumes "\<not> poisoned s" "fmlookup (data (inner s)) k = Some v" "expired t k (inner s)" "t < d"
  shows "keyspace t (inner s) k = None \<and> fst (store_set_ttl k d s) = Ret True \<and>
     keyspace t (inner (snd (store_set_ttl k d s))) k = Some (v, Some d)"
  using assms by (simp add: store_set_ttl_def with_write_def keyspace_def expired_def)

theorem store_set_ttl_resurrects_witness:
  "let s = snd (store_set_ttl ''a'' 5 (snd (store_set ''a'' (Str ''x'') store_new)))
   in keyspace 9 (inner s) ''a'' = None
     \<and> keyspace 9 (inner (snd (store_set_ttl ''a'' 20 s))) ''a'' = Some (Str ''x'', Some 20)"
  using store_set_ttl_resurrects [of "snd (store_set_ttl ''a'' 5 (snd (store_set ''a'' (Str ''x'') store_new)))"
      "''a''" "Str ''x''" 9 20]
  by (simp add: store_set_ttl_def store_set_def with_write_def store_new_def inner_put_def expired_def)

text \<open>Once the lock is poisoned the store is lost: every operation panics and changes nothing.\<close>

theorem poisoned_store_is_dead:
  "poisoned s \<Longrightarrow>
     store_get t k s = (Panic, s) \<and> store_set k v s = (Panic, s) \<and> store_delete k s = (Panic, s)
   \<and> store_get_del t k s = (Panic, s) \<and> store_exists t k s = (Panic, s)
   \<and> store_get_ttl k s = (Panic, s) \<and> store_set_ttl k d s = (Panic, s)
   \<and> store_persist k s = (Panic, s) \<and> store_delete_bulk ks s = (Panic, s)
   \<and> store_keys e t p s = (Panic, s) \<and> store_size s = (Panic, s) \<and> store_clear s = (Panic, s)
   \<and> store_clear_async s = (Panic, s) \<and> store_sample_eviction_index e n s = (Panic, s)"
  by (simp add: store_defs op_simps)

theorem poisoned_store_is_dead_witness:
  "store_size (store_new\<lparr>poisoned := True\<rparr>) = (Panic, store_new\<lparr>poisoned := True\<rparr>)"
  using poisoned_store_is_dead [of "store_new\<lparr>poisoned := True\<rparr>"] by simp

end
