(* ===== verification/Store_String.thy ===== *)
theory Store_String
  imports Store
begin

text \<open>
  The string operations of \<open>store/string.rs\<close>.  \<open>mget\<close> reads the clock once per key
  (\<open>now i\<close> for the \<open>i\<close>-th); \<open>mset\<close> applies the whole batch under one write lock.
\<close>

definition store_get_string :: "int \<Rightarrow> string \<Rightarrow> (string option, store_error) result store_op" where
  "store_get_string now key = bind_op (store_get now key) (\<lambda>v. ret_op
     (case v of
        Some (Str s) \<Rightarrow> Ok (Some s)
      | Some _ \<Rightarrow> Err WrongType
      | None \<Rightarrow> Ok None))"

definition store_set_string :: "string \<Rightarrow> string \<Rightarrow> unit store_op" where
  "store_set_string key value = store_set key (Str value)"

definition store_get_del_string :: "int \<Rightarrow> string \<Rightarrow> (string option, store_error) result store_op" where
  "store_get_del_string now key = bind_op (store_get_del now key) (\<lambda>v. ret_op
     (case v of
        Some (Str s) \<Rightarrow> Ok (Some s)
      | Some _ \<Rightarrow> Err WrongType
      | None \<Rightarrow> Ok None))"

fun mget_loop :: "(nat \<Rightarrow> int) \<Rightarrow> nat \<Rightarrow> string list \<Rightarrow> store_inner \<Rightarrow> string option list" where
  "mget_loop now i [] g = []"
| "mget_loop now i (key # keys) g =
     (case inner_get (now i) key g of Some (Str s) \<Rightarrow> Some s | _ \<Rightarrow> None)
       # mget_loop now (Suc i) keys g"

definition store_mget :: "(nat \<Rightarrow> int) \<Rightarrow> string list \<Rightarrow> string option list store_op" where
  "store_mget now keys = with_read (\<lambda>g. Ret (mget_loop now 0 keys g))"

definition store_mset :: "(string \<times> string) list \<Rightarrow> unit store_op" where
  "store_mset items = with_write (\<lambda>g.
     (Ret (), fold (\<lambda>(key, value). inner_put key (Str value)) items g))"

lemmas [store_defs] = store_get_string_def store_set_string_def store_get_del_string_def
  store_mget_def store_mset_def

lemma store_get_string_view:
  "\<not> poisoned s \<Longrightarrow> store_get_string t k s =
     (Ret (case inner_get t k (inner s) of
             Some (Str x) \<Rightarrow> Ok (Some x) | Some _ \<Rightarrow> Err WrongType | None \<Rightarrow> Ok None), s)"
  by (simp add: store_get_string_def store_get_def op_simps inner_get_expired not_expired_iff)

lemma mget_loop_map:
  "mget_loop now i keys g =
     map (\<lambda>(j, key). case inner_get (now j) key g of Some (Str s) \<Rightarrow> Some s | _ \<Rightarrow> None)
       (zip [i..<i + length keys] keys)"
proof (induction keys arbitrary: i)
  case (Cons key keys)
  then show ?case by (simp add: upt_conv_Cons del: upt_Suc)
qed simp

lemma mset_fold:
  "fold (\<lambda>(key, value). inner_put key (Str value)) items g =
     fold (\<lambda>(k, v). inner_put k v) (map (\<lambda>(k, v). (k, Str v)) items) g"
  by (induction items arbitrary: g) auto

lemma mset_expiry:
  "fmlookup (expiry_index (fold (\<lambda>(key, value). inner_put key (Str value)) items g)) k =
     (if k \<in> fst ` set items then None else fmlookup (expiry_index g) k)"
  by (induction items arbitrary: g) (auto simp: inner_put_def)

lemma mset_lookup:
  "inner_get t k (fold (\<lambda>(key, value). inner_put key (Str value)) items g) =
     (case map_of (rev items) k of Some v \<Rightarrow> Some (Str v) | None \<Rightarrow> inner_get t k g)"
  unfolding mset_fold kv.look_put_many
  by (auto simp: rev_map map_of_map split: option.splits)

lemma keyspace_mset:
  "keyspace t (fold (\<lambda>(key, value). inner_put key (Str value)) items g) k =
     (case map_of (rev items) k of Some v \<Rightarrow> Some (Str v, None) | None \<Rightarrow> keyspace t g k)"
  by (induction items arbitrary: g) (auto simp: keyspace_put map_add_def split: option.splits)

section \<open>Properties\<close>

text \<open>After \<open>MSET\<close> every key of the batch holds the last value the batch gives it and has no
  deadline, and every other key reads as before.\<close>

theorem store_mset_last_wins:
  "\<not> poisoned s \<Longrightarrow> keyspace t (inner (snd (store_mset items s))) k =
     (case map_of (rev items) k of
        Some v \<Rightarrow> Some (Str v, None)
      | None \<Rightarrow> keyspace t (inner s) k)"
  by (simp add: store_mset_def with_write_def keyspace_mset)

theorem store_mset_last_wins_witness:
  "keyspace 0 (inner (snd (store_mset [(''a'', ''1''), (''b'', ''2''), (''a'', ''3'')] store_new))) ''a''
     = Some (Str ''3'', None)"
  using store_mset_last_wins [of store_new 0 "[(''a'', ''1''), (''b'', ''2''), (''a'', ''3'')]" "''a''"]
  by (simp add: store_new_def)

text \<open>\<open>GETDEL\<close> on a live key of another type answers WRONGTYPE and deletes the key all the
  same.\<close>

theorem store_get_del_string_wrongtype_deletes:
  assumes "\<not> poisoned s" "keyspace t (inner s) k = Some (v, d)" "\<And>x. v \<noteq> Str x"
  shows "fst (store_get_del_string t k s) = Ret (Err WrongType) \<and>
     keyspace t (inner (snd (store_get_del_string t k s))) k = None"
  using store_get_del_view [OF assms(1), of t k] assms
  by (auto simp: store_get_del_string_def bind_op_def ret_op_def
      split: prod.splits outcome.splits store_value.splits)

theorem store_get_del_string_wrongtype_deletes_witness:
  "let s = snd (store_set ''l'' (ListVal [''x'']) store_new)
   in fst (store_get_del_string 0 ''l'' s) = Ret (Err WrongType)
     \<and> keyspace 0 (inner (snd (store_get_del_string 0 ''l'' s))) ''l'' = None"
  using store_get_del_string_wrongtype_deletes
    [of "snd (store_set ''l'' (ListVal [''x'']) store_new)" 0 "''l''" "ListVal [''x'']" None]
  by (simp add: store_set_def with_write_def store_new_def keyspace_put)

end
