(* ===== verification/Store_List.thy ===== *)
theory Store_List
  imports Store
begin

text \<open>
  The list operations of \<open>store/list.rs\<close>.  A \<open>VecDeque<String>\<close> is a list with its
  front first.  \<open>push_inner\<close> and \<open>pop_inner\<close> take the end they work on as a function, as
  the code does; the locale \<open>deque_end\<close> states what such a pair of functions owes them and is
  interpreted at both ends.
\<close>

section \<open>VecDeque\<close>

definition push_front :: "'a list \<Rightarrow> 'a \<Rightarrow> 'a list" where "push_front l x = x # l"
definition push_back :: "'a list \<Rightarrow> 'a \<Rightarrow> 'a list" where "push_back l x = l @ [x]"

definition pop_front :: "'a list \<Rightarrow> ('a \<times> 'a list) option" where
  "pop_front l = (case l of [] \<Rightarrow> None | x # xs \<Rightarrow> Some (x, xs))"

definition pop_back :: "'a list \<Rightarrow> ('a \<times> 'a list) option" where
  "pop_back l = (if l = [] then None else Some (last l, butlast l))"

text \<open>\<open>VecDeque::swap_remove_back\<close>: the removed slot takes the last element.\<close>

definition swap_remove_back :: "nat \<Rightarrow> 'a list \<Rightarrow> 'a list" where
  "swap_remove_back i l = (if i < length l then butlast (l[i := last l]) else l)"

definition vecdeque_range :: "nat \<Rightarrow> nat \<Rightarrow> 'a list \<Rightarrow> 'a list" where
  "vecdeque_range start stop l = take (Suc stop - start) (drop start l)"

section \<open>Operations\<close>

definition store_push_inner ::
    "int \<Rightarrow> string \<Rightarrow> string \<Rightarrow> bool \<Rightarrow> (string list \<Rightarrow> string \<Rightarrow> string list)
      \<Rightarrow> (nat, store_error) result store_op" where
  "store_push_inner now key element create_if_missing push_fn = with_write (\<lambda>g.
     case inner_get_mut now key g of
       None \<Rightarrow> if create_if_missing then (Ret (Ok 1), inner_put key (ListVal [element]) g)
               else (Ret (Ok 0), g)
     | Some (ListVal l) \<Rightarrow>
         (let l' = push_fn l element
          in (Ret (Ok (length l')), g\<lparr>data := fmupd key (ListVal l') (data g)\<rparr>))
     | Some _ \<Rightarrow> (Ret (Err WrongType), g))"

definition store_lpush :: "int \<Rightarrow> string \<Rightarrow> string \<Rightarrow> (nat, store_error) result store_op" where
  "store_lpush now key element = store_push_inner now key element True push_front"

definition store_rpush :: "int \<Rightarrow> string \<Rightarrow> string \<Rightarrow> (nat, store_error) result store_op" where
  "store_rpush now key element = store_push_inner now key element True push_back"

definition store_lpushx :: "int \<Rightarrow> string \<Rightarrow> string \<Rightarrow> (nat, store_error) result store_op" where
  "store_lpushx now key element = store_push_inner now key element False push_front"

definition store_rpushx :: "int \<Rightarrow> string \<Rightarrow> string \<Rightarrow> (nat, store_error) result store_op" where
  "store_rpushx now key element = store_push_inner now key element False push_back"

text \<open>The loop \<open>for _ in 0..count\<close> of \<open>pop_inner\<close>, with its early \<open>break\<close>.\<close>

fun pop_loop :: "('a list \<Rightarrow> ('a \<times> 'a list) option) \<Rightarrow> nat \<Rightarrow> 'a list \<Rightarrow> 'a list \<times> 'a list" where
  "pop_loop pop_fn count l =
     (if count = 0 then ([], l)
      else case pop_fn l of
             Some (x, l') \<Rightarrow> (case pop_loop pop_fn (count - 1) l' of (xs, r) \<Rightarrow> (x # xs, r))
           | None \<Rightarrow> ([], l))"

declare pop_loop.simps [simp del]

definition store_pop_inner ::
    "int \<Rightarrow> string \<Rightarrow> nat \<Rightarrow> (string list \<Rightarrow> (string \<times> string list) option)
      \<Rightarrow> (string list option, store_error) result store_op" where
  "store_pop_inner now key count pop_fn s =
     (if \<not> vec_capacity_ok 24 count then (Panic, s)
      else with_write (\<lambda>g.
        case inner_get_mut now key g of
          Some (ListVal list) \<Rightarrow>
            (case pop_loop pop_fn count list of
               (elements, list') \<Rightarrow>
                 if list' = [] then (Ret (Ok (Some elements)), g\<lparr>data := fmdrop key (data g)\<rparr>)
                 else (Ret (Ok (Some elements)), g\<lparr>data := fmupd key (ListVal list') (data g)\<rparr>))
        | Some _ \<Rightarrow> (Ret (Err WrongType), g)
        | None \<Rightarrow> (Ret (Ok None), g)) s)"

definition store_lpop :: "int \<Rightarrow> string \<Rightarrow> nat \<Rightarrow> (string list option, store_error) result store_op" where
  "store_lpop now key count = store_pop_inner now key count pop_front"

definition store_rpop :: "int \<Rightarrow> string \<Rightarrow> nat \<Rightarrow> (string list option, store_error) result store_op" where
  "store_rpop now key count = store_pop_inner now key count pop_back"

definition calculate_index :: "int \<Rightarrow> nat \<Rightarrow> (nat, store_error) result" where
  "calculate_index index list_len =
     (if index < 0 then
        (let a = nat (- index) in if list_len < a then Err OutOfIndex else Ok (list_len - a))
      else Ok (nat index))"

definition store_lset :: "int \<Rightarrow> string \<Rightarrow> int \<Rightarrow> string \<Rightarrow> (unit, store_error) result store_op" where
  "store_lset now key index element = with_write (\<lambda>g.
     case inner_get_mut now key g of
       Some (ListVal l) \<Rightarrow>
         (case calculate_index index (length l) of
            Err e \<Rightarrow> (Ret (Err e), g)
          | Ok i \<Rightarrow>
              if i \<ge> length l then (Ret (Err OutOfIndex), g)
              else (Ret (Ok ()),
                    g\<lparr>data := fmupd key (ListVal (swap_remove_back i (push_back l element))) (data g)\<rparr>))
     | Some _ \<Rightarrow> (Ret (Err WrongType), g)
     | None \<Rightarrow> (Ret (Err NoSuchKey), g))"

definition store_llen :: "int \<Rightarrow> string \<Rightarrow> (nat, store_error) result store_op" where
  "store_llen now key = with_read (\<lambda>g. Ret
     (case inner_get now key g of
        None \<Rightarrow> Ok 0
      | Some (ListVal l) \<Rightarrow> Ok (length l)
      | Some _ \<Rightarrow> Err WrongType))"

definition store_lindex :: "int \<Rightarrow> string \<Rightarrow> int \<Rightarrow> (string option, store_error) result store_op" where
  "store_lindex now key index = with_read (\<lambda>g. Ret
     (case inner_get now key g of
        Some (ListVal l) \<Rightarrow>
          (case calculate_index index (length l) of
             Ok i \<Rightarrow> Ok (if i < length l then Some (l ! i) else None)
           | Err _ \<Rightarrow> Ok None)
      | Some _ \<Rightarrow> Err WrongType
      | None \<Rightarrow> Ok None))"

text \<open>The bounds arithmetic of \<open>lrange\<close> on a list that was found.\<close>

definition lrange_list :: "int \<Rightarrow> int \<Rightarrow> 'a list \<Rightarrow> 'a list" where
  "lrange_list start stop l =
     (let len = as_i64 (int (length l)) in
      if len = 0 then []
      else
        let start' = (if start < 0 then max (start + len) 0 else start);
            stop' = (if stop < 0 then stop + len else stop)
        in if start' > stop' \<or> start' \<ge> len then []
           else let stop'' = min stop' (len - 1)
                in vecdeque_range (nat start') (nat stop'') l)"

definition store_lrange :: "int \<Rightarrow> string \<Rightarrow> int \<Rightarrow> int \<Rightarrow> (string list, store_error) result store_op" where
  "store_lrange now key start stop = with_read (\<lambda>g. Ret
     (case inner_get now key g of
        Some (ListVal l) \<Rightarrow> Ok (lrange_list start stop l)
      | Some _ \<Rightarrow> Err WrongType
      | None \<Rightarrow> Ok []))"

lemmas [store_defs] = store_lpush_def store_rpush_def store_lpushx_def store_rpushx_def
  store_push_inner_def store_lpop_def store_rpop_def store_pop_inner_def store_lset_def
  store_llen_def store_lindex_def store_lrange_def

section \<open>The two ends of a deque\<close>

locale deque_end =
  fixes push :: "'a list \<Rightarrow> 'a \<Rightarrow> 'a list"
    and pop :: "'a list \<Rightarrow> ('a \<times> 'a list) option"
  assumes push_nonempty: "push l x \<noteq> []"
    and push_length: "length (push l x) = Suc (length l)"
    and pop_push: "pop (push l x) = Some (x, l)"
    and pop_none: "pop l = None \<longleftrightarrow> l = []"
    and pop_single: "pop [x] = Some (x, [])"
    and pop_length: "pop l = Some (x, l') \<Longrightarrow> length l = Suc (length l')"
begin

lemma pop_loop_length:
  "pop_loop pop n l = (xs, r) \<Longrightarrow> length xs = min n (length l) \<and> length r = length l - n"
proof (induction n arbitrary: l xs r)
  case 0
  then show ?case by (simp add: pop_loop.simps)
next
  case (Suc n)
  show ?case
  proof (cases "pop l")
    case None
    with Suc.prems pop_none [of l] show ?thesis by (simp add: pop_loop.simps [of pop "Suc n"])
  next
    case (Some xl)
    then obtain x l' where xl: "pop l = Some (x, l')" by (cases xl) auto
    obtain ys r' where p: "pop_loop pop n l' = (ys, r')" by fastforce
    from xl p Suc.prems have "xs = x # ys" "r = r'" by (simp_all add: pop_loop.simps [of pop "Suc n"])
    with Suc.IH [OF p] pop_length [OF xl] show ?thesis by simp
  qed
qed

text \<open>Pushing a batch and popping as many gives the batch back, newest first.\<close>

lemma pop_loop_pushes: "pop_loop pop (length xs) (foldl push l xs) = (rev xs, l)"
proof (induction xs rule: rev_induct)
  case Nil
  then show ?case by (simp add: pop_loop.simps)
next
  case (snoc x xs)
  then show ?case by (simp add: pop_loop.simps [of pop "Suc (length xs)"] pop_push)
qed

end

interpretation deq_front: deque_end push_front pop_front
  by unfold_locales (auto simp: push_front_def pop_front_def split: list.splits)

interpretation deq_back: deque_end push_back pop_back
  by unfold_locales (auto simp: push_back_def pop_back_def split: if_splits)

lemma pop_simps [simp]:
  "pop_front [] = None" "pop_front (x # xs) = Some (x, xs)"
  "pop_back [] = None" "pop_back (xs @ [x]) = Some (x, xs)"
  by (simp_all add: pop_front_def pop_back_def)

lemma swap_remove_push: "i < length l \<Longrightarrow> swap_remove_back i (push_back l x) = l[i := x]"
  by (simp add: swap_remove_back_def push_back_def list_update_append butlast_append)

lemma pop_front_loop: "pop_loop pop_front n l = (take n l, drop n l)"
proof (induction n arbitrary: l)
  case (Suc n)
  then show ?case by (cases l) (simp_all add: pop_loop.simps [of pop_front "Suc n"])
qed (simp add: pop_loop.simps)

lemma pop_back_loop: "pop_loop pop_back n l = (take n (rev l), take (length l - n) l)"
proof (induction n arbitrary: l)
  case (Suc n)
  show ?case
  proof (cases l rule: rev_cases)
    case (snoc ys y)
    with Suc show ?thesis by (simp add: pop_loop.simps [of pop_back "Suc n"])
  qed (simp add: pop_loop.simps)
qed (simp add: pop_loop.simps)

section \<open>List operations on the live keyspace\<close>

lemma store_push_inner_cases:
  assumes "\<not> poisoned s"
  shows "inner_get t k (inner s) = None \<Longrightarrow>
      store_push_inner t k x True f s = (Ret (Ok 1), s\<lparr>inner := inner_put k (ListVal [x]) (inner s)\<rparr>)"
    and "inner_get t k (inner s) = None \<Longrightarrow> store_push_inner t k x False f s = (Ret (Ok 0), s)"
    and "inner_get t k (inner s) = Some (ListVal l) \<Longrightarrow>
      store_push_inner t k x c f s =
        (Ret (Ok (length (f l x))), s\<lparr>inner := (inner s)\<lparr>data := fmupd k (ListVal (f l x)) (data (inner s))\<rparr>\<rparr>)"
    and "inner_get t k (inner s) = Some v \<Longrightarrow> (\<And>l. v \<noteq> ListVal l) \<Longrightarrow>
      store_push_inner t k x c f s = (Ret (Err WrongType), s)"
  using assms by (auto simp: store_push_inner_def op_simps Let_def split: store_value.splits)

lemma store_pop_inner_list:
  assumes "\<not> poisoned s" "vec_capacity_ok 24 n" "inner_get t k (inner s) = Some (ListVal l)"
    "pop_loop f n l = (xs, r)"
  shows "store_pop_inner t k n f s = (Ret (Ok (Some xs)), s\<lparr>inner :=
     (if r = [] then (inner s)\<lparr>data := fmdrop k (data (inner s))\<rparr>
      else (inner s)\<lparr>data := fmupd k (ListVal r) (data (inner s))\<rparr>)\<rparr>)"
  using assms by (auto simp: store_pop_inner_def op_simps)

lemma keyspace_inner_get: "keyspace t g k = Some (v, d) \<Longrightarrow> inner_get t k g = Some v"
  by (simp add: inner_get_keyspace)

text \<open>The store operations over one end of a deque, whichever it is.\<close>

locale store_deque = deque_end push pop
  for push :: "string list \<Rightarrow> string \<Rightarrow> string list"
    and pop :: "string list \<Rightarrow> (string \<times> string list) option"
begin

lemma push_pop_restores:
  assumes s: "\<not> poisoned s" and ok: "fst (store_push_inner t k x True push s) = Ret (Ok n)"
    and ne: "\<And>d. keyspace t (inner s) k \<noteq> Some (ListVal [], d)"
    and s': "s' = snd (store_push_inner t k x True push s)"
  shows "fst (store_pop_inner t k 1 pop s') = Ret (Ok (Some [x])) \<and>
     keyspace t (inner (snd (store_pop_inner t k 1 pop s'))) = keyspace t (inner s)"
proof (cases "keyspace t (inner s) k")
  case None
  then have abs: "inner_get t k (inner s) = None" by (simp add: inner_get_keyspace)
  have s': "s' = s\<lparr>inner := inner_put k (ListVal [x]) (inner s)\<rparr>"
    using store_push_inner_cases(1) [OF s abs] s' by simp
  have "inner_get t k (inner s') = Some (ListVal [x])"
    by (simp add: s' inner_get_keyspace keyspace_put)
  moreover have "pop_loop pop 1 [x] = ([x], [])" by (simp add: pop_loop.simps pop_single)
  ultimately have "store_pop_inner t k 1 pop s' =
      (Ret (Ok (Some [x])), s'\<lparr>inner := (inner s')\<lparr>data := fmdrop k (data (inner s'))\<rparr>\<rparr>)"
    using store_pop_inner_list [of s' 1 t k "[x]"] s s' by (simp add: vec_capacity_ok_def)
  with None show ?thesis by (simp add: s' keyspace_drop_data keyspace_put fun_upd_idem)
next
  case (Some vd)
  obtain v d where vd: "keyspace t (inner s) k = Some (v, d)" using Some by (cases vd) auto
  then have v: "inner_get t k (inner s) = Some v" by (rule keyspace_inner_get)
  from ok store_push_inner_cases(4) [OF s v, of x True push] obtain l where l: "v = ListVal l" by force
  have s': "s' = s\<lparr>inner := (inner s)\<lparr>data := fmupd k (ListVal (push l x)) (data (inner s))\<rparr>\<rparr>"
    using store_push_inner_cases(3) [OF s v [unfolded l]] s' by simp
  from vd keyspace_SomeD have live: "\<not> expired t k (inner s)" "fmlookup (expiry_index (inner s)) k = d"
    by blast+
  then have "inner_get t k (inner s') = Some (ListVal (push l x))"
    by (simp add: s' inner_get_keyspace keyspace_update_data)
  moreover have "pop_loop pop 1 (push l x) = ([x], l)" by (simp add: pop_loop.simps pop_push)
  moreover have "l \<noteq> []" using ne vd l by auto
  ultimately have "store_pop_inner t k 1 pop s' =
      (Ret (Ok (Some [x])), s'\<lparr>inner := (inner s')\<lparr>data := fmupd k (ListVal l) (data (inner s'))\<rparr>\<rparr>)"
    using store_pop_inner_list [of s' 1 t k "push l x"] s s' by (simp add: vec_capacity_ok_def)
  with vd l live show ?thesis
    by (simp add: s' keyspace_update_data fun_upd_idem)
qed

end

interpretation sfront: store_deque push_front pop_front
  by unfold_locales

interpretation sback: store_deque push_back pop_back
  by unfold_locales

text \<open>How a signed index reads on a list of a given length.\<close>

definition resolve_index :: "int \<Rightarrow> nat \<Rightarrow> int" where
  "resolve_index i n = (if i < 0 then i + int n else i)"

lemma calculate_index_resolve:
  "calculate_index i n =
     (if resolve_index i n < 0 then Err OutOfIndex else Ok (nat (resolve_index i n)))"
  by (auto simp: calculate_index_def resolve_index_def Let_def nat_diff_distrib' split: if_splits)

lemma filter_upt_between:
  "filter (\<lambda>j. a \<le> int j \<and> int j \<le> b) [0..<n] = [nat a..<min (nat (b + 1)) n]"
proof (induction n)
  case (Suc n)
  consider "a \<le> int n \<and> int n \<le> b" | "int n < a" | "b < int n" by linarith
  then show ?case
  proof cases
    case 1
    then have "min (nat (b + 1)) n = n" "min (nat (b + 1)) (Suc n) = Suc n" "nat a \<le> n" by auto
    with 1 Suc show ?thesis by simp
  next
    case 2
    then have "min (nat (b + 1)) (Suc n) \<le> nat a" "min (nat (b + 1)) n \<le> nat a" by auto
    with 2 Suc show ?thesis by simp
  next
    case 3
    then have "min (nat (b + 1)) (Suc n) = min (nat (b + 1)) n" by auto
    with 3 Suc show ?thesis by simp
  qed
qed simp

lemma slice_upt: "b \<le> length l \<Longrightarrow> take (b - a) (drop a l) = map ((!) l) [a..<b]"
  by (rule nth_equalityI) auto

lemma vecdeque_range_upt:
  "a \<le> b \<Longrightarrow> b < length l \<Longrightarrow> vecdeque_range a b l = map ((!) l) [a..<Suc b]"
  using slice_upt [of "Suc b" l a] by (simp add: vecdeque_range_def del: upt_Suc)

lemma lrange_list_between:
  assumes "int (length l) \<le> i64_max"
  shows "lrange_list a b l = map ((!) l)
     (filter (\<lambda>j. resolve_index a (length l) \<le> int j \<and> int j \<le> resolve_index b (length l)) [0..<length l])"
proof -
  let ?n = "length l" and ?a = "resolve_index a (length l)" and ?b = "resolve_index b (length l)"
  have code: "lrange_list a b l =
      (if l = [] \<or> ?b < max ?a 0 \<or> int ?n \<le> max ?a 0 then []
       else vecdeque_range (nat (max ?a 0)) (nat (min ?b (int ?n - 1))) l)"
    using assms by (cases l) (auto simp: lrange_list_def Let_def cast_simps resolve_index_def max_def)
  show ?thesis
  proof (cases "l = [] \<or> ?b < max ?a 0 \<or> int ?n \<le> max ?a 0")
    case True
    then have "min (nat (?b + 1)) ?n \<le> nat ?a" by (auto simp: nat_le_iff)
    with True show ?thesis unfolding code filter_upt_between by simp
  next
    case False
    then have "vecdeque_range (nat (max ?a 0)) (nat (min ?b (int ?n - 1))) l
        = map ((!) l) [nat (max ?a 0)..<Suc (nat (min ?b (int ?n - 1)))]"
      by (intro vecdeque_range_upt) auto
    moreover have "Suc (nat (min ?b (int ?n - 1))) = min (nat (?b + 1)) ?n" "nat (max ?a 0) = nat ?a"
      using False by auto
    ultimately show ?thesis using False unfolding code filter_upt_between by (simp del: upt_Suc)
  qed
qed

section \<open>Properties\<close>

text \<open>Pushing an element and popping one from the same end gives the element back and
  restores the live keyspace, deadline included, at either end, when no empty list is stored.\<close>

theorem push_pop_roundtrip:
  assumes "\<not> poisoned s" "\<And>d. keyspace t (inner s) k \<noteq> Some (ListVal [], d)"
  shows "(fst (store_lpush t k x s) = Ret (Ok n) \<longrightarrow>
       fst (store_lpop t k 1 (snd (store_lpush t k x s))) = Ret (Ok (Some [x])) \<and>
       keyspace t (inner (snd (store_lpop t k 1 (snd (store_lpush t k x s))))) = keyspace t (inner s))
   \<and> (fst (store_rpush t k x s) = Ret (Ok n) \<longrightarrow>
       fst (store_rpop t k 1 (snd (store_rpush t k x s))) = Ret (Ok (Some [x])) \<and>
       keyspace t (inner (snd (store_rpop t k 1 (snd (store_rpush t k x s))))) = keyspace t (inner s))"
  unfolding store_lpush_def store_lpop_def store_rpush_def store_rpop_def
  using sfront.push_pop_restores [OF assms(1) _ assms(2)] sback.push_pop_restores [OF assms(1) _ assms(2)]
  by blast

theorem push_pop_roundtrip_witness:
  "fst (store_lpop 0 ''l'' 1 (snd (store_lpush 0 ''l'' ''x'' store_new))) = Ret (Ok (Some [''x'']))"
  using push_pop_roundtrip [of store_new 0 "''l''" "''x''" 1]
  by (simp add: store_new_def store_lpush_def store_push_inner_def op_simps inner_get_def keyspace_def
      expired_def)

text \<open>Popping \<open>n\<close> elements takes them in order from the chosen end; the key disappears from
  the live keyspace exactly when nothing is left, and otherwise keeps its deadline.\<close>

theorem store_pop_exact:
  assumes "\<not> poisoned s" "keyspace t (inner s) k = Some (ListVal l, d)" "vec_capacity_ok 24 n"
  shows "fst (store_lpop t k n s) = Ret (Ok (Some (take n l))) \<and>
     keyspace t (inner (snd (store_lpop t k n s))) =
       (keyspace t (inner s))(k := (if length l \<le> n then None else Some (ListVal (drop n l), d))) \<and>
     fst (store_rpop t k n s) = Ret (Ok (Some (take n (rev l)))) \<and>
     keyspace t (inner (snd (store_rpop t k n s))) =
       (keyspace t (inner s))(k := (if length l \<le> n then None
                                    else Some (ListVal (take (length l - n) l), d)))"
proof -
  from assms(2) have l: "inner_get t k (inner s) = Some (ListVal l)" by (rule keyspace_inner_get)
  from keyspace_SomeD [OF assms(2)] have live: "\<not> expired t k (inner s)"
    "fmlookup (expiry_index (inner s)) k = d" by blast+
  show ?thesis
    unfolding store_lpop_def store_rpop_def
    using store_pop_inner_list [OF assms(1,3) l pop_front_loop]
      store_pop_inner_list [OF assms(1,3) l pop_back_loop] live
    by (auto simp: keyspace_drop_data keyspace_update_data)
qed

theorem store_pop_exact_witness:
  "fst (store_rpop 0 ''l'' 2 (snd (store_set ''l'' (ListVal [''a'', ''b'', ''c'']) store_new)))
     = Ret (Ok (Some [''c'', ''b'']))"
  using store_pop_exact [of "snd (store_set ''l'' (ListVal [''a'', ''b'', ''c'']) store_new)" 0 "''l''"
      "[''a'', ''b'', ''c'']" None 2]
  by (simp add: store_set_def with_write_def store_new_def keyspace_put vec_capacity_ok_def)

text \<open>\<open>LSET\<close> replaces exactly the addressed element (counting from the end for a negative
  index), keeps the deadline, and reports an index error without touching the store when the
  index falls outside the list.\<close>

theorem store_lset_exact:
  assumes "\<not> poisoned s" "keyspace t (inner s) k = Some (ListVal l, d)"
  shows "if 0 \<le> resolve_index i (length l) \<and> resolve_index i (length l) < int (length l)
    then fst (store_lset t k i x s) = Ret (Ok ()) \<and>
      keyspace t (inner (snd (store_lset t k i x s))) =
        (keyspace t (inner s))(k \<mapsto> (ListVal (l[nat (resolve_index i (length l)) := x]), d))
    else store_lset t k i x s = (Ret (Err OutOfIndex), s)"
  using assms keyspace_inner_get [OF assms(2)] keyspace_SomeD [OF assms(2)]
  by (auto simp: store_lset_def op_simps calculate_index_resolve swap_remove_push
      keyspace_update_data nat_less_iff)

theorem store_lset_exact_witness:
  "let s = snd (store_set ''l'' (ListVal [''a'', ''b'', ''c'']) store_new)
   in keyspace 0 (inner (snd (store_lset 0 ''l'' (- 1) ''z'' s))) ''l''
       = Some (ListVal [''a'', ''b'', ''z''], None)"
  using store_lset_exact [of "snd (store_set ''l'' (ListVal [''a'', ''b'', ''c'']) store_new)" 0 "''l''"
      "[''a'', ''b'', ''c'']" None "- 1" "''z''"]
  by (simp add: store_set_def with_write_def store_new_def keyspace_put resolve_index_def)

text \<open>\<open>LRANGE\<close> returns exactly the elements whose position lies between the two resolved
  bounds, in order; no bound is out of range.\<close>

theorem store_lrange_exact:
  assumes "\<not> poisoned s" "keyspace t (inner s) k = Some (ListVal l, d)" "int (length l) \<le> i64_max"
  shows "store_lrange t k a b s = (Ret (Ok (map ((!) l)
     (filter (\<lambda>j. resolve_index a (length l) \<le> int j \<and> int j \<le> resolve_index b (length l))
       [0..<length l]))), s)"
proof -
  have "inner_get t k (inner s) = Some (ListVal l)" using assms(2) by (rule keyspace_inner_get)
  then show ?thesis using assms(1,3)
    by (simp add: store_lrange_def op_simps lrange_list_between)
qed

theorem store_lrange_exact_witness:
  "fst (store_lrange 0 ''l'' (- 2) 10 (snd (store_set ''l'' (ListVal [''a'', ''b'', ''c'']) store_new)))
     = Ret (Ok [''b'', ''c''])"
  using store_lrange_exact [of "snd (store_set ''l'' (ListVal [''a'', ''b'', ''c'']) store_new)" 0 "''l''"
      "[''a'', ''b'', ''c'']" None "- 2" 10]
  by (simp add: store_set_def with_write_def store_new_def keyspace_put resolve_index_def
      upt_conv_Cons)

text \<open>Popping the last element of a list that has a deadline removes the list but leaves its
  deadline in the expiry index, so the store still reports a deadline for a key it does not hold.\<close>

theorem store_pop_leaves_deadline:
  assumes "\<not> poisoned s" "keyspace t (inner s) k = Some (ListVal l, Some d)" "vec_capacity_ok 24 n"
    "length l \<le> n"
  shows "fst (store_exists t k (snd (store_lpop t k n s))) = Ret False \<and>
     fst (store_get_ttl k (snd (store_lpop t k n s))) = Ret (Some d)"
proof -
  from assms(2) have l: "inner_get t k (inner s) = Some (ListVal l)" by (rule keyspace_inner_get)
  from keyspace_SomeD [OF assms(2)] have "fmlookup (expiry_index (inner s)) k = Some d" by blast
  then show ?thesis
    using store_pop_inner_list [OF assms(1,3) l pop_front_loop] assms
    by (simp add: store_lpop_def store_exists_def store_get_ttl_def with_read_def)
qed

theorem store_pop_leaves_deadline_witness:
  "let s = snd (store_set_ttl ''l'' 50 (snd (store_set ''l'' (ListVal [''a'']) store_new)))
   in fst (store_get_ttl ''l'' (snd (store_lpop 0 ''l'' 1 s))) = Ret (Some 50)"
  using store_pop_leaves_deadline
    [of "snd (store_set_ttl ''l'' 50 (snd (store_set ''l'' (ListVal [''a'']) store_new)))" 0 "''l''"
      "[''a'']" 50 1]
  by (simp add: store_set_ttl_def store_set_def with_write_def store_new_def inner_put_def
      keyspace_def expired_def vec_capacity_ok_def)

text \<open>A pop with a huge count panics before it looks at the key: the result buffer is reserved
  for the requested count, not for the length of the list.\<close>

theorem store_pop_huge_count_panics:
  "384307168202282325 < n \<Longrightarrow> store_lpop t k n s = (Panic, s) \<and> store_rpop t k n s = (Panic, s)"
  by (simp add: store_lpop_def store_rpop_def store_pop_inner_def vec_capacity_ok_def)

theorem store_pop_huge_count_panics_witness:
  "store_lpop 0 ''missing'' u64_max store_new = (Panic, store_new)"
  using store_pop_huge_count_panics [of u64_max 0 "''missing''" store_new] by simp

end
