(* ===== verification/Store_Set.thy ===== *)
theory Store_Set
  imports Store
begin

text \<open>
  The set operations of \<open>store/set.rs\<close>.  A \<open>HashSet<String>\<close> is a finite set; where the
  code iterates it, the order is \<open>hash_order\<close> of the world.  \<open>smove\<close> consults the clock
  four times under one write lock, and the model keeps the four readings apart.
\<close>

section \<open>Operations\<close>

text \<open>The iterator \<open>members.filter(|m| s.insert(m)).count()\<close>, and the loop of \<open>srem\<close>.\<close>

fun insert_count :: "string list \<Rightarrow> string fset \<Rightarrow> nat \<times> string fset" where
  "insert_count [] s = (0, s)"
| "insert_count (m # ms) s =
     (case insert_count ms (finsert m s) of (n, s') \<Rightarrow> (if m |\<in>| s then n else Suc n, s'))"

fun remove_count :: "string list \<Rightarrow> string fset \<Rightarrow> nat \<times> string fset" where
  "remove_count [] s = (0, s)"
| "remove_count (m # ms) s =
     (if m |\<in>| s then (case remove_count ms (s |-| {|m|}) of (n, s') \<Rightarrow> (Suc n, s'))
      else remove_count ms s)"

definition store_sadd :: "int \<Rightarrow> string \<Rightarrow> string list \<Rightarrow> (nat, store_error) result store_op" where
  "store_sadd now key members = with_write (\<lambda>g.
     case inner_get_mut now key g of
       None \<Rightarrow> (let s = fset_of_list members
                in (Ret (Ok (fcard s)), inner_put key (SetVal s) g))
     | Some (SetVal s) \<Rightarrow>
         (case insert_count members s of
            (n, s') \<Rightarrow> (Ret (Ok n), g\<lparr>data := fmupd key (SetVal s') (data g)\<rparr>))
     | Some _ \<Rightarrow> (Ret (Err WrongType), g))"

definition store_smembers :: "env \<Rightarrow> int \<Rightarrow> string \<Rightarrow> (string list, store_error) result store_op" where
  "store_smembers e now key = with_read (\<lambda>g. Ret
     (case inner_get now key g of
        None \<Rightarrow> Ok []
      | Some (SetVal s) \<Rightarrow> Ok (hash_order e s)
      | Some _ \<Rightarrow> Err WrongType))"

definition store_sismember :: "env \<Rightarrow> int \<Rightarrow> string \<Rightarrow> string \<Rightarrow> (bool, store_error) result store_op" where
  "store_sismember e now key member = bind_op (store_smembers e now key) (\<lambda>r.
     case r of Ok ms \<Rightarrow> ret_op (Ok (List.member ms member)) | Err x \<Rightarrow> ret_op (Err x))"

definition store_smismember :: "int \<Rightarrow> string \<Rightarrow> string list \<Rightarrow> (bool list, store_error) result store_op" where
  "store_smismember now key members = with_read (\<lambda>g. Ret
     (case inner_get now key g of
        None \<Rightarrow> Ok (replicate (length members) False)
      | Some (SetVal s) \<Rightarrow> Ok (map (\<lambda>m. m |\<in>| s) members)
      | Some _ \<Rightarrow> Err WrongType))"

definition store_srandmember ::
    "env \<Rightarrow> int \<Rightarrow> string \<Rightarrow> nat option \<Rightarrow> bool \<Rightarrow> (string list, store_error) result store_op" where
  "store_srandmember e now key count allow_repetition = with_read (\<lambda>g.
     case inner_get now key g of
       None \<Rightarrow> Ret (Ok [])
     | Some (SetVal s) \<Rightarrow>
         (let amount = (case count of None \<Rightarrow> 1 | Some n \<Rightarrow> n) in
          if allow_repetition then
            if s = {||} then Ret (Ok [])
            else
              let members = hash_order e s in
              if \<not> vec_capacity_ok 24 amount then Panic
              else Ret (Ok (map (\<lambda>j. members ! random_ix e j (length members)) [0..<amount]))
          else (case pick e 24 amount (hash_order e s) of Panic \<Rightarrow> Panic | Ret xs \<Rightarrow> Ret (Ok xs)))
     | Some _ \<Rightarrow> Ret (Err WrongType))"

definition store_scard :: "int \<Rightarrow> string \<Rightarrow> (nat, store_error) result store_op" where
  "store_scard now key = with_read (\<lambda>g. Ret
     (case inner_get now key g of
        None \<Rightarrow> Ok 0
      | Some (SetVal s) \<Rightarrow> Ok (fcard s)
      | Some _ \<Rightarrow> Err WrongType))"

text \<open>The two halves of \<open>smove\<close> after its checks; each may reach an \<open>unreachable!\<close>.\<close>

definition smove_take :: "int \<Rightarrow> string \<Rightarrow> string \<Rightarrow> store_inner \<Rightarrow> unit outcome \<times> store_inner" where
  "smove_take now source member g =
     (case inner_get_mut now source g of
        Some (SetVal s) \<Rightarrow>
          (let s' = s |-| {|member|}
           in if s' = {||} then (Ret (), inner_remove source g)
              else (Ret (), g\<lparr>data := fmupd source (SetVal s') (data g)\<rparr>))
      | _ \<Rightarrow> (Panic, g))"

definition smove_put ::
    "int \<Rightarrow> string \<Rightarrow> string \<Rightarrow> store_inner \<Rightarrow> (bool, store_error) result outcome \<times> store_inner" where
  "smove_put now destination member g =
     (case inner_get_mut now destination g of
        None \<Rightarrow> (Ret (Ok True), inner_put destination (SetVal {|member|}) g)
      | Some (SetVal s) \<Rightarrow>
          (Ret (Ok True), g\<lparr>data := fmupd destination (SetVal (finsert member s)) (data g)\<rparr>)
      | Some _ \<Rightarrow> (Panic, g))"

definition store_smove ::
    "int \<Rightarrow> int \<Rightarrow> int \<Rightarrow> int \<Rightarrow> string \<Rightarrow> string \<Rightarrow> string \<Rightarrow> (bool, store_error) result store_op" where
  "store_smove t1 t2 t3 t4 source destination member = with_write (\<lambda>g.
     case inner_get t1 source g of
       None \<Rightarrow> (Ret (Ok False), g)
     | Some (SetVal s) \<Rightarrow>
         (let has_member = (member |\<in>| s);
              finish = (if \<not> has_member then (Ret (Ok False), g)
                else case smove_take t3 source member g of
                       (Panic, g') \<Rightarrow> (Panic, g')
                     | (Ret _, g') \<Rightarrow> smove_put t4 destination member g')
          in case inner_get t2 destination g of
               None \<Rightarrow> finish
             | Some (SetVal _) \<Rightarrow> finish
             | Some _ \<Rightarrow> (Ret (Err WrongType), g))
     | Some _ \<Rightarrow> (Ret (Err WrongType), g))"

definition store_spop ::
    "env \<Rightarrow> int \<Rightarrow> string \<Rightarrow> nat option \<Rightarrow> (string list option, store_error) result store_op" where
  "store_spop e now key count = with_write (\<lambda>g.
     case inner_get_mut now key g of
       Some (SetVal s) \<Rightarrow>
         (let amount = (case count of None \<Rightarrow> 1 | Some n \<Rightarrow> n);
              popped_or_panic = pick e 24 amount (hash_order e s)
          in case popped_or_panic of
               Panic \<Rightarrow> (Panic, g)
             | Ret popped \<Rightarrow>
                 (let s' = fold (\<lambda>m u. u |-| {|m|}) popped s
                  in (Ret (Ok (Some popped)),
                      if s' = {||} then inner_remove key g
                      else g\<lparr>data := fmupd key (SetVal s') (data g)\<rparr>)))
     | Some _ \<Rightarrow> (Ret (Err WrongType), g)
     | None \<Rightarrow> (Ret (Ok None), g))"

definition store_srem :: "int \<Rightarrow> string \<Rightarrow> string list \<Rightarrow> (nat, store_error) result store_op" where
  "store_srem now key members = with_write (\<lambda>g.
     case inner_get_mut now key g of
       Some (SetVal s) \<Rightarrow>
         (case remove_count members s of
            (n, s') \<Rightarrow> (Ret (Ok n), g\<lparr>data := fmupd key (SetVal s') (data g)\<rparr>))
     | Some _ \<Rightarrow> (Ret (Err WrongType), g)
     | None \<Rightarrow> (Ret (Ok 0), g))"

lemmas [store_defs] = store_sadd_def store_smembers_def store_sismember_def store_smismember_def
  store_srandmember_def store_scard_def store_smove_def store_spop_def store_srem_def

section \<open>Counting loops\<close>

lemma insert_count_eq:
  "insert_count ms s = (fcard (fset_of_list ms |-| s), s |\<union>| fset_of_list ms)"
proof (induction ms arbitrary: s)
  case (Cons m ms)
  show ?case
  proof (cases "m |\<in>| s")
    case True
    then have "finsert m s = s" "finsert m (fset_of_list ms) |-| s = fset_of_list ms |-| s" by auto
    with True Cons.IH [of s] show ?thesis by (auto simp: funion_finsert_right)
  next
    case False
    then have "finsert m (fset_of_list ms) |-| s = finsert m (fset_of_list ms |-| finsert m s)" by auto
    with False Cons.IH [of "finsert m s"] show ?thesis by (auto simp: fcard_finsert_disjoint)
  qed
qed simp

lemma remove_count_eq:
  "remove_count ms s = (fcard (s |\<inter>| fset_of_list ms), s |-| fset_of_list ms)"
proof (induction ms arbitrary: s)
  case (Cons m ms)
  show ?case
  proof (cases "m |\<in>| s")
    case True
    then have "s |\<inter>| finsert m (fset_of_list ms) = finsert m ((s |-| {|m|}) |\<inter>| fset_of_list ms)" by auto
    moreover have "s |-| {|m|} |-| fset_of_list ms = s |-| finsert m (fset_of_list ms)" by auto
    ultimately show ?thesis
      using True Cons.IH [of "s |-| {|m|}"] by (auto simp: fcard_finsert_disjoint)
  next
    case False
    then have "s |\<inter>| finsert m (fset_of_list ms) = s |\<inter>| fset_of_list ms"
      "s |-| finsert m (fset_of_list ms) = s |-| fset_of_list ms" by auto
    with False Cons.IH [of s] show ?thesis by simp
  qed
qed simp

lemma fold_fminus: "fold (\<lambda>m s. s |-| {|m|}) ms s = s |-| fset_of_list ms"
  by (induction ms arbitrary: s) auto

section \<open>Set operations on the live keyspace\<close>

lemma keyspace_inner_getD: "keyspace t g k = Some (v, d) \<Longrightarrow> inner_get t k g = Some v"
  by (simp add: inner_get_keyspace)

lemma keyspace_None_iff: "keyspace t g k = None \<longleftrightarrow> inner_get t k g = None"
  by (simp add: inner_get_keyspace)

lemma fcard_hash_order: "hash_order_ok e \<Longrightarrow> length (hash_order e s) = fcard s"
  by (metis hash_order_ok_def distinct_card fcard.rep_eq)

lemma hash_order_props:
  "hash_order_ok e \<Longrightarrow> distinct (hash_order e s) \<and> set (hash_order e s) = fset s"
  by (simp add: hash_order_ok_def)

lemma keyspace_empty: "keyspace t \<lparr>data = fmempty, expiry_index = fmempty\<rparr> k = None"
  by (simp add: keyspace_def)

text \<open>What remains of a set value: a set that became empty is dropped from the keyspace.\<close>

definition nonempty_set :: "string fset \<Rightarrow> int option \<Rightarrow> (store_value \<times> int option) option" where
  "nonempty_set s d = (if s = {||} then None else Some (SetVal s, d))"

lemma store_inner_sel: "inner (st\<lparr>inner := g\<rparr>) = g"
  by simp

lemma keyspace_shrink:
  assumes "keyspace t g k = Some (SetVal s, d)"
  shows "keyspace t (if s' = {||} then inner_remove k g else g\<lparr>data := fmupd k (SetVal s') (data g)\<rparr>)
     = (keyspace t g)(k := nonempty_set s' d)"
  using keyspace_SomeD [OF assms] by (auto simp: keyspace_remove keyspace_update_data nonempty_set_def)

lemma smove_take_keyspace:
  assumes "keyspace t g k = Some (SetVal s, d)"
  shows "\<exists>g'. smove_take t k m g = (Ret (), g') \<and>
     (\<forall>t'. \<not> expired t' k g \<longrightarrow> keyspace t' g' = (keyspace t' g)(k := nonempty_set (s |-| {|m|}) d))"
  using keyspace_SomeD [OF assms] keyspace_inner_getD [OF assms]
  by (auto simp: smove_take_def Let_def nonempty_set_def keyspace_remove keyspace_update_data)

lemma smove_put_keyspace:
  "keyspace t g k = None \<Longrightarrow>
     \<exists>g'. smove_put t k m g = (Ret (Ok True), g') \<and> keyspace t g' = (keyspace t g)(k \<mapsto> (SetVal {|m|}, None))"
  "keyspace t g k = Some (SetVal s, d) \<Longrightarrow>
     \<exists>g'. smove_put t k m g = (Ret (Ok True), g') \<and> keyspace t g' = (keyspace t g)(k \<mapsto> (SetVal (finsert m s), d))"
  by (auto simp: smove_put_def keyspace_None_iff keyspace_put keyspace_inner_getD keyspace_update_data
      dest!: keyspace_SomeD)

text \<open>The destination after a move, given what it held.\<close>

fun set_with :: "string \<Rightarrow> (store_value \<times> int option) option \<Rightarrow> (store_value \<times> int option) option" where
  "set_with m (Some (SetVal s, d)) = Some (SetVal (finsert m s), d)"
| "set_with m None = Some (SetVal {|m|}, None)"
| "set_with m other = other"

definition set_or_absent :: "(store_value \<times> int option) option \<Rightarrow> bool" where
  "set_or_absent v = (case v of None \<Rightarrow> True | Some (SetVal _, _) \<Rightarrow> True | _ \<Rightarrow> False)"

lemma set_or_absent_cases [consumes 1, case_names absent present]:
  "set_or_absent v \<Longrightarrow> (v = None \<Longrightarrow> P) \<Longrightarrow> (\<And>s d. v = Some (SetVal s, d) \<Longrightarrow> P) \<Longrightarrow> P"
  by (auto simp: set_or_absent_def split: option.splits prod.splits store_value.splits)

lemma smove_moves:
  assumes s: "\<not> poisoned st" and src: "keyspace t (inner st) a = Some (SetVal s, d)" and m: "m |\<in>| s"
    and dst: "set_or_absent (keyspace t (inner st) b)" and "a \<noteq> b"
  shows "fst (store_smove t t t t a b m st) = Ret (Ok True) \<and>
     keyspace t (inner (snd (store_smove t t t t a b m st))) = (keyspace t (inner st))
       (a := nonempty_set (s |-| {|m|}) d, b := set_with m (keyspace t (inner st) b))"
proof -
  have ga: "inner_get t a (inner st) = Some (SetVal s)" by (rule keyspace_inner_getD [OF src])
  obtain g1 where g1: "smove_take t a m (inner st) = (Ret (), g1)"
    "keyspace t g1 = (keyspace t (inner st))(a := nonempty_set (s |-| {|m|}) d)"
    using smove_take_keyspace [OF src, of m] keyspace_SomeD [OF src] by blast
  from dst show ?thesis
  proof (cases rule: set_or_absent_cases)
    case absent
    have "keyspace t g1 b = None" using absent g1(2) \<open>a \<noteq> b\<close> by simp
    from smove_put_keyspace(1) [OF this, of m] obtain g2 where "smove_put t b m g1 = (Ret (Ok True), g2)"
      "keyspace t g2 = (keyspace t g1)(b \<mapsto> (SetVal {|m|}, None))" by blast
    with absent s g1 ga m show ?thesis
      by (simp add: store_smove_def op_simps Let_def inner_get_keyspace [of t b])
  next
    case (present u du)
    have "keyspace t g1 b = Some (SetVal u, du)" using present g1(2) \<open>a \<noteq> b\<close> by simp
    from smove_put_keyspace(2) [OF this, of m] obtain g2 where "smove_put t b m g1 = (Ret (Ok True), g2)"
      "keyspace t g2 = (keyspace t g1)(b \<mapsto> (SetVal (finsert m u), du))" by blast
    with present s g1 ga m keyspace_inner_getD [OF present] show ?thesis
      by (simp add: store_smove_def op_simps Let_def)
  qed
qed

section \<open>Properties\<close>

text \<open>\<open>sadd\<close> answers how many of the given members were new, counting a repeated argument
  once, and leaves the union in the set with the deadline it had; an absent or expired key becomes a
  fresh set without a deadline; a value of another type is left alone.\<close>

theorem store_sadd_exact:
  assumes "\<not> poisoned s"
  shows "fst (store_sadd t k ms s) = Ret (case keyspace t (inner s) k of
         None \<Rightarrow> Ok (fcard (fset_of_list ms))
       | Some (SetVal u, d) \<Rightarrow> Ok (fcard (fset_of_list ms |-| u))
       | Some _ \<Rightarrow> Err WrongType) \<and>
     keyspace t (inner (snd (store_sadd t k ms s))) = (keyspace t (inner s))(k := (case keyspace t (inner s) k of
         None \<Rightarrow> Some (SetVal (fset_of_list ms), None)
       | Some (SetVal u, d) \<Rightarrow> Some (SetVal (u |\<union>| fset_of_list ms), d)
       | Some other \<Rightarrow> Some other))"
proof (cases "keyspace t (inner s) k")
  case None
  with assms show ?thesis
    by (simp add: store_sadd_def op_simps inner_get_keyspace keyspace_put Let_def)
next
  case (Some vd)
  with keyspace_SomeD [of t "inner s" k "fst vd" "snd vd"] assms show ?thesis
    by (auto simp: store_sadd_def op_simps insert_count_eq keyspace_update_data keyspace_inner_getD
        split: prod.splits store_value.splits)
qed

theorem store_sadd_exact_witness:
  "fst (store_sadd 0 ''k'' [''a'', ''b'', ''a''] store_new) = Ret (Ok 2)"
  using store_sadd_exact [of store_new 0 "''k''" "[''a'', ''b'', ''a'']"]
  by (simp add: store_new_def keyspace_def expired_def fcard_finsert_if)

text \<open>While the clock stands still, \<open>smove\<close> between two keys either moves the member (out of
  the source, which disappears with its deadline when it was the last one, and into the destination,
  which is created when absent and keeps its deadline otherwise) or leaves the store as it was,
  answering false for a missing source or member and an error for a value of another type.\<close>

theorem store_smove_exact:
  assumes "\<not> poisoned st" "a \<noteq> b"
  shows "(case keyspace t (inner st) a of
       None \<Rightarrow> store_smove t t t t a b m st = (Ret (Ok False), st)
     | Some (SetVal s, d) \<Rightarrow>
         if \<not> set_or_absent (keyspace t (inner st) b)
         then store_smove t t t t a b m st = (Ret (Err WrongType), st)
         else if m |\<in>| s
         then fst (store_smove t t t t a b m st) = Ret (Ok True) \<and>
           keyspace t (inner (snd (store_smove t t t t a b m st))) = (keyspace t (inner st))
             (a := nonempty_set (s |-| {|m|}) d, b := set_with m (keyspace t (inner st) b))
         else store_smove t t t t a b m st = (Ret (Ok False), st)
     | Some _ \<Rightarrow> store_smove t t t t a b m st = (Ret (Err WrongType), st))"
proof (cases "keyspace t (inner st) a")
  case None
  with assms show ?thesis by (simp add: store_smove_def op_simps inner_get_keyspace)
next
  case (Some vd)
  obtain v d where vd: "keyspace t (inner st) a = Some (v, d)" using Some by (cases vd) auto
  show ?thesis
  proof (cases "\<exists>s. v = SetVal s \<and> m |\<in>| s \<and> set_or_absent (keyspace t (inner st) b)")
    case True
    then obtain s where s: "v = SetVal s" "m |\<in>| s" "set_or_absent (keyspace t (inner st) b)" by blast
    from smove_moves [OF assms(1) vd [unfolded s(1)] s(2,3) assms(2)] vd s show ?thesis by simp
  next
    case False
    with vd keyspace_inner_getD [OF vd] assms show ?thesis
      by (auto simp: store_smove_def op_simps Let_def set_or_absent_def inner_get_keyspace
          split: store_value.splits option.splits prod.splits)
  qed
qed

theorem store_smove_exact_witness:
  "let st = snd (store_sadd 0 ''a'' [''x''] store_new)
   in fst (store_smove 0 0 0 0 ''a'' ''b'' ''x'' st) = Ret (Ok True)
     \<and> keyspace 0 (inner (snd (store_smove 0 0 0 0 ''a'' ''b'' ''x'' st))) ''a'' = None
     \<and> keyspace 0 (inner (snd (store_smove 0 0 0 0 ''a'' ''b'' ''x'' st))) ''b'' = Some (SetVal {|''x''|}, None)"
  using store_smove_exact [of "snd (store_sadd 0 ''a'' [''x''] store_new)" "''a''" "''b''" 0 "''x''"]
  by (simp add: store_sadd_def op_simps store_new_def inner_get_keyspace keyspace_put keyspace_empty
      set_or_absent_def nonempty_set_def Let_def)

text \<open>C35: a source set whose deadline passes between the membership check and the removal (between
  the first and the third clock reading) makes \<open>smove\<close> reach its \<open>unreachable!\<close> with the write
  lock held: the data is unchanged but the store is poisoned for good.\<close>

theorem store_smove_expiry_poisons:
  assumes "\<not> poisoned st" "keyspace t1 (inner st) a = Some (SetVal s, Some d)" "m |\<in>| s"
    "set_or_absent (keyspace t2 (inner st) b)" "d \<le> t3"
  shows "store_smove t1 t2 t3 t4 a b m st = (Panic, st\<lparr>poisoned := True\<rparr>)"
proof -
  have "inner_get t3 a (inner st) = None"
    using keyspace_SomeD [OF assms(2)] assms(5) by (simp add: inner_get_def)
  then have "smove_take t3 a m (inner st) = (Panic, inner st)" by (simp add: smove_take_def)
  with keyspace_inner_getD [OF assms(2)] assms show ?thesis
    by (cases rule: set_or_absent_cases [OF assms(4)])
      (auto simp: store_smove_def op_simps Let_def inner_get_keyspace)
qed

theorem store_smove_expiry_poisons_witness:
  "let st = snd (store_set_ttl ''a'' 10 (snd (store_sadd 0 ''a'' [''x''] store_new)))
   in store_smove 9 9 10 10 ''a'' ''b'' ''x'' st = (Panic, st\<lparr>poisoned := True\<rparr>)"
  using store_smove_expiry_poisons [of "snd (store_set_ttl ''a'' 10 (snd (store_sadd 0 ''a'' [''x''] store_new)))"
      9 "''a''" "{|''x''|}" 10 "''x''" 9 "''b''" 10 10]
  by (simp add: store_sadd_def store_set_ttl_def op_simps store_new_def inner_get_def keyspace_def expired_def
      inner_put_def set_or_absent_def Let_def)

text \<open>\<open>spop\<close> on a live set, asked for no more members than a \<open>Vec<String>\<close> can have room for, answers
  as many distinct members as asked for and available, and exactly those leave the set; when none
  remains the key goes with its deadline.\<close>

theorem store_spop_exact:
  assumes "\<not> poisoned st" "hash_order_ok e" "sample_ok e" "keyspace t (inner st) k = Some (SetVal s, d)"
    "vec_capacity_ok 24 (case c of None \<Rightarrow> 1 | Some n \<Rightarrow> n)"
  shows "\<exists>xs. fst (store_spop e t k c st) = Ret (Ok (Some xs)) \<and> distinct xs \<and> set xs \<subseteq> fset s
     \<and> length xs = min (case c of None \<Rightarrow> 1 | Some n \<Rightarrow> n) (fcard s)
     \<and> keyspace t (inner (snd (store_spop e t k c st))) =
         (keyspace t (inner st))(k := nonempty_set (s |-| fset_of_list xs) d)"
proof -
  let ?n = "case c of None \<Rightarrow> 1 | Some n \<Rightarrow> n"
  obtain xs where xs: "pick e 24 ?n (hash_order e s) = Ret xs" using pick_fits [OF assms(3,5)] by blast
  have res: "store_spop e t k c st = (Ret (Ok (Some xs)), st\<lparr>inner :=
      (if s |-| fset_of_list xs = {||} then inner_remove k (inner st)
       else (inner st)\<lparr>data := fmupd k (SetVal (s |-| fset_of_list xs)) (data (inner st))\<rparr>)\<rparr>)"
    using assms(1) xs keyspace_inner_getD [OF assms(4)]
    by (simp add: store_spop_def op_simps Let_def fold_fminus)
  have "keyspace t (inner (snd (store_spop e t k c st))) =
      (keyspace t (inner st))(k := nonempty_set (s |-| fset_of_list xs) d)"
    unfolding res snd_conv store_inner_sel by (rule keyspace_shrink [OF assms(4)])
  moreover have "fst (store_spop e t k c st) = Ret (Ok (Some xs))" unfolding res by simp
  ultimately show ?thesis
    using pick_distinct [OF assms(3) xs] pick_subset [OF assms(3) xs]
      pick_length [OF assms(3) xs] hash_order_props [OF assms(2)] fcard_hash_order [OF assms(2)]
    by metis
qed

theorem store_spop_exact_witness:
  "let st = snd (store_sadd 0 ''a'' [''x''] store_new)
   in \<exists>xs. fst (store_spop (demo_env 0 0) 0 ''a'' None st) = Ret (Ok (Some xs)) \<and> length xs = 1"
  using store_spop_exact [of "snd (store_sadd 0 ''a'' [''x''] store_new)" "demo_env 0 0" 0 "''a''"
      "{|''x''|}" None None]
  by (auto simp: store_sadd_def op_simps store_new_def inner_get_def keyspace_def expired_def
      inner_put_def Let_def fcard_finsert_if vec_capacity_ok_def)

text \<open>\<open>srem\<close> answers how many distinct members it removed and keeps the deadline, but, unlike
  \<open>spop\<close> and \<open>smove\<close>, it keeps the key of a set it has emptied.\<close>

theorem store_srem_keeps_key:
  assumes "\<not> poisoned st" "keyspace t (inner st) k = Some (SetVal s, d)"
  shows "fst (store_srem t k ms st) = Ret (Ok (fcard (s |\<inter>| fset_of_list ms))) \<and>
     keyspace t (inner (snd (store_srem t k ms st))) =
       (keyspace t (inner st))(k \<mapsto> (SetVal (s |-| fset_of_list ms), d))"
  using assms keyspace_SomeD [OF assms(2)] keyspace_inner_getD [OF assms(2)]
  by (simp add: store_srem_def op_simps remove_count_eq keyspace_update_data)

theorem store_srem_keeps_key_witness:
  "let st = snd (store_sadd 0 ''a'' [''x''] store_new)
   in keyspace 0 (inner (snd (store_srem 0 ''a'' [''x''] st))) ''a'' = Some (SetVal {||}, None)"
  using store_srem_keeps_key [of "snd (store_sadd 0 ''a'' [''x''] store_new)" 0 "''a''"
      "{|''x''|}" None "[''x'']"]
  by (simp add: store_sadd_def op_simps store_new_def inner_get_keyspace keyspace_put Let_def
      keyspace_empty)

end
