(* ===== verification/Exec_Base.thy ===== *)
theory Exec_Base
  imports Command Store_String Store_List Store_Set
begin

text \<open>
  What the executor functions share: replies built from store results, and the clock conversions of
  \<open>executor/mod.rs\<close>.  An executor function is a \<open>store_op\<close> that yields the RESP2 reply.
  Each store call it makes takes and releases the lock, so a function is a sequence of atomic
  calls; \<open>bind_op\<close> composes them for one client alone, and a panic between two calls leaves the
  store as the calls before it left it.
\<close>

named_theorems exec_defs \<open>definitions of the executor functions\<close>

section \<open>Replies\<close>

definition bulk_array :: "string list \<Rightarrow> resp_value" where
  "bulk_array xs = Array (Some (bulks xs))"

definition error_reply :: "store_error \<Rightarrow> resp_value" where
  "error_reply e = SimpleError (display_store_error e)"

text \<open>\<open>match r { Ok(x) => f(x), Err(e) => SimpleError(e.to_string()) }\<close>.\<close>

definition reply :: "('a \<Rightarrow> resp_value) \<Rightarrow> ('a, store_error) result store_op \<Rightarrow> resp_value store_op" where
  "reply f m = bind_op m (\<lambda>r. ret_op (case r of Ok x \<Rightarrow> f x | Err e \<Rightarrow> error_reply e))"

definition len_reply :: "nat \<Rightarrow> resp_value" where
  "len_reply n = Integer (as_i64 (int n))"

definition bool_reply :: "bool \<Rightarrow> resp_value" where
  "bool_reply b = Integer (if b then 1 else 0)"

definition ok_reply :: resp_value where
  "ok_reply = SimpleString ''OK''"

text \<open>A computation that does not touch the store.\<close>

definition pure_op :: "'a outcome \<Rightarrow> 'a store_op" where
  "pure_op m s = (m, s)"

lemmas [op_simps] = pure_op_def reply_def

section \<open>Clocks\<close>

text \<open>\<open>SystemTime::now().duration_since(UNIX_EPOCH).expect(..)\<close>, in whole seconds or
  milliseconds.\<close>

definition unix_secs :: "int \<Rightarrow> nat outcome" where
  "unix_secs unix_ns = (if unix_ns < 0 then Panic else Ret (nat (as_secs unix_ns)))"

definition unix_ms :: "int \<Rightarrow> nat outcome" where
  "unix_ms unix_ns = (if unix_ns < 0 then Panic else Ret (as_u64 (as_millis unix_ns)))"

text \<open>\<open>Instant + Duration\<close> panics where \<open>checked_add\<close> gives \<open>None\<close>.\<close>

definition instant_add :: "int \<Rightarrow> int \<Rightarrow> int outcome" where
  "instant_add t d = (case instant_checked_add t d of Some t' \<Rightarrow> Ret t' | None \<Rightarrow> Panic)"

definition unix_secs_to_instant :: "env \<Rightarrow> nat \<Rightarrow> int outcome" where
  "unix_secs_to_instant e deadline_secs =
     (case unix_secs (unix_at e 1) of
        Panic \<Rightarrow> Panic
      | Ret now_secs \<Rightarrow> instant_add (now_at e 1) (from_secs (deadline_secs - now_secs)))"

definition unix_ms_to_instant :: "env \<Rightarrow> nat \<Rightarrow> int outcome" where
  "unix_ms_to_instant e deadline_ms =
     (case unix_ms (unix_at e 1) of
        Panic \<Rightarrow> Panic
      | Ret now_ms \<Rightarrow> instant_add (now_at e 1) (from_millis (deadline_ms - now_ms)))"

section \<open>Sequencing\<close>

lemma bind_ret [simp]: "bind_op (ret_op x) f = f x"
  by (simp add: bind_op_def ret_op_def fun_eq_iff)

text \<open>A store operation that never changes the store.\<close>

definition read_only :: "'a store_op \<Rightarrow> bool" where
  "read_only m \<longleftrightarrow> (\<forall>s. snd (m s) = s)"

lemma read_only_intros:
  "read_only (ret_op x)" "read_only (with_read f)" "read_only (pure_op p)"
  "read_only m \<Longrightarrow> read_only (reply g m)"
  by (auto simp: read_only_def op_simps split: prod.splits outcome.splits) (metis snd_conv)+

lemma read_only_bind: "read_only m \<Longrightarrow> (\<And>x. read_only (f x)) \<Longrightarrow> read_only (bind_op m f)"
  by (auto simp: read_only_def bind_op_def split: prod.splits outcome.splits) (metis snd_conv)+

text \<open>An operation that keeps a predicate of the store, whether it returns or panics.\<close>

definition preserves :: "(store \<Rightarrow> bool) \<Rightarrow> 'a store_op \<Rightarrow> bool" where
  "preserves P m \<longleftrightarrow> (\<forall>s. P s \<longrightarrow> P (snd (m s)))"

lemma preserves_read_only: "read_only m \<Longrightarrow> preserves P m"
  by (simp add: preserves_def read_only_def)

lemma preserves_bind: "preserves P m \<Longrightarrow> (\<And>x. preserves P (f x)) \<Longrightarrow> preserves P (bind_op m f)"
  by (auto simp: preserves_def bind_op_def split: prod.splits outcome.splits)

lemma preserves_reply: "preserves P m \<Longrightarrow> preserves P (reply f m)"
  unfolding reply_def by (rule preserves_bind) (simp_all add: preserves_read_only read_only_intros)

lemma preserves_if: "preserves P m \<Longrightarrow> preserves P n \<Longrightarrow> preserves P (if b then m else n)"
  by simp

lemma read_only_if: "read_only m \<Longrightarrow> read_only n \<Longrightarrow> read_only (if b then m else n)"
  by simp

lemma store_reads_read_only:
  "read_only (store_get t k)" "read_only (store_exists t k)" "read_only (store_get_ttl k)"
  "read_only (store_keys e t p)" "read_only store_size" "read_only (store_get_string t k)"
  "read_only (store_mget now ks)" "read_only (store_llen t k)" "read_only (store_lindex t k i)"
  "read_only (store_lrange t k a b)" "read_only (store_smembers e t k)" "read_only (store_sismember e t k m)"
  "read_only (store_smismember t k ms)" "read_only (store_srandmember e t k c r)" "read_only (store_scard t k)"
  "read_only (store_sample_eviction_index e n)"
  unfolding store_defs
  by (intro read_only_intros read_only_bind | auto intro: read_only_intros split: result.splits)+

lemmas read_only_rules = read_only_intros read_only_bind read_only_if store_reads_read_only

section \<open>The lock\<close>

definition healthy :: "store \<Rightarrow> bool" where
  "healthy s = (\<not> poisoned s)"

lemma healthy_with_write:
  assumes "\<And>g. fst (f g) \<noteq> Panic"
  shows "preserves healthy (with_write f)"
  unfolding preserves_def
proof (intro allI impI)
  fix s :: store
  assume "healthy s"
  with assms [of "inner s"] show "healthy (snd (with_write f s))"
    by (cases "f (inner s)") (auto simp: healthy_def with_write_def split: outcome.splits)
qed

lemma writes_healthy:
  "preserves healthy (store_set k v)" "preserves healthy (store_delete k)"
  "preserves healthy (store_get_del t k)" "preserves healthy (store_set_ttl k d)"
  "preserves healthy (store_persist k)" "preserves healthy (store_delete_bulk ks)"
  "preserves healthy store_clear" "preserves healthy store_clear_async"
  "preserves healthy (store_mset kvs)" "preserves healthy (store_lset t k i y)"
  "preserves healthy (store_push_inner t k y c f)" "preserves healthy (store_sadd t k ms)"
  "preserves healthy (store_srem t k ms)"
  unfolding store_set_def store_delete_def store_get_del_def store_set_ttl_def store_persist_def
    store_delete_bulk_def store_clear_def store_clear_async_def store_mset_def store_lset_def
    store_push_inner_def store_sadd_def store_srem_def
  by (intro healthy_with_write; simp split: option.splits store_value.splits result.splits prod.splits add: Let_def)+

text \<open>\<open>spop\<close> keeps the lock healthy as long as the sample it asks for can be had.\<close>

definition spop_fits :: "nat option \<Rightarrow> bool" where
  "spop_fits count = vec_capacity_ok 24 (case count of None \<Rightarrow> 1 | Some n \<Rightarrow> n)"

lemma spop_healthy:
  assumes "sample_ok e" "spop_fits n"
  shows "preserves healthy (store_spop e t k n)"
  unfolding store_spop_def
proof (intro healthy_with_write, goal_cases)
  case (1 g)
  have "pick e 24 (case n of None \<Rightarrow> 1 | Some n \<Rightarrow> n) xs \<noteq> Panic" for xs :: "string list"
    using pick_fits [OF assms(1), of 24 "case n of None \<Rightarrow> 1 | Some n \<Rightarrow> n" xs] assms(2)
    by (auto simp: spop_fits_def)
  then show ?case by (auto simp: Let_def split: option.splits store_value.splits outcome.splits)
qed

lemma preserves_guarded:
  "preserves P m \<Longrightarrow> preserves P (\<lambda>s. if b then (Panic, s) else m s)"
  by (simp add: preserves_def)

lemma pop_healthy: "preserves healthy (store_pop_inner t k n f)"
  unfolding store_pop_inner_def
  by (intro preserves_guarded healthy_with_write) (simp split: option.splits store_value.splits prod.splits)

lemmas preserves_rules = preserves_bind preserves_reply preserves_if
  preserves_read_only [OF read_only_intros(1)] preserves_read_only [OF read_only_intros(3)]

end
