(* ===== verification/Exec_String.thy ===== *)
theory Exec_String
  imports Exec_Base
begin

text \<open>
  The string commands of \<open>executor/string.rs\<close>.  \<open>SET\<close> is kept in its two phases: the read
  that decides the condition and the writes that follow it are separate critical sections.
\<close>

section \<open>Commands\<close>

definition digest_value :: "env \<Rightarrow> string \<Rightarrow> nat" where
  "digest_value e v = xxh3 e v"

definition exec_get :: "env \<Rightarrow> string \<Rightarrow> resp_value store_op" where
  "exec_get e key = reply BulkString (store_get_string (now_at e 0) key)"

definition condition_met :: "env \<Rightarrow> set_condition option \<Rightarrow> string option \<Rightarrow> bool" where
  "condition_met e condition prev =
     (case condition of
        None \<Rightarrow> True
      | Some NX \<Rightarrow> prev = None
      | Some XX \<Rightarrow> prev \<noteq> None
      | Some (IfEq s) \<Rightarrow> (case prev of Some v \<Rightarrow> v = s | None \<Rightarrow> False)
      | Some (IfNe s) \<Rightarrow> (case prev of Some v \<Rightarrow> v \<noteq> s | None \<Rightarrow> False)
      | Some (IfDeq u) \<Rightarrow> (case prev of Some v \<Rightarrow> digest_value e v = u | None \<Rightarrow> False)
      | Some (IfDne u) \<Rightarrow> (case prev of Some v \<Rightarrow> digest_value e v \<noteq> u | None \<Rightarrow> False))"

definition invalid_set_expiry :: resp_value where
  "invalid_set_expiry = SimpleError (''ERR invalid expire time in '' @ [CHR 0x27] @ ''set'' @ [CHR 0x27] @ '' command'')"

text \<open>The \<open>match expiry\<close> after the value has been written: \<open>Some r\<close> is its early return.\<close>

definition set_expiry_step ::
    "env \<Rightarrow> string \<Rightarrow> set_expiry option \<Rightarrow> int option \<Rightarrow> resp_value option store_op" where
  "set_expiry_step e key expiry prev_ttl =
     (case expiry of
        None \<Rightarrow> ret_op None
      | Some (Ex_secs secs) \<Rightarrow>
          (case instant_checked_add (now_at e 1) (from_secs secs) of
             None \<Rightarrow> ret_op (Some invalid_set_expiry)
           | Some deadline \<Rightarrow> bind_op (store_set_ttl key deadline) (\<lambda>_. ret_op None))
      | Some (Px millis) \<Rightarrow>
          (case instant_checked_add (now_at e 1) (from_millis millis) of
             None \<Rightarrow> ret_op (Some invalid_set_expiry)
           | Some deadline \<Rightarrow> bind_op (store_set_ttl key deadline) (\<lambda>_. ret_op None))
      | Some (ExAt deadline_secs) \<Rightarrow>
          bind_op (pure_op (unix_secs_to_instant e deadline_secs)) (\<lambda>deadline.
            bind_op (store_set_ttl key deadline) (\<lambda>_. ret_op None))
      | Some (PxAt deadline_ms) \<Rightarrow>
          bind_op (pure_op (unix_ms_to_instant e deadline_ms)) (\<lambda>deadline.
            bind_op (store_set_ttl key deadline) (\<lambda>_. ret_op None))
      | Some KeepTtl \<Rightarrow>
          (case prev_ttl of
             Some ttl \<Rightarrow> bind_op (store_set_ttl key ttl) (\<lambda>_. ret_op None)
           | None \<Rightarrow> ret_op None))"

definition set_write ::
    "env \<Rightarrow> string \<Rightarrow> string \<Rightarrow> set_expiry option \<Rightarrow> resp_value option store_op" where
  "set_write e key value expiry =
     bind_op (if expiry = Some KeepTtl then store_get_ttl key else ret_op None) (\<lambda>prev_ttl.
       bind_op (store_set_string key value) (\<lambda>_. set_expiry_step e key expiry prev_ttl))"

definition set_finish ::
    "env \<Rightarrow> string \<Rightarrow> string \<Rightarrow> set_condition option \<Rightarrow> set_expiry option \<Rightarrow> bool
      \<Rightarrow> (string option, store_error) result \<Rightarrow> resp_value store_op" where
  "set_finish e key value condition expiry get r =
     (case r of
        Err x \<Rightarrow> ret_op (error_reply x)
      | Ok prev \<Rightarrow>
          (let met = condition_met e condition prev in
           bind_op (if met then set_write e key value expiry else ret_op None) (\<lambda>early.
             case early of
               Some resp \<Rightarrow> ret_op resp
             | None \<Rightarrow>
                 if get then ret_op (BulkString prev)
                 else if met then ret_op ok_reply
                 else ret_op (BulkString None))))"

definition exec_set ::
    "env \<Rightarrow> string \<Rightarrow> string \<Rightarrow> set_condition option \<Rightarrow> set_expiry option \<Rightarrow> bool \<Rightarrow> resp_value store_op" where
  "exec_set e key value condition expiry get =
     bind_op (store_get_string (now_at e 0) key) (set_finish e key value condition expiry get)"

definition exec_get_del :: "env \<Rightarrow> string \<Rightarrow> resp_value store_op" where
  "exec_get_del e key = reply BulkString (store_get_del_string (now_at e 0) key)"

definition exec_mget :: "env \<Rightarrow> string list \<Rightarrow> resp_value store_op" where
  "exec_mget e keys = bind_op (store_mget (now_at e) keys) (\<lambda>vs. ret_op (Array (Some (map BulkString vs))))"

definition exec_mset :: "(string \<times> string) list \<Rightarrow> resp_value store_op" where
  "exec_mset items = bind_op (store_mset items) (\<lambda>_. ret_op ok_reply)"

definition exec_strlen :: "env \<Rightarrow> string \<Rightarrow> resp_value store_op" where
  "exec_strlen e key = reply (\<lambda>v. case v of Some s \<Rightarrow> len_reply (length s) | None \<Rightarrow> Integer 0)
     (store_get_string (now_at e 0) key)"

definition exec_digest :: "env \<Rightarrow> string \<Rightarrow> resp_value store_op" where
  "exec_digest e key = reply (\<lambda>v. BulkString (map_option (\<lambda>s. show_hex16 (digest_value e s)) v))
     (store_get_string (now_at e 0) key)"

lemmas [exec_defs] = exec_get_def exec_set_def exec_get_del_def exec_mget_def exec_mset_def
  exec_strlen_def exec_digest_def

section \<open>What SET does\<close>

text \<open>When \<open>SET\<close> may write, as its documentation has it: \<open>NX\<close> on an absent key, all the others only on
  a present one, by its value or by the digest of its value.\<close>

definition may_set :: "(string \<Rightarrow> nat) \<Rightarrow> set_condition option \<Rightarrow> string option \<Rightarrow> bool" where
  "may_set digest c prev \<longleftrightarrow>
     c = None
   \<or> c = Some NX \<and> prev = None
   \<or> c = Some XX \<and> prev \<noteq> None
   \<or> (\<exists>s. c = Some (IfEq s) \<and> prev = Some s)
   \<or> (\<exists>s. c = Some (IfNe s) \<and> prev \<notin> {None, Some s})
   \<or> (\<exists>u. c = Some (IfDeq u) \<and> map_option digest prev = Some u)
   \<or> (\<exists>u. c = Some (IfDne u) \<and> map_option digest prev \<notin> {None, Some u})"

lemma may_set_simps [simp]:
  "may_set dg None prev" "may_set dg (Some NX) prev \<longleftrightarrow> prev = None" "may_set dg (Some XX) prev \<longleftrightarrow> prev \<noteq> None"
  "may_set dg (Some (IfEq s)) prev \<longleftrightarrow> prev = Some s"
  "may_set dg (Some (IfDeq u)) prev \<longleftrightarrow> map_option dg prev = Some u"
  by (simp_all add: may_set_def)

lemma condition_met_spec: "condition_met e c prev = may_set (xxh3 e) c prev"
  by (cases prev; cases c rule: option.exhaust [case_names none some]; simp add: condition_met_def may_set_def digest_value_def)
    (auto simp: digest_value_def split: set_condition.splits)

text \<open>The deadline a \<open>SET\<close> leaves, given the one the index had: an error value when the clock
  cannot represent it, a panic where the code adds without checking.  An \<open>Instant\<close> has an
  \<open>i64\<close> of seconds; a deadline that is given as a time of day counts from now, and from now at the
  earliest, and needs a system clock after the Unix epoch.\<close>

definition instant_fits :: "int \<Rightarrow> bool" where
  "instant_fits t \<longleftrightarrow> t < 9223372036854775808 * 1000000000"

definition set_deadline :: "env \<Rightarrow> set_expiry option \<Rightarrow> int option \<Rightarrow> (int option, resp_value) result outcome" where
  "set_deadline e x old =
     (let checked = (\<lambda>t. Ret (if instant_fits t then Ok (Some t) else Err invalid_set_expiry));
          unchecked = (\<lambda>t. if 0 \<le> unix_at e 1 \<and> instant_fits t then Ret (Ok (Some t)) else Panic)
      in case x of
           None \<Rightarrow> Ret (Ok None)
         | Some (Ex_secs n) \<Rightarrow> checked (now_at e 1 + 1000000000 * int n)
         | Some (Px n) \<Rightarrow> checked (now_at e 1 + 1000000 * int n)
         | Some (ExAt n) \<Rightarrow> unchecked (now_at e 1 + 1000000000 * max 0 (int n - unix_at e 1 div 1000000000))
         | Some (PxAt n) \<Rightarrow> unchecked (now_at e 1 + 1000000 * max 0 (int n - unix_at e 1 div 1000000 mod 2 ^ 64))
         | Some KeepTtl \<Rightarrow> Ret (Ok old))"

lemma instant_add_fits:
  "instant_checked_add t d = (if instant_fits (t + d) then Some (t + d) else None)"
  "instant_add t d = (if instant_fits (t + d) then Ret (t + d) else Panic)"
proof -
  show "instant_checked_add t d = (if instant_fits (t + d) then Some (t + d) else None)"
    by (auto simp: instant_checked_add_def instant_fits_def as_secs_def)
  then show "instant_add t d = (if instant_fits (t + d) then Ret (t + d) else Panic)"
    by (simp add: instant_add_def)
qed

lemma unix_deadlines:
  "unix_secs_to_instant e n =
     (let t = now_at e 1 + 1000000000 * max 0 (int n - unix_at e 1 div 1000000000)
      in if 0 \<le> unix_at e 1 \<and> instant_fits t then Ret t else Panic)"
  "unix_ms_to_instant e n =
     (let t = now_at e 1 + 1000000 * max 0 (int n - unix_at e 1 div 1000000 mod 2 ^ 64)
      in if 0 \<le> unix_at e 1 \<and> instant_fits t then Ret t else Panic)"
proof -
  have sub: "int (n - nat m) = max 0 (int n - m)" if "0 \<le> m" for m using that by auto
  have "0 \<le> unix_at e 1 \<Longrightarrow> 0 \<le> unix_at e 1 div 1000000000" by simp
  then show "unix_secs_to_instant e n =
     (let t = now_at e 1 + 1000000000 * max 0 (int n - unix_at e 1 div 1000000000)
      in if 0 \<le> unix_at e 1 \<and> instant_fits t then Ret t else Panic)"
    by (auto simp: unix_secs_to_instant_def unix_secs_def instant_add_fits from_secs_def as_secs_def sub Let_def mult.commute)
  show "unix_ms_to_instant e n =
     (let t = now_at e 1 + 1000000 * max 0 (int n - unix_at e 1 div 1000000 mod 2 ^ 64)
      in if 0 \<le> unix_at e 1 \<and> instant_fits t then Ret t else Panic)"
    by (auto simp: unix_ms_to_instant_def unix_ms_def as_u64_def instant_add_fits from_millis_def as_millis_def
        sub [OF pos_mod_sign] Let_def mult.commute)
qed

definition with_deadline :: "string \<Rightarrow> int option \<Rightarrow> store_inner \<Rightarrow> store_inner" where
  "with_deadline k d g =
     (case d of None \<Rightarrow> g | Some t \<Rightarrow> g\<lparr>expiry_index := fmupd k t (expiry_index g)\<rparr>)"

lemma set_ttl_after_put:
  "\<not> poisoned s \<Longrightarrow> inner s = inner_put k v g \<Longrightarrow>
     store_set_ttl k d s = (Ret True, s\<lparr>inner := with_deadline k (Some d) (inner_put k v g)\<rparr>)"
  by (simp add: store_set_ttl_def op_simps inner_put_def with_deadline_def)

lemma set_expiry_step_put:
  assumes "\<not> poisoned s" "inner s = inner_put k v g"
  shows "set_expiry_step e k x old s =
     (case set_deadline e x old of
        Panic \<Rightarrow> (Panic, s)
      | Ret (Err r) \<Rightarrow> (Ret (Some r), s)
      | Ret (Ok d) \<Rightarrow> (Ret None, s\<lparr>inner := with_deadline k d (inner_put k v g)\<rparr>))"
proof -
  have keep: "s\<lparr>inner := with_deadline k None (inner_put k v g)\<rparr> = s"
    using assms(2) by (simp add: with_deadline_def)
  have bind: "bind_op (store_set_ttl k d) (\<lambda>_. ret_op None) s =
      (Ret None, s\<lparr>inner := with_deadline k (Some d) (inner_put k v g)\<rparr>)" for d
    using set_ttl_after_put [OF assms] by (simp add: bind_op_def ret_op_def)
  have pure: "bind_op (pure_op m) f s = (case m of Panic \<Rightarrow> (Panic, s) | Ret a \<Rightarrow> f a s)"
    for m :: "int outcome" and f :: "int \<Rightarrow> resp_value option store_op"
    by (cases m) (simp_all add: bind_op_def pure_op_def)
  show ?thesis
    by (cases x; cases old)
      (auto simp: set_expiry_step_def set_deadline_def instant_add_fits unix_deadlines from_secs_def from_millis_def
        Let_def ret_op_def bind pure keep mult.commute split: set_expiry.splits option.splits outcome.splits)
qed

lemma set_write_exact:
  assumes "\<not> poisoned s"
  shows "set_write e k v x s =
     (case set_deadline e x (fmlookup (expiry_index (inner s)) k) of
        Panic \<Rightarrow> (Panic, s\<lparr>inner := inner_put k (Str v) (inner s)\<rparr>)
      | Ret (Err r) \<Rightarrow> (Ret (Some r), s\<lparr>inner := inner_put k (Str v) (inner s)\<rparr>)
      | Ret (Ok d) \<Rightarrow> (Ret None, s\<lparr>inner := with_deadline k d (inner_put k (Str v) (inner s))\<rparr>))"
proof -
  let ?old = "if x = Some KeepTtl then fmlookup (expiry_index (inner s)) k else None"
  have old: "set_deadline e x ?old = set_deadline e x (fmlookup (expiry_index (inner s)) k)"
    by (auto simp: set_deadline_def Let_def split: option.splits set_expiry.splits)
  have "set_write e k v x s = set_expiry_step e k x ?old (s\<lparr>inner := inner_put k (Str v) (inner s)\<rparr>)"
    using assms by (simp add: set_write_def store_get_ttl_def store_set_string_def store_set_def op_simps)
  also have "\<dots> = (case set_deadline e x ?old of
        Panic \<Rightarrow> (Panic, s\<lparr>inner := inner_put k (Str v) (inner s)\<rparr>)
      | Ret (Err r) \<Rightarrow> (Ret (Some r), s\<lparr>inner := inner_put k (Str v) (inner s)\<rparr>)
      | Ret (Ok d) \<Rightarrow> (Ret None, s\<lparr>inner := with_deadline k d (inner_put k (Str v) (inner s))\<rparr>))"
    using assms by (subst set_expiry_step_put) (auto split: outcome.splits result.splits)
  finally show ?thesis unfolding old .
qed

text \<open>The specification of \<open>SET\<close> over what the key holds when it is read.\<close>

definition set_spec ::
    "env \<Rightarrow> string \<Rightarrow> string \<Rightarrow> set_condition option \<Rightarrow> set_expiry option \<Rightarrow> bool \<Rightarrow> store_inner
      \<Rightarrow> resp_value outcome \<times> store_inner" where
  "set_spec e k v c x get g =
     (let written = inner_put k (Str v) g;
          answer = (\<lambda>prev.
            if \<not> may_set (xxh3 e) c prev then (Ret (BulkString (if get then prev else None)), g)
            else case set_deadline e x (fmlookup (expiry_index g) k) of
                   Panic \<Rightarrow> (Panic, written)
                 | Ret (Err r) \<Rightarrow> (Ret r, written)
                 | Ret (Ok d) \<Rightarrow>
                     (Ret (if get then BulkString prev else ok_reply), with_deadline k d written))
      in case inner_get (now_at e 0) k g of
           None \<Rightarrow> answer None
         | Some (Str prev) \<Rightarrow> answer (Some prev)
         | Some _ \<Rightarrow> (Ret (error_reply WrongType), g))"

lemma set_finish_exact:
  assumes "\<not> poisoned s"
  shows "set_finish e k v c x get (Ok prev) s =
     (if \<not> may_set (xxh3 e) c prev then (Ret (BulkString (if get then prev else None)), s)
      else case set_deadline e x (fmlookup (expiry_index (inner s)) k) of
             Panic \<Rightarrow> (Panic, s\<lparr>inner := inner_put k (Str v) (inner s)\<rparr>)
           | Ret (Err r) \<Rightarrow> (Ret r, s\<lparr>inner := inner_put k (Str v) (inner s)\<rparr>)
           | Ret (Ok d) \<Rightarrow> (Ret (if get then BulkString prev else ok_reply),
               s\<lparr>inner := with_deadline k d (inner_put k (Str v) (inner s))\<rparr>))"
  using set_write_exact [OF assms, of e k v x]
  by (auto simp: set_finish_def condition_met_spec Let_def bind_op_def ret_op_def split: outcome.splits result.splits)

lemma exec_set_spec:
  assumes "\<not> poisoned s"
  shows "exec_set e k v c x get s =
     (case set_spec e k v c x get (inner s) of (r, g) \<Rightarrow> (r, s\<lparr>inner := g\<rparr>))"
  using set_finish_exact [OF assms, of e k v c x get]
  by (auto simp: exec_set_def set_spec_def Let_def bind_op_def store_get_string_view [OF assms]
      set_finish_def [of _ _ _ _ _ _ "Err WrongType"] ret_op_def
      split: option.splits store_value.splits outcome.splits result.splits)

lemma keyspace_with_deadline:
  "keyspace t (with_deadline k d (inner_put k v g)) =
     (keyspace t g)(k := (case d of Some u \<Rightarrow> if u \<le> t then None else Some (v, Some u) | None \<Rightarrow> Some (v, None)))"
  by (auto simp: keyspace_def expired_def with_deadline_def inner_put_def fun_eq_iff split: option.splits)


lemma inner_get_put [simp]: "inner_get t k (inner_put k v g) = Some v"
  by (simp add: inner_get_keyspace keyspace_put)

section \<open>Properties\<close>

text \<open>C13: \<open>SET\<close>, run by one client alone, is its specification: the value of another type is
  refused and nothing changes; an unmet condition changes nothing; a met one stores the string and
  the deadline that its option names, and the reply is the old value with \<open>GET\<close>, \<open>OK\<close> without.
  A deadline that the clock cannot represent is reported (\<open>EX\<close>, \<open>PX\<close>) or panics (\<open>EXAT\<close>,
  \<open>PXAT\<close>) after the value has been stored.\<close>

theorem exec_set_exact:
  "\<not> poisoned s \<Longrightarrow> exec_set e k v c x get s =
     (case set_spec e k v c x get (inner s) of (r, g) \<Rightarrow> (r, s\<lparr>inner := g\<rparr>))"
  by (rule exec_set_spec)

theorem exec_set_exact_witness:
  "exec_set (demo_env 0 0) ''k'' ''v'' (Some NX) None False store_new =
     (Ret ok_reply, store_new\<lparr>inner := inner_put ''k'' (Str ''v'') (inner store_new)\<rparr>)"
  using exec_set_exact [of store_new "demo_env 0 0" "''k''" "''v''" "Some NX" None False]
  by (simp add: store_new_def set_spec_def inner_get_def set_deadline_def with_deadline_def)

text \<open>\<open>SET .. KEEPTTL\<close> on a key that has expired but was not evicted answers \<open>OK\<close> and loses
  the value: the stale deadline is put back, so the key is absent at every time from then on.\<close>

theorem set_keepttl_on_expired_is_lost:
  assumes "\<not> poisoned s" "expired (now_at e 0) k (inner s)" "now_at e 0 \<le> t"
  shows "fst (exec_set e k v None (Some KeepTtl) False s) = Ret ok_reply \<and>
     keyspace t (inner (snd (exec_set e k v None (Some KeepTtl) False s))) k = None"
proof -
  obtain d where d: "fmlookup (expiry_index (inner s)) k = Some d" "d \<le> now_at e 0"
    using assms(2) by (auto simp: expired_def split: option.splits)
  have "set_spec e k v None (Some KeepTtl) False (inner s) =
      (Ret ok_reply, with_deadline k (Some d) (inner_put k (Str v) (inner s)))"
    using assms(2) d by (simp add: set_spec_def inner_get_expired set_deadline_def)
  with exec_set_spec [OF assms(1), of e k v None "Some KeepTtl" False] d assms(3) show ?thesis
    by (simp add: keyspace_with_deadline)
qed

theorem set_keepttl_on_expired_is_lost_witness:
  "let s = snd (store_set_ttl ''k'' 5 (snd (store_set ''k'' (Str ''old'') store_new)))
   in fst (exec_set (demo_env 7 0) ''k'' ''new'' None (Some KeepTtl) False s) = Ret ok_reply
    \<and> keyspace 8 (inner (snd (exec_set (demo_env 7 0) ''k'' ''new'' None (Some KeepTtl) False s))) ''k'' = None"
  using set_keepttl_on_expired_is_lost [of
      "snd (store_set_ttl ''k'' 5 (snd (store_set ''k'' (Str ''old'') store_new)))" "demo_env 7 0" "''k''" 8 "''new''"]
  by (simp add: store_set_ttl_def store_set_def op_simps store_new_def inner_put_def expired_def)

text \<open>The digest that \<open>DIGEST\<close> prints is the one that \<open>IFDEQ\<close> understands: a \<open>SET\<close> guarded by
  it parses, finds its condition met while the value stands, and stores the new value.\<close>

theorem digest_guards_set:
  assumes "\<not> poisoned s" "inner_get (now_at e 0) k (inner s) = Some (Str old)" "xxh3 e old \<le> u64_max"
  shows "\<exists>d c. exec_digest e k s = (Ret (BulkString (Some d)), s) \<and>
     from_resp2 (request [''SET'', k, v, ''IFDEQ'', d]) = Ret (Ok (Set k v (Some c) None False)) \<and>
     exec_set e k v (Some c) None False s = (Ret ok_reply, s\<lparr>inner := inner_put k (Str v) (inner s)\<rparr>)"
proof -
  let ?d = "show_hex16 (xxh3 e old)" and ?c = "IfDeq (xxh3 e old)"
  have "exec_digest e k s = (Ret (BulkString (Some ?d)), s)"
    using assms by (simp add: exec_digest_def reply_def bind_op_def ret_op_def store_get_string_view digest_value_def)
  moreover have "from_resp2 (request [''SET'', k, v, ''IFDEQ'', ?d]) = Ret (Ok (Set k v (Some ?c) None False))"
    using parse_set_roundtrip [of "Some ?c" None k v False] assms(3)
    by (simp add: from_resp2_request parse_command_def condition_args_def expiry_args_def)
  moreover have "exec_set e k v (Some ?c) None False s = (Ret ok_reply, s\<lparr>inner := inner_put k (Str v) (inner s)\<rparr>)"
    using assms by (simp add: exec_set_spec set_spec_def set_deadline_def
        with_deadline_def)
  ultimately show ?thesis by blast
qed

theorem digest_guards_set_witness:
  "\<exists>d c. exec_digest (demo_env 0 0) ''k'' (snd (store_set ''k'' (Str ''old'') store_new)) =
        (Ret (BulkString (Some d)), snd (store_set ''k'' (Str ''old'') store_new)) \<and>
     from_resp2 (request [''SET'', ''k'', ''new'', ''IFDEQ'', d]) = Ret (Ok (Set ''k'' ''new'' (Some c) None False))"
  using digest_guards_set [of "snd (store_set ''k'' (Str ''old'') store_new)" "demo_env 0 0" "''k''" "''old''" "''new''"]
  by (auto simp: store_set_def op_simps store_new_def inner_get_def inner_put_def)

end
