(* ===== verification/Exec_List.thy ===== *)
theory Exec_List
  imports Exec_Base
begin

text \<open>
  The list commands of \<open>executor/list.rs\<close>.  A push of several elements is a loop of store calls,
  one critical section per element; the store operation it calls is a parameter, as in the code.
\<close>

section \<open>Commands\<close>

type_synonym push_fn = "int \<Rightarrow> string \<Rightarrow> string \<Rightarrow> (nat, store_error) result store_op"
type_synonym pop_fn = "int \<Rightarrow> string \<Rightarrow> nat \<Rightarrow> (string list option, store_error) result store_op"

text \<open>The \<open>for\<close> loop of \<open>push_inner\<close>: the \<open>i\<close>-th call reads the clock at place \<open>i\<close>.\<close>

fun push_loop :: "(nat \<Rightarrow> int) \<Rightarrow> push_fn \<Rightarrow> string \<Rightarrow> nat \<Rightarrow> string list \<Rightarrow> nat \<Rightarrow> resp_value store_op" where
  "push_loop now push_fn key i [] n = ret_op (len_reply n)"
| "push_loop now push_fn key i (element # elements) n =
     bind_op (push_fn (now i) key element) (\<lambda>r.
       case r of
         Ok n' \<Rightarrow> push_loop now push_fn key (Suc i) elements n'
       | Err e \<Rightarrow> ret_op (error_reply e))"

definition exec_push_inner :: "env \<Rightarrow> string \<Rightarrow> string list \<Rightarrow> push_fn \<Rightarrow> resp_value store_op" where
  "exec_push_inner e key elements push_fn = push_loop (now_at e) push_fn key 0 elements 0"

definition exec_lpush :: "env \<Rightarrow> string \<Rightarrow> string list \<Rightarrow> resp_value store_op" where
  "exec_lpush e key elements = exec_push_inner e key elements store_lpush"

definition exec_rpush :: "env \<Rightarrow> string \<Rightarrow> string list \<Rightarrow> resp_value store_op" where
  "exec_rpush e key elements = exec_push_inner e key elements store_rpush"

definition exec_lpushx :: "env \<Rightarrow> string \<Rightarrow> string list \<Rightarrow> resp_value store_op" where
  "exec_lpushx e key elements = exec_push_inner e key elements store_lpushx"

definition exec_rpushx :: "env \<Rightarrow> string \<Rightarrow> string list \<Rightarrow> resp_value store_op" where
  "exec_rpushx e key elements = exec_push_inner e key elements store_rpushx"

definition pop_reply :: "bool \<Rightarrow> string list option \<Rightarrow> resp_value" where
  "pop_reply has_count r =
     (case r of
        Some elements \<Rightarrow>
          if \<not> has_count then BulkString (case elements of [] \<Rightarrow> None | x # _ \<Rightarrow> Some x)
          else bulk_array elements
      | None \<Rightarrow> BulkString None)"

definition exec_pop_inner :: "env \<Rightarrow> string \<Rightarrow> nat option \<Rightarrow> pop_fn \<Rightarrow> resp_value store_op" where
  "exec_pop_inner e key count pop_fn =
     reply (pop_reply (count \<noteq> None))
       (pop_fn (now_at e 0) key (case count of None \<Rightarrow> 1 | Some n \<Rightarrow> n))"

definition exec_lpop :: "env \<Rightarrow> string \<Rightarrow> nat option \<Rightarrow> resp_value store_op" where
  "exec_lpop e key count = exec_pop_inner e key count store_lpop"

definition exec_rpop :: "env \<Rightarrow> string \<Rightarrow> nat option \<Rightarrow> resp_value store_op" where
  "exec_rpop e key count = exec_pop_inner e key count store_rpop"

definition exec_lset :: "env \<Rightarrow> string \<Rightarrow> int \<Rightarrow> string \<Rightarrow> resp_value store_op" where
  "exec_lset e key index element = reply (\<lambda>_. ok_reply) (store_lset (now_at e 0) key index element)"

definition exec_llen :: "env \<Rightarrow> string \<Rightarrow> resp_value store_op" where
  "exec_llen e key = reply len_reply (store_llen (now_at e 0) key)"

definition exec_lindex :: "env \<Rightarrow> string \<Rightarrow> int \<Rightarrow> resp_value store_op" where
  "exec_lindex e key index = reply BulkString (store_lindex (now_at e 0) key index)"

definition exec_lrange :: "env \<Rightarrow> string \<Rightarrow> int \<Rightarrow> int \<Rightarrow> resp_value store_op" where
  "exec_lrange e key start stop = reply bulk_array (store_lrange (now_at e 0) key start stop)"

lemmas [exec_defs] = exec_lpush_def exec_rpush_def exec_lpushx_def exec_rpushx_def exec_push_inner_def
  exec_lpop_def exec_rpop_def exec_pop_inner_def exec_lset_def exec_llen_def exec_lindex_def
  exec_lrange_def

section \<open>Pushing a batch\<close>

lemma keyspace_new: "keyspace t (inner store_new) k = None"
  by (simp add: store_new_def keyspace_def)

text \<open>What \<open>push_inner\<close> needs of the store operation it is given: on an absent key it creates a
  one-element list or does nothing, on a list it pushes, on another value it fails.\<close>

locale push_operation =
  fixes op :: push_fn and push :: "string list \<Rightarrow> string \<Rightarrow> string list" and create :: bool
  assumes op_absent: "\<not> poisoned s \<Longrightarrow> inner_get t k (inner s) = None \<Longrightarrow>
      op t k x s = (if create then (Ret (Ok 1), s\<lparr>inner := inner_put k (ListVal [x]) (inner s)\<rparr>) else (Ret (Ok 0), s))"
    and op_list: "\<not> poisoned s \<Longrightarrow> inner_get t k (inner s) = Some (ListVal l) \<Longrightarrow>
      op t k x s = (Ret (Ok (length (push l x))),
        s\<lparr>inner := (inner s)\<lparr>data := fmupd k (ListVal (push l x)) (data (inner s))\<rparr>\<rparr>)"
    and op_other: "\<not> poisoned s \<Longrightarrow> inner_get t k (inner s) = Some v \<Longrightarrow> (\<And>l. v \<noteq> ListVal l) \<Longrightarrow>
      op t k x s = (Ret (Err WrongType), s)"
    and push_empty: "push [] x = [x]"
    and push_length: "length (push l x) = Suc (length l)"
begin

lemma loop_list:
  assumes "\<not> poisoned s" "keyspace t (inner s) k = Some (ListVal l, d)" "now = (\<lambda>_. t)" "n = length l \<or> xs \<noteq> []"
  shows "\<exists>s'. push_loop now op k i xs n s = (Ret (len_reply (length l + length xs)), s') \<and> \<not> poisoned s' \<and>
     keyspace t (inner s') = (keyspace t (inner s))(k \<mapsto> (ListVal (foldl push l xs), d))"
  using assms
proof (induction xs arbitrary: s l i n)
  case Nil
  then show ?case by (auto simp: ret_op_def)
next
  case (Cons x xs)
  let ?s = "s\<lparr>inner := (inner s)\<lparr>data := fmupd k (ListVal (push l x)) (data (inner s))\<rparr>\<rparr>"
  have live: "\<not> expired t k (inner s)" "fmlookup (expiry_index (inner s)) k = d"
    using keyspace_SomeD [OF Cons.prems(2)] by auto
  have ks: "keyspace t (inner ?s) = (keyspace t (inner s))(k \<mapsto> (ListVal (push l x), d))"
    using live by (simp add: keyspace_update_data)
  have step: "push_loop now op k i (x # xs) n s = push_loop now op k (Suc i) xs (length (push l x)) ?s"
    using op_list [OF Cons.prems(1) keyspace_inner_get [OF Cons.prems(2)]] Cons.prems(3)
    by (simp add: bind_op_def)
  have "\<not> poisoned ?s" "keyspace t (inner ?s) k = Some (ListVal (push l x), d)"
    using Cons.prems(1) ks by simp_all
  from Cons.IH [OF this Cons.prems(3) disjI1 [OF refl], of "Suc i"] obtain s' where
    "push_loop now op k (Suc i) xs (length (push l x)) ?s = (Ret (len_reply (length (push l x) + length xs)), s')"
    "\<not> poisoned s'" "keyspace t (inner s') = (keyspace t (inner ?s))(k \<mapsto> (ListVal (foldl push (push l x) xs), d))"
    by blast
  then show ?case unfolding step ks by (auto simp: push_length fun_eq_iff)
qed

lemma loop_absent:
  assumes "\<not> poisoned s" "keyspace t (inner s) k = None" "now = (\<lambda>_. t)" "xs \<noteq> []"
  shows "\<exists>s'. push_loop now op k i xs n s = (Ret (len_reply (if create then length xs else 0)), s') \<and>
     keyspace t (inner s') = (if create then (keyspace t (inner s))(k \<mapsto> (ListVal (foldl push [] xs), None))
       else keyspace t (inner s))"
proof (cases create)
  case True
  obtain x ys where xs: "xs = x # ys" using assms(4) by (cases xs) auto
  let ?s = "s\<lparr>inner := inner_put k (ListVal [x]) (inner s)\<rparr>"
  have step: "push_loop now op k i xs n s = push_loop now op k (Suc i) ys 1 ?s"
    using op_absent [OF assms(1), of t k x] assms True xs by (simp add: bind_op_def inner_get_keyspace)
  have ks: "keyspace t (inner ?s) = (keyspace t (inner s))(k \<mapsto> (ListVal [x], None))"
    by (simp add: keyspace_put)
  then have "\<not> poisoned ?s" "keyspace t (inner ?s) k = Some (ListVal [x], None)" using assms(1) by simp_all
  from loop_list [OF this assms(3), of 1 ys "Suc i"] obtain s' where
    "push_loop now op k (Suc i) ys 1 ?s = (Ret (len_reply (1 + length ys)), s')"
    "keyspace t (inner s') = (keyspace t (inner ?s))(k \<mapsto> (ListVal (foldl push [x] ys), None))" by auto
  with True xs show ?thesis unfolding step ks by (simp add: push_empty)
next
  case False
  have "push_loop now op k i ys 0 s = (Ret (len_reply 0), s)" for ys i
  proof (induction ys arbitrary: i)
    case (Cons y ys)
    then show ?case using op_absent [OF assms(1), of t k y] assms(2,3) False
      by (simp add: bind_op_def inner_get_keyspace)
  qed (simp add: ret_op_def)
  moreover obtain x ys where xs: "xs = x # ys" using assms(4) by (cases xs) auto
  ultimately show ?thesis using op_absent [OF assms(1), of t k x] assms(2,3) False
    by (simp add: bind_op_def inner_get_keyspace)
qed

lemma loop_other:
  assumes "\<not> poisoned s" "inner_get t k (inner s) = Some v" "\<And>l. v \<noteq> ListVal l" "now = (\<lambda>_. t)" "xs \<noteq> []"
  shows "push_loop now op k i xs n s = (Ret (error_reply WrongType), s)"
  using assms op_other [OF assms(1-3)] by (cases xs) (simp_all add: bind_op_def ret_op_def)

text \<open>The reply and the keyspace after a batch, by what the key held.\<close>

lemma push_batch:
  assumes "\<not> poisoned s" "now = (\<lambda>_. t)" "xs \<noteq> []"
  shows "(case keyspace t (inner s) k of
       None \<Rightarrow> fst (push_loop now op k i xs n s) = Ret (len_reply (if create then length xs else 0)) \<and>
         keyspace t (inner (snd (push_loop now op k i xs n s))) =
           (if create then (keyspace t (inner s))(k \<mapsto> (ListVal (foldl push [] xs), None)) else keyspace t (inner s))
     | Some (ListVal l, d) \<Rightarrow> fst (push_loop now op k i xs n s) = Ret (len_reply (length l + length xs)) \<and>
         keyspace t (inner (snd (push_loop now op k i xs n s))) =
           (keyspace t (inner s))(k \<mapsto> (ListVal (foldl push l xs), d))
     | Some _ \<Rightarrow> push_loop now op k i xs n s = (Ret (error_reply WrongType), s))"
proof (cases "keyspace t (inner s) k")
  case None
  from loop_absent [OF assms(1) None assms(2,3), of i n] None show ?thesis by auto
next
  case (Some vd)
  obtain v d where vd: "keyspace t (inner s) k = Some (v, d)" using Some by (cases vd) auto
  show ?thesis
  proof (cases "\<exists>l. v = ListVal l")
    case True
    then obtain l where l: "v = ListVal l" ..
    from loop_list [OF assms(1) vd [unfolded l] assms(2), of n xs i] assms(3) vd l show ?thesis by auto
  next
    case False
    then show ?thesis
      using loop_other [OF assms(1) keyspace_inner_get [OF vd] _ assms(2,3), of i n] vd
      by (cases v) simp_all
  qed
qed

end

interpretation op_lpush: push_operation store_lpush push_front True
  by unfold_locales (simp_all add: store_lpush_def store_push_inner_cases push_front_def)

interpretation op_rpush: push_operation store_rpush push_back True
  by unfold_locales (simp_all add: store_rpush_def store_push_inner_cases push_back_def)

interpretation op_lpushx: push_operation store_lpushx push_front False
  by unfold_locales (simp_all add: store_lpushx_def store_push_inner_cases push_front_def)

interpretation op_rpushx: push_operation store_rpushx push_back False
  by unfold_locales (simp_all add: store_rpushx_def store_push_inner_cases push_back_def)

lemma foldl_push: "foldl push_front l xs = rev xs @ l" "foldl push_back l xs = l @ xs"
  by (induction xs arbitrary: l) (simp_all add: push_front_def push_back_def)

section \<open>Properties\<close>

text \<open>While the clock stands still, \<open>LPUSH\<close> of a batch answers the new length and leaves the
  batch reversed before the old list, whose deadline is kept; an absent or expired key becomes a
  list without a deadline; another value is refused and nothing changes.  \<open>RPUSH\<close> leaves the batch
  in order after the old list.\<close>

theorem exec_push_exact:
  assumes "\<not> poisoned s" "\<And>i. now_at e i = t" "xs \<noteq> []"
  shows "(case keyspace t (inner s) k of
       None \<Rightarrow>
         fst (exec_lpush e k xs s) = Ret (len_reply (length xs)) \<and>
         keyspace t (inner (snd (exec_lpush e k xs s))) = (keyspace t (inner s))(k \<mapsto> (ListVal (rev xs), None)) \<and>
         fst (exec_rpush e k xs s) = Ret (len_reply (length xs)) \<and>
         keyspace t (inner (snd (exec_rpush e k xs s))) = (keyspace t (inner s))(k \<mapsto> (ListVal xs, None))
     | Some (ListVal l, d) \<Rightarrow>
         fst (exec_lpush e k xs s) = Ret (len_reply (length l + length xs)) \<and>
         keyspace t (inner (snd (exec_lpush e k xs s))) = (keyspace t (inner s))(k \<mapsto> (ListVal (rev xs @ l), d)) \<and>
         fst (exec_rpush e k xs s) = Ret (len_reply (length l + length xs)) \<and>
         keyspace t (inner (snd (exec_rpush e k xs s))) = (keyspace t (inner s))(k \<mapsto> (ListVal (l @ xs), d))
     | Some _ \<Rightarrow>
         exec_lpush e k xs s = (Ret (error_reply WrongType), s) \<and>
         exec_rpush e k xs s = (Ret (error_reply WrongType), s))"
  using op_lpush.push_batch [OF assms(1) ext [of "now_at e" "\<lambda>_. t", OF assms(2)] assms(3), of k 0 0]
    op_rpush.push_batch [OF assms(1) ext [of "now_at e" "\<lambda>_. t", OF assms(2)] assms(3), of k 0 0]
  by (auto simp: exec_lpush_def exec_rpush_def exec_push_inner_def foldl_push
      split: option.splits prod.splits store_value.splits)

theorem exec_push_exact_witness:
  "fst (exec_rpush (demo_env 3 0) ''k'' [''a'', ''b''] store_new) = Ret (len_reply (Suc (Suc 0)))"
  using exec_push_exact [of store_new "demo_env 3 0" 3 "[''a'', ''b'']" "''k''"]
  by (simp add: keyspace_new) (simp add: store_new_def)

end
