(* ===== verification/Exec_Set.thy ===== *)
theory Exec_Set
  imports Exec_Base
begin

text \<open>The set commands of \<open>executor/set.rs\<close>.\<close>

section \<open>Commands\<close>

definition exec_sadd :: "env \<Rightarrow> string \<Rightarrow> string list \<Rightarrow> resp_value store_op" where
  "exec_sadd e key members = reply len_reply (store_sadd (now_at e 0) key members)"

definition exec_smembers :: "env \<Rightarrow> string \<Rightarrow> resp_value store_op" where
  "exec_smembers e key = reply bulk_array (store_smembers e (now_at e 0) key)"

definition exec_sismember :: "env \<Rightarrow> string \<Rightarrow> string \<Rightarrow> resp_value store_op" where
  "exec_sismember e key member = reply bool_reply (store_sismember e (now_at e 0) key member)"

definition exec_smismember :: "env \<Rightarrow> string \<Rightarrow> string list \<Rightarrow> resp_value store_op" where
  "exec_smismember e key members =
     reply (\<lambda>flags. Array (Some (map bool_reply flags))) (store_smismember (now_at e 0) key members)"

text \<open>\<open>Vec::pop\<close>: the last element.\<close>

definition vec_pop :: "'a list \<Rightarrow> 'a option" where
  "vec_pop xs = (if xs = [] then None else Some (last xs))"

definition exec_srandmember :: "env \<Rightarrow> string \<Rightarrow> int option \<Rightarrow> resp_value store_op" where
  "exec_srandmember e key count =
     (let amount = map_option (\<lambda>c. nat \<bar>c\<bar>) count;
          allow_repetition = (case count of Some c \<Rightarrow> c < 0 | None \<Rightarrow> False)
      in reply (\<lambda>members. if count \<noteq> None then bulk_array members else BulkString (vec_pop members))
           (store_srandmember e (now_at e 0) key amount allow_repetition))"

definition exec_scard :: "env \<Rightarrow> string \<Rightarrow> resp_value store_op" where
  "exec_scard e key = reply len_reply (store_scard (now_at e 0) key)"

definition exec_smove :: "env \<Rightarrow> string \<Rightarrow> string \<Rightarrow> string \<Rightarrow> resp_value store_op" where
  "exec_smove e source destination member = reply bool_reply
     (store_smove (now_at e 0) (now_at e 1) (now_at e 2) (now_at e 3) source destination member)"

definition exec_spop :: "env \<Rightarrow> string \<Rightarrow> nat option \<Rightarrow> resp_value store_op" where
  "exec_spop e key count =
     reply (\<lambda>r. case r of
              None \<Rightarrow> if count \<noteq> None then Array (Some []) else BulkString None
            | Some members \<Rightarrow>
                if count \<noteq> None then bulk_array members else BulkString (vec_pop members))
       (store_spop e (now_at e 0) key count)"

definition exec_srem :: "env \<Rightarrow> string \<Rightarrow> string list \<Rightarrow> resp_value store_op" where
  "exec_srem e key members = reply len_reply (store_srem (now_at e 0) key members)"

lemmas [exec_defs] = exec_sadd_def exec_smembers_def exec_sismember_def exec_smismember_def
  exec_srandmember_def exec_scard_def exec_smove_def exec_spop_def exec_srem_def

end
