(* ===== verification/Executor.thy ===== *)
theory Executor
  imports Exec_String Exec_List Exec_Set
begin

text \<open>
  The executor of \<open>executor/mod.rs\<close>: the commands that work on any value, and \<open>execute\<close>, the
  dispatch of a parsed command.  The store is threaded through; the configuration flag is the
  executor's only own state.
\<close>

section \<open>Generic commands\<close>

record executor =
  lazyfree_lazy_user_flush :: bool

definition exec_ping :: "string option \<Rightarrow> resp_value store_op" where
  "exec_ping message =
     ret_op (case message of None \<Rightarrow> SimpleString ''PONG'' | Some msg \<Rightarrow> BulkString (Some msg))"

text \<open>\<open>keys.iter().map(..).sum()\<close>: one store call per key, in order.\<close>

fun count_loop :: "(nat \<Rightarrow> string \<Rightarrow> bool store_op) \<Rightarrow> nat \<Rightarrow> string list \<Rightarrow> int \<Rightarrow> resp_value store_op" where
  "count_loop f i [] count = ret_op (Integer count)"
| "count_loop f i (k # ks) count =
     bind_op (f i k) (\<lambda>b. count_loop f (Suc i) ks (count + (if b then 1 else 0)))"

definition exec_delete :: "string list \<Rightarrow> resp_value store_op" where
  "exec_delete keys = count_loop (\<lambda>_. store_delete) 0 keys 0"

definition exec_exists :: "env \<Rightarrow> string list \<Rightarrow> resp_value store_op" where
  "exec_exists e keys = count_loop (\<lambda>i. store_exists (now_at e i)) 0 keys 0"

definition resolve_expiry :: "env \<Rightarrow> string \<Rightarrow> (int \<Rightarrow> int outcome) \<Rightarrow> resp_value store_op" where
  "resolve_expiry e key f =
     bind_op (store_get_ttl key) (\<lambda>expiry.
       case expiry of
         Some instant \<Rightarrow>
           (case checked_duration_since instant (now_at e 0) of
              Some remaining \<Rightarrow> bind_op (pure_op (f remaining)) (\<lambda>n. ret_op (Integer n))
            | None \<Rightarrow> ret_op (Integer (- 2)))
       | None \<Rightarrow>
           bind_op (store_exists (now_at e 0) key) (\<lambda>b. ret_op (Integer (if b then - 1 else - 2))))"

definition exec_ttl :: "env \<Rightarrow> string \<Rightarrow> resp_value store_op" where
  "exec_ttl e key = resolve_expiry e key (\<lambda>r. Ret (as_i64 (as_secs r)))"

definition exec_pttl :: "env \<Rightarrow> string \<Rightarrow> resp_value store_op" where
  "exec_pttl e key = resolve_expiry e key (\<lambda>r. Ret (as_i64 (as_millis r)))"

definition i64_add :: "bool \<Rightarrow> int \<Rightarrow> int \<Rightarrow> int outcome" where
  "i64_add checks a b =
     (if as_i64 (a + b) = a + b then Ret (a + b)
      else if checks then Panic else Ret (as_i64 (a + b)))"

definition exec_expire_time :: "env \<Rightarrow> string \<Rightarrow> resp_value store_op" where
  "exec_expire_time e key = resolve_expiry e key (\<lambda>r.
     if unix_at e 0 < 0 then Panic
     else let now_secs = as_i64 (as_secs (unix_at e 0))
          in i64_add (overflow_checks e) now_secs (as_i64 (as_secs r)))"

definition exec_pexpire_time :: "env \<Rightarrow> string \<Rightarrow> resp_value store_op" where
  "exec_pexpire_time e key = resolve_expiry e key (\<lambda>r.
     if unix_at e 0 < 0 then Panic
     else let now_ms = as_i64 (as_millis (unix_at e 0))
          in i64_add (overflow_checks e) now_ms (as_i64 (as_millis r)))"

definition exec_persist :: "string \<Rightarrow> resp_value store_op" where
  "exec_persist key = bind_op (store_persist key) (\<lambda>removed. ret_op (bool_reply removed))"

definition invalid_expire :: resp_value where
  "invalid_expire = SimpleError (''ERR invalid expire time in '' @ [CHR 0x27] @ ''expire'' @ [CHR 0x27] @ '' command'')"

definition exec_expire :: "env \<Rightarrow> string \<Rightarrow> nat \<Rightarrow> resp_value store_op" where
  "exec_expire e key seconds =
     (case instant_checked_add (now_at e 0) (from_secs seconds) of
        None \<Rightarrow> ret_op invalid_expire
      | Some deadline \<Rightarrow> bind_op (store_set_ttl key deadline) (\<lambda>b. ret_op (bool_reply b)))"

definition exec_pexpire :: "env \<Rightarrow> string \<Rightarrow> nat \<Rightarrow> resp_value store_op" where
  "exec_pexpire e key milliseconds =
     (case instant_checked_add (now_at e 0) (from_millis milliseconds) of
        None \<Rightarrow> ret_op invalid_expire
      | Some deadline \<Rightarrow> bind_op (store_set_ttl key deadline) (\<lambda>b. ret_op (bool_reply b)))"

definition exec_expire_at :: "env \<Rightarrow> string \<Rightarrow> nat \<Rightarrow> resp_value store_op" where
  "exec_expire_at e key deadline_secs =
     bind_op (pure_op (unix_secs (unix_at e 0))) (\<lambda>now_secs.
       if deadline_secs \<le> now_secs
       then bind_op (store_delete key) (\<lambda>_. ret_op (Integer 0))
       else bind_op (pure_op (unix_secs_to_instant e deadline_secs)) (\<lambda>deadline.
              bind_op (store_set_ttl key deadline) (\<lambda>b. ret_op (bool_reply b))))"

definition exec_pexpire_at :: "env \<Rightarrow> string \<Rightarrow> nat \<Rightarrow> resp_value store_op" where
  "exec_pexpire_at e key deadline_ms =
     bind_op (pure_op (unix_ms (unix_at e 0))) (\<lambda>now_ms.
       if deadline_ms \<le> now_ms
       then bind_op (store_delete key) (\<lambda>_. ret_op (Integer 0))
       else bind_op (pure_op (unix_ms_to_instant e deadline_ms)) (\<lambda>deadline.
              bind_op (store_set_ttl key deadline) (\<lambda>b. ret_op (bool_reply b))))"

definition exec_keys :: "env \<Rightarrow> string \<Rightarrow> resp_value store_op" where
  "exec_keys e pattern = bind_op (store_keys e (now_at e 0) pattern) (\<lambda>ks. ret_op (bulk_array ks))"

definition exec_select :: "nat \<Rightarrow> resp_value store_op" where
  "exec_select index =
     (if index \<noteq> 0 then ret_op (SimpleError ''ERR DB index is out of range'') else ret_op ok_reply)"

definition exec_db_size :: "resp_value store_op" where
  "exec_db_size = bind_op store_size (\<lambda>n. ret_op (len_reply n))"

definition exec_flush_db :: "executor \<Rightarrow> flush_mode option \<Rightarrow> resp_value store_op" where
  "exec_flush_db x mode =
     bind_op
       (case mode of
          Some Sync \<Rightarrow> store_clear
        | Some Async \<Rightarrow> store_clear_async
        | None \<Rightarrow> if lazyfree_lazy_user_flush x then store_clear_async else store_clear)
       (\<lambda>_. ret_op ok_reply)"

lemmas [exec_defs] = exec_ping_def exec_delete_def exec_exists_def resolve_expiry_def exec_ttl_def
  exec_pttl_def exec_expire_time_def exec_pexpire_time_def exec_persist_def exec_expire_def
  exec_pexpire_def exec_expire_at_def exec_pexpire_at_def exec_keys_def exec_select_def
  exec_db_size_def exec_flush_db_def

section \<open>Dispatch\<close>

fun execute :: "executor \<Rightarrow> env \<Rightarrow> command \<Rightarrow> resp_value store_op" where
  "execute x e (Ping message) = exec_ping message"
| "execute x e (Get key) = exec_get e key"
| "execute x e (Set key value condition expiry get) = exec_set e key value condition expiry get"
| "execute x e (Delete keys) = exec_delete keys"
| "execute x e (GetDel key) = exec_get_del e key"
| "execute x e (Exists keys) = exec_exists e keys"
| "execute x e (MGet keys) = exec_mget e keys"
| "execute x e (MSet items) = exec_mset items"
| "execute x e (StrLen key) = exec_strlen e key"
| "execute x e (LPush key elements) = exec_lpush e key elements"
| "execute x e (RPush key elements) = exec_rpush e key elements"
| "execute x e (LPushX key elements) = exec_lpushx e key elements"
| "execute x e (RPushX key elements) = exec_rpushx e key elements"
| "execute x e (LPop key count) = exec_lpop e key count"
| "execute x e (RPop key count) = exec_rpop e key count"
| "execute x e (LSet key index element) = exec_lset e key index element"
| "execute x e (LLen key) = exec_llen e key"
| "execute x e (LIndex key index) = exec_lindex e key index"
| "execute x e (LRange key start stop) = exec_lrange e key start stop"
| "execute x e (SAdd key members) = exec_sadd e key members"
| "execute x e (SMembers key) = exec_smembers e key"
| "execute x e (SIsMember key member) = exec_sismember e key member"
| "execute x e (SMIsMember key members) = exec_smismember e key members"
| "execute x e (SRandMember key count) = exec_srandmember e key count"
| "execute x e (SCard key) = exec_scard e key"
| "execute x e (SMove source destination member) = exec_smove e source destination member"
| "execute x e (SPop key count) = exec_spop e key count"
| "execute x e (SRem key members) = exec_srem e key members"
| "execute x e (Ttl key) = exec_ttl e key"
| "execute x e (PTtl key) = exec_pttl e key"
| "execute x e (ExpireTime key) = exec_expire_time e key"
| "execute x e (PExpireTime key) = exec_pexpire_time e key"
| "execute x e (Persist key) = exec_persist key"
| "execute x e (Expire key seconds) = exec_expire e key seconds"
| "execute x e (PExpire key milliseconds) = exec_pexpire e key milliseconds"
| "execute x e (ExpireAt key deadline_secs) = exec_expire_at e key deadline_secs"
| "execute x e (PExpireAt key deadline_ms) = exec_pexpire_at e key deadline_ms"
| "execute x e (Keys pattern) = exec_keys e pattern"
| "execute x e (Digest key) = exec_digest e key"
| "execute x e (Select index) = exec_select index"
| "execute x e DbSize = exec_db_size"
| "execute x e (FlushDb mode) = exec_flush_db x mode"

section \<open>Reads, writes and the lock\<close>

lemma count_loop_read_only: "(\<And>i k. read_only (f i k)) \<Longrightarrow> read_only (count_loop f i ks n)"
  by (induction ks arbitrary: i n) (simp_all add: read_only_rules)

lemma resolve_expiry_read_only: "read_only (resolve_expiry e k f)"
  unfolding resolve_expiry_def
  by (intro read_only_rules) (auto split: option.splits intro!: read_only_rules)

lemma execute_read_only:
  assumes "\<not> is_write c" "\<And>k i x. c \<noteq> LSet k i x"
  shows "read_only (execute x e c)"
proof -
  have "read_only (execute x e c)" if "\<not> is_write c" "\<forall>k i x. c \<noteq> LSet k i x"
    using that
    by (cases c) (simp_all add: exec_ping_def exec_get_def exec_exists_def exec_mget_def exec_strlen_def
        exec_llen_def exec_lindex_def exec_lrange_def exec_smembers_def exec_sismember_def
        exec_smismember_def exec_srandmember_def exec_scard_def exec_ttl_def exec_pttl_def
        exec_expire_time_def exec_pexpire_time_def exec_keys_def exec_digest_def exec_select_def
        exec_db_size_def Let_def resolve_expiry_read_only count_loop_read_only read_only_rules)
  with assms show ?thesis by blast
qed

lemma push_loop_preserves:
  "(\<And>t y. y \<in> set xs \<Longrightarrow> preserves P (f t k y)) \<Longrightarrow> preserves P (push_loop now f k i xs n)"
  by (induction xs arbitrary: i n) (auto split: result.splits intro!: preserves_rules)

lemma count_loop_preserves: "(\<And>i k. preserves P (f i k)) \<Longrightarrow> preserves P (count_loop f i ks n)"
  by (induction ks arbitrary: i n) (auto intro!: preserves_rules)


lemma set_command_preserves:
  assumes "preserves P (store_set k (Str v))" "\<And>d. preserves P (store_set_ttl k d)"
  shows "preserves P (exec_set e k v c x g)"
proof -
  have exp: "preserves P (set_expiry_step e k x pt)" for pt
    unfolding set_expiry_step_def
    by (auto split: option.splits set_expiry.splits intro!: preserves_rules assms)
  have wr: "preserves P (set_write e k v x)"
    unfolding set_write_def store_set_string_def
    by (intro preserves_rules preserves_read_only [OF store_reads_read_only(3)] assms exp)
  have "preserves P (set_finish e k v c x g r)" for r
    unfolding set_finish_def Let_def
    by (auto split: result.splits option.splits intro!: preserves_rules wr)
  then show ?thesis
    unfolding exec_set_def
    by (intro preserves_bind preserves_read_only [OF store_reads_read_only(6)])
qed

text \<open>The commands that cannot panic while they hold the write lock: all but \<open>SMOVE\<close>, and but an
  \<open>SPOP\<close> that asks for more members than a \<open>Vec<String>\<close> can have room for.\<close>

fun lock_safe :: "env \<Rightarrow> command \<Rightarrow> bool" where
  "lock_safe e (SMove _ _ _) = False"
| "lock_safe e (SPop _ count) = (sample_ok e \<and> spop_fits count)"
| "lock_safe e _ = True"

lemma execute_healthy:
  assumes "lock_safe e c"
  shows "preserves healthy (execute x e c)"
proof (cases "is_write c")
  case True
  with assms show ?thesis
    by (cases c) (auto simp: exec_delete_def exec_get_del_def exec_mset_def exec_lpush_def exec_rpush_def
        exec_lpushx_def exec_rpushx_def exec_push_inner_def exec_lpop_def exec_rpop_def exec_pop_inner_def
        exec_sadd_def exec_spop_def exec_srem_def exec_persist_def exec_expire_def exec_pexpire_def
        exec_expire_at_def exec_pexpire_at_def exec_flush_db_def store_lpush_def store_rpush_def
        store_lpushx_def store_rpushx_def store_lpop_def store_rpop_def store_get_del_string_def
        split: option.splits flush_mode.splits
        intro!: preserves_rules writes_healthy pop_healthy spop_healthy set_command_preserves push_loop_preserves
          count_loop_preserves)
next
  case False
  show ?thesis
  proof (cases "\<exists>k i y. c = LSet k i y")
    case True
    then show ?thesis by (auto simp: exec_lset_def intro!: preserves_rules writes_healthy)
  qed (use False execute_read_only preserves_read_only in blast)
qed

lemma smove_frozen_healthy: "preserves healthy (store_smove t t t t a b m)"
  unfolding store_smove_def
proof (rule healthy_with_write, goal_cases)
  case (1 g)
  show ?case
  proof (cases "inner_get t a g")
    case None
    then show ?thesis by simp
  next
    case (Some v)
    have put: "fst (smove_put t b m g') \<noteq> Panic"
      if "v = SetVal s" "inner_get t b g = None \<or> (\<exists>u. inner_get t b g = Some (SetVal u))"
        "smove_take t a m g = (Ret (), g')" for s g'
    proof -
      have "inner_get t b g' = None \<or> (\<exists>u. inner_get t b g' = Some (SetVal u))"
        using that Some inner_get_SomeD [OF Some]
        by (auto simp: smove_take_def Let_def inner_get_keyspace keyspace_remove keyspace_update_data
            split: if_splits)
      then show ?thesis by (auto simp: smove_put_def)
    qed
    have "\<exists>g'. smove_take t a m g = (Ret (), g')" if "v = SetVal s" for s
      using Some that by (simp add: smove_take_def Let_def)
    with Some put show ?thesis
      by (cases v) (auto simp: Let_def split: option.splits store_value.splits prod.splits outcome.splits)
  qed
qed

lemma execute_Ret_healthy:
  assumes "execute x e c s = (Ret r, s')" "\<not> poisoned s"
  shows "\<not> poisoned s'"
proof (cases "(\<exists>a b m. c = SMove a b m) \<or> (\<exists>k n. c = SPop k n)")
  case True
  with assms show ?thesis
    by (auto simp: exec_smove_def exec_spop_def reply_def bind_op_def ret_op_def store_smove_def store_spop_def
        with_write_def split: outcome.splits prod.splits)
next
  case False
  then have "lock_safe e c" by (cases c) auto
  with execute_healthy [of e c x] assms show ?thesis by (metis healthy_def preserves_def snd_conv)
qed

text \<open>The commands that are certain to take the lock, and what becomes of them once it is poisoned.
  (\<open>EXPIRE\<close> and \<open>PEXPIRE\<close> answer without it when the deadline is not representable.)\<close>

fun needs_lock :: "command \<Rightarrow> bool" where
  "needs_lock (Ping _) = False"
| "needs_lock (Select _) = False"
| "needs_lock (Expire _ _) = False"
| "needs_lock (PExpire _ _) = False"
| "needs_lock (Delete ks) = (ks \<noteq> [])"
| "needs_lock (Exists ks) = (ks \<noteq> [])"
| "needs_lock (LPush _ xs) = (xs \<noteq> [])"
| "needs_lock (RPush _ xs) = (xs \<noteq> [])"
| "needs_lock (LPushX _ xs) = (xs \<noteq> [])"
| "needs_lock (RPushX _ xs) = (xs \<noteq> [])"
| "needs_lock _ = True"

lemma with_poisoned:
  "poisoned s \<Longrightarrow> with_read f s = (Panic, s)" "poisoned s \<Longrightarrow> with_write h s = (Panic, s)"
  by (simp_all add: with_read_def with_write_def)

lemma poisoned_command_dies:
  assumes "poisoned s" "needs_lock c"
  shows "execute x e c s = (Panic, s)"
  using assms
  by (cases c) (auto simp: exec_defs store_defs op_simps with_poisoned neq_Nil_conv
      split: option.splits outcome.splits flush_mode.splits)

section \<open>Properties\<close>

text \<open>C24: a command that \<open>is_write\<close> does not name leaves the store exactly as it was, whether it
  returns or panics, with the one exception of \<open>LSET\<close>.\<close>

theorem reads_leave_store:
  assumes "\<not> is_write c" "\<And>k i y. c \<noteq> LSet k i y"
  shows "snd (execute x e c s) = s"
  using execute_read_only [OF assms] by (simp add: read_only_def)

theorem reads_leave_store_witness:
  "snd (execute \<lparr>lazyfree_lazy_user_flush = False\<rparr> (demo_env 0 0)
     (SRandMember ''k'' (Some (- 3))) store_new) = store_new"
  using reads_leave_store [of "SRandMember ''k'' (Some (- 3))"] by simp

text \<open>C22: no command but \<open>SMOVE\<close> and \<open>SPOP\<close> can poison the lock: a panic in any other command happens
  while no write lock is held.  \<open>SMOVE\<close> cannot while the clock stands still, and \<open>SPOP\<close> cannot when
  its count is one that a \<open>Vec<String>\<close> can have room for and \<open>sample\<close> behaves as documented.\<close>

theorem only_smove_and_spop_poison:
  assumes "\<not> poisoned s" "(\<forall>a b m. c \<noteq> SMove a b m) \<or> (\<forall>i. now_at e i = now_at e 0)"
    "(\<forall>k n. c \<noteq> SPop k n) \<or> sample_ok e \<and> (\<exists>k n. c = SPop k n \<and> spop_fits n)"
  shows "\<not> poisoned (snd (execute x e c s))"
proof -
  have "preserves healthy (execute x e c)"
  proof (cases "\<exists>a b m. c = SMove a b m")
    case True
    then obtain a b m where c: "c = SMove a b m" by blast
    with assms(2) have t: "now_at e 1 = now_at e 0" "now_at e 2 = now_at e 0" "now_at e 3 = now_at e 0"
      by auto
    show ?thesis
      unfolding c execute.simps exec_smove_def t by (intro preserves_reply smove_frozen_healthy)
  next
    case False
    with assms(3) have "lock_safe e c" by (cases c) auto
    then show ?thesis by (rule execute_healthy)
  qed
  with assms(1) show ?thesis by (simp add: preserves_def healthy_def)
qed

theorem only_smove_and_spop_poison_witness:
  "\<not> poisoned (snd (execute \<lparr>lazyfree_lazy_user_flush = False\<rparr> (demo_env 0 0) (SPop ''a'' (Some 384307168202282325))
     (snd (store_sadd 0 ''a'' [''x''] store_new))))"
proof -
  have "\<not> poisoned (snd (store_sadd 0 ''a'' [''x''] store_new))"
    using writes_healthy(12) [of 0 "''a''" "[''x'']"] by (simp add: preserves_def healthy_def store_new_def)
  then show ?thesis
    by (rule only_smove_and_spop_poison) (simp_all add: spop_fits_def vec_capacity_ok_def)
qed



text \<open>\<open>TTL\<close> and \<open>PTTL\<close> agree with the live keyspace on a live key: minus one when it has no
  deadline, otherwise the whole seconds or milliseconds (cast to \<open>i64\<close>) that remain; on a key that is neither live nor
  in the expiry index they answer minus two.\<close>

theorem exec_ttl_exact:
  assumes "\<not> poisoned s" "\<And>d. fmlookup (expiry_index (inner s)) k = Some d \<Longrightarrow> as_secs d \<le> i64_max \<and> 0 \<le> now_at e 0"
  shows "(case keyspace (now_at e 0) (inner s) k of
       Some (v, None) \<Rightarrow> exec_ttl e k s = (Ret (Integer (- 1)), s) \<and> exec_pttl e k s = (Ret (Integer (- 1)), s)
     | Some (v, Some d) \<Rightarrow> exec_ttl e k s = (Ret (Integer (as_secs (d - now_at e 0))), s) \<and>
         exec_pttl e k s = (Ret (Integer (as_i64 (as_millis (d - now_at e 0)))), s)
     | None \<Rightarrow> fmlookup (expiry_index (inner s)) k = None \<longrightarrow>
         exec_ttl e k s = (Ret (Integer (- 2)), s) \<and> exec_pttl e k s = (Ret (Integer (- 2)), s))"
proof (cases "keyspace (now_at e 0) (inner s) k")
  case None
  with assms(1) show ?thesis
    by (auto simp: exec_ttl_def exec_pttl_def resolve_expiry_def store_get_ttl_def store_exists_def op_simps
        keyspace_def expired_def split: if_splits option.splits)
next
  case (Some vd)
  obtain v d where vd: "keyspace (now_at e 0) (inner s) k = Some (v, d)" using Some by (cases vd) auto
  note live = keyspace_SomeD [OF vd]
  show ?thesis
  proof (cases d)
    case None
    with live vd assms(1) show ?thesis
      by (simp add: exec_ttl_def exec_pttl_def resolve_expiry_def store_get_ttl_def store_exists_def op_simps)
  next
    case (Some u)
    with live have u: "now_at e 0 \<le> u" by (auto simp: expired_def)
    have bound: "as_secs u \<le> i64_max" "0 \<le> now_at e 0" using assms(2) live Some by auto
    have "as_secs (u - now_at e 0) \<le> as_secs u" using bound by (simp add: as_secs_def zdiv_mono1)
    moreover have "0 \<le> as_secs (u - now_at e 0)" using u by (simp add: as_secs_def pos_imp_zdiv_nonneg_iff)
    ultimately have "as_i64 (as_secs (u - now_at e 0)) = as_secs (u - now_at e 0)"
      using bound by (intro as_i64_id) linarith+
    with live vd Some u assms(1) show ?thesis
      by (simp add: exec_ttl_def exec_pttl_def resolve_expiry_def store_get_ttl_def op_simps checked_duration_since_def)
  qed
qed

theorem exec_ttl_exact_witness:
  "fst (exec_ttl (demo_env 0 0) ''k''
     (snd (store_set_ttl ''k'' 5000000000 (snd (store_set ''k'' (Str ''v'') store_new))))) = Ret (Integer 5)"
  using exec_ttl_exact [of "snd (store_set_ttl ''k'' 5000000000 (snd (store_set ''k'' (Str ''v'') store_new)))"
      "''k''" "demo_env 0 0"]
  by (simp add: store_set_ttl_def store_set_def op_simps store_new_def inner_put_def keyspace_def expired_def as_secs_def)

end
