(* ===== verification/Aof.thy ===== *)
theory Aof
  imports Executor
begin

text \<open>
  The append-only file of \<open>aof.rs\<close>: the writer with its buffer, the file and what of it is known
  to be on disk; \<open>append\<close>, the fsync task, opening, and the replay of a file into a store at
  startup.  The outcome of every system call is an argument: it succeeds, or fails after any part of
  the pending bytes has reached the file.
\<close>

section \<open>The writer\<close>

datatype append_fsync_mode = Always | EverySec | No

record aof_writer =
  aof_file :: string
  buffered :: string
  synced :: nat
  fsync_mode :: append_fsync_mode

text \<open>\<open>write_all\<close> and \<open>flush\<close> of a \<open>BufWriter\<close> together: on an error, \<open>n\<close> of the pending
  bytes have reached the file and the next \<open>m\<close> stay in the buffer.\<close>

datatype write_io = Written | Write_failed nat nat io_error

record append_io =
  write_result :: write_io
  sync_result :: "(unit, io_error) result"

definition sync_data :: "(unit, io_error) result \<Rightarrow> aof_writer \<Rightarrow> (unit, io_error) result \<times> aof_writer" where
  "sync_data r w = (case r of Ok _ \<Rightarrow> (Ok (), w\<lparr>synced := length (aof_file w)\<rparr>) | Err e \<Rightarrow> (Err e, w))"

definition aof_append :: "append_io \<Rightarrow> string \<Rightarrow> aof_writer \<Rightarrow> (unit, io_error) result \<times> aof_writer" where
  "aof_append io cmd_bytes w =
     (let pending = buffered w @ cmd_bytes in
      case write_result io of
        Write_failed n m e \<Rightarrow>
          (Err e, w\<lparr>aof_file := aof_file w @ take n pending, buffered := take m (drop n pending)\<rparr>)
      | Written \<Rightarrow>
          (let w' = w\<lparr>aof_file := aof_file w @ pending, buffered := []\<rparr>
           in if fsync_mode w = Always then sync_data (sync_result io) w' else (Ok (), w')))"

text \<open>\<open>spawn_fsync_task\<close>: \<open>None\<close> unless the mode is \<open>EverySec\<close>; the task syncs at every tick and
  once more when it is cancelled, and only logs errors.\<close>

datatype fsync_event = Fsync_tick "(unit, io_error) result" | Fsync_cancelled "(unit, io_error) result"

fun fsync_task :: "fsync_event list \<Rightarrow> aof_writer \<Rightarrow> aof_writer" where
  "fsync_task [] w = w"
| "fsync_task (Fsync_tick r # evs) w = fsync_task evs (snd (sync_data r w))"
| "fsync_task (Fsync_cancelled r # evs) w = snd (sync_data r w)"

definition spawn_fsync_task :: "aof_writer \<Rightarrow> (fsync_event list \<Rightarrow> aof_writer \<Rightarrow> aof_writer) option" where
  "spawn_fsync_task w = (if fsync_mode w \<noteq> EverySec then None else Some fsync_task)"

section \<open>Opening\<close>

text \<open>\<open>Path::join\<close> and \<open>Path::parent\<close> on Unix paths.\<close>

definition resolve_aof_path :: "string \<Rightarrow> string \<Rightarrow> string" where
  "resolve_aof_path dirname filename =
     (if take 1 filename = ''/'' then filename
      else if dirname = [] \<or> last dirname = CHR ''/'' then dirname @ filename
      else dirname @ ''/'' @ filename)"

definition strip_slashes :: "string \<Rightarrow> string" where
  "strip_slashes p = rev (dropWhile ((=) (CHR ''/'')) (rev p))"

definition path_parent :: "string \<Rightarrow> string option" where
  "path_parent p =
     (let q = strip_slashes p; d = rev (dropWhile ((\<noteq>) (CHR ''/'')) (rev q)) in
      if q = [] then None
      else if d = [] then Some []
      else if strip_slashes d = [] then Some ''/''
      else Some (strip_slashes d))"

text \<open>The file system calls the AOF makes.\<close>

record file_system =
  create_dir_all :: "string \<Rightarrow> (unit, io_error) result"
  open_append :: "string \<Rightarrow> (string, io_error) result"
  fs_exists :: "string \<Rightarrow> (bool, io_error) result"
  open_read :: "string \<Rightarrow> (string, io_error) result"
  error_text :: "io_error \<Rightarrow> string"

definition aof_writer_new :: "file_system \<Rightarrow> string \<Rightarrow> append_fsync_mode \<Rightarrow> (aof_writer, io_error) result" where
  "aof_writer_new fs path mode =
     bind_res (case path_parent path of
                 Some dir \<Rightarrow> if dir \<noteq> [] then create_dir_all fs dir else Ok ()
               | None \<Rightarrow> Ok ()) (\<lambda>_.
     bind_res (open_append fs path) (\<lambda>contents.
       Ok \<lparr>aof_file = contents, buffered = [], synced = 0, fsync_mode = mode\<rparr>))"

definition aof_open ::
    "file_system \<Rightarrow> bool \<Rightarrow> string \<Rightarrow> string \<Rightarrow> append_fsync_mode \<Rightarrow> (aof_writer option, io_error) result" where
  "aof_open fs enabled dirname filename mode =
     (if \<not> enabled then Ok None
      else
        let path = resolve_aof_path dirname filename in
        bind_res (map_err (\<lambda>e. OsError (''Failed to open AOF at '' @ [CHR 0x27] @ path @ [CHR 0x27]
              @ '': '' @ error_text fs e)) (aof_writer_new fs path mode)) (\<lambda>writer. Ok (Some writer)))"

section \<open>Replay\<close>

text \<open>The loop of \<open>sync_store_with_aof\<close>.  Every decoded value makes the remaining input shorter.
  The \<open>i\<close>-th entry is executed in its own world \<open>es i\<close>.\<close>

function replay ::
    "executor \<Rightarrow> (nat \<Rightarrow> env) \<Rightarrow> nat \<Rightarrow> string \<Rightarrow> (unit, io_error) result store_op" where
  "replay x es i reader s =
     (case decode reader of
        Panic \<Rightarrow> (Panic, s)
      | Ret (Err e, _) \<Rightarrow>
          if e = UnexpectedEof then (Ret (Ok ()), s) else (Ret (Err (io_error_of_resp e)), s)
      | Ret (Ok resp_value, rest) \<Rightarrow>
          (case from_resp2 resp_value of
             Panic \<Rightarrow> (Panic, s)
           | Ret (Err e) \<Rightarrow> replay x es (Suc i) rest s
           | Ret (Ok cmd) \<Rightarrow>
               (case execute x (es i) cmd s of
                  (Panic, s') \<Rightarrow> (Panic, s')
                | (Ret _, s') \<Rightarrow> replay x es (Suc i) rest s')))"
  by pat_completeness auto
termination replay
  by (relation "measure (\<lambda>(x, es, i, reader, s). length reader)") (auto dest: decode_consumes)

declare replay.simps [simp del]

definition sync_store_with_aof ::
    "file_system \<Rightarrow> bool \<Rightarrow> string \<Rightarrow> string \<Rightarrow> executor \<Rightarrow> (nat \<Rightarrow> env) \<Rightarrow> (unit, io_error) result store_op" where
  "sync_store_with_aof fs enabled dirname filename x es s =
     (if \<not> enabled then (Ret (Ok ()), s)
      else
        let path = resolve_aof_path dirname filename in
        case fs_exists fs path of
          Err e \<Rightarrow> (Ret (Err e), s)
        | Ok False \<Rightarrow> (Ret (Ok ()), s)
        | Ok True \<Rightarrow>
            (case open_read fs path of
               Err e \<Rightarrow> (Ret (Err e), s)
             | Ok contents \<Rightarrow> replay x es 0 contents s))"

section \<open>Lemmas\<close>

lemma decode_empty: "decode [] = Ret (Err UnexpectedEof, [])"
  by (subst decode.simps) (simp add: read_line_def)

lemma aof_open_mode: "aof_open fs enabled dirname filename mode = Ok (Some w) \<Longrightarrow> fsync_mode w = mode"
  by (auto simp: aof_open_def aof_writer_new_def bind_res_eq_Ok Let_def split: if_splits)

lemma replay_empty: "replay x es i [] s = (Ret (Ok ()), s)"
  by (subst replay.simps) (simp add: decode_empty)

lemma replay_entry:
  assumes "wf_resp v" "from_resp2 v = Ret (Ok c)"
  shows "replay x es i (encode v @ rest) s =
     (case execute x (es i) c s of
        (Panic, s') \<Rightarrow> (Panic, s') | (Ret _, s') \<Rightarrow> replay x es (Suc i) rest s')"
  by (subst replay.simps) (simp add: decode_encode_rest assms)

lemma replay_preserves:
  assumes "\<And>b v r c i. decode b = Ret (Ok v, r) \<Longrightarrow> from_resp2 v = Ret (Ok c) \<Longrightarrow> preserves P (execute x (es i) c)" "P s"
  shows "P (snd (replay x es i reader s))"
  using assms(2)
proof (induction reader arbitrary: i s rule: measure_induct_rule [of length])
  case (less reader)
  have "P (snd (execute x (es i) c s))" if "decode reader = Ret (Ok v, rest)" "from_resp2 v = Ret (Ok c)" for v rest c
    using assms(1) [OF that, of i] less.prems by (simp add: preserves_def)
  with less.IH less.prems show ?case
    by (subst replay.simps) (fastforce split: outcome.splits prod.splits result.splits dest: decode_consumes)
qed

lemma replay_Ret_healthy: "replay x es i reader s = (Ret r, s') \<Longrightarrow> \<not> poisoned s \<Longrightarrow> \<not> poisoned s'"
proof (induction reader arbitrary: i s rule: measure_induct_rule [of length])
  case (less reader)
  note IH = less.IH [OF decode_consumes]
  from less.prems show ?case
    by (subst (asm) replay.simps)
      (auto split: outcome.splits prod.splits result.splits if_splits dest: execute_Ret_healthy dest!: IH)
qed

text \<open>The task's last sync, when it succeeds, covers everything written before it.\<close>

lemma fsync_task_final:
  "\<forall>ev \<in> set evs. \<exists>r. ev = Fsync_tick r \<Longrightarrow>
     synced (fsync_task (evs @ [Fsync_cancelled (Ok ())]) w) = length (aof_file w) \<and>
     aof_file (fsync_task (evs @ [Fsync_cancelled (Ok ())]) w) = aof_file w"
proof (induction evs arbitrary: w)
  case (Cons ev evs)
  then obtain r where ev: "ev = Fsync_tick r" by auto
  have "aof_file (snd (sync_data r w)) = aof_file w" by (simp add: sync_data_def split: result.splits)
  with Cons ev show ?case by simp
qed (simp add: sync_data_def)

section \<open>Properties\<close>

text \<open>In \<open>Always\<close> mode an append that reports success has put all bytes, with whatever an earlier
  failed append left in the buffer, at the end of the file and onto the disk; in the other modes they
  are in the file, and the disk is left to the fsync task.\<close>

theorem append_ok_is_written:
  assumes "aof_append io b w = (Ok (), w')"
  shows "aof_file w' = aof_file w @ buffered w @ b \<and> buffered w' = [] \<and>
     synced w' = (if fsync_mode w = Always then length (aof_file w') else synced w)"
  using assms by (auto simp: aof_append_def sync_data_def Let_def split: write_io.splits result.splits if_splits)

theorem append_ok_is_written_witness:
  "let w = \<lparr>aof_file = ''a'', buffered = [], synced = 0, fsync_mode = Always\<rparr>;
       w' = snd (aof_append \<lparr>write_result = Written, sync_result = Ok ()\<rparr> ''b'' w)
   in aof_file w' = ''ab'' \<and> synced w' = 2"
  using append_ok_is_written [of "\<lparr>write_result = Written, sync_result = Ok ()\<rparr>" "''b''"
      "\<lparr>aof_file = ''a'', buffered = [], synced = 0, fsync_mode = Always\<rparr>"
      "\<lparr>aof_file = ''ab'', buffered = [], synced = 2, fsync_mode = Always\<rparr>"]
  by (simp add: aof_append_def sync_data_def)

end
