(* ===== verification/Handler.thy ===== *)
theory Handler
  imports Aof
begin

text \<open>
  The connection handler of \<open>handler.rs\<close>: decode a request, parse it, execute it, append it to the
  AOF when it is a write that succeeded, answer.  The state is what the handler reaches (the shared
  store, the shared AOF writer, the bytes written to the socket); a request is served in a world that
  gives the clocks and the results of its system calls.
\<close>

section \<open>One request\<close>

datatype expire_aof_conversion = Conv_Expire string nat | Conv_PExpire string nat

record handler_state =
  h_store :: store
  h_aof :: "aof_writer option"
  h_out :: string

record request_world =
  r_env :: env
  r_append :: append_io
  r_send :: "(unit, nat \<times> io_error) result"

definition expire_info :: "command \<Rightarrow> expire_aof_conversion option" where
  "expire_info c =
     (case c of
        Expire key seconds \<Rightarrow> Some (Conv_Expire key seconds)
      | PExpire key milliseconds \<Rightarrow> Some (Conv_PExpire key milliseconds)
      | _ \<Rightarrow> None)"

definition respond :: "executor \<Rightarrow> env \<Rightarrow> (command, handler_error) result \<Rightarrow> resp_value store_op" where
  "respond x e cmd =
     (case cmd of
        Ok c \<Rightarrow> execute x e c
      | Err (UnknownCommand s) \<Rightarrow>
          ret_op (SimpleError (''ERR unknown command '' @ [CHR 0x27] @ s @ [CHR 0x27]))
      | Err err \<Rightarrow> ret_op (SimpleError (display_handler_error e err)))"

text \<open>Whether the request is appended, and the bytes that are.\<close>

definition is_write_cmd :: "(command, handler_error) result \<Rightarrow> bool" where
  "is_write_cmd cmd = (case cmd of Ok c \<Rightarrow> is_write c | Err _ \<Rightarrow> False)"

definition is_logged :: "(command, handler_error) result \<Rightarrow> resp_value \<Rightarrow> bool" where
  "is_logged cmd response \<longleftrightarrow>
     is_write_cmd cmd \<and> (\<forall>s. response \<noteq> SimpleError s) \<and> response \<noteq> Integer 0"

definition aof_bytes :: "env \<Rightarrow> (command, handler_error) result \<Rightarrow> resp_value \<Rightarrow> string outcome" where
  "aof_bytes e cmd v =
     (case cmd of
        Ok c \<Rightarrow>
          (case expire_info c of
             Some (Conv_Expire key seconds) \<Rightarrow>
               convert_expire_to_pexpireat (overflow_checks e) (unix_at e 2) key seconds
           | Some (Conv_PExpire key milliseconds) \<Rightarrow>
               convert_pexpire_to_pexpireat (overflow_checks e) (unix_at e 2) key milliseconds
           | None \<Rightarrow> Ret (encode v))
      | Err _ \<Rightarrow> Ret (encode v))"

definition log_step ::
    "request_world \<Rightarrow> (command, handler_error) result \<Rightarrow> resp_value \<Rightarrow> resp_value \<Rightarrow> aof_writer option
      \<Rightarrow> aof_writer option outcome" where
  "log_step w cmd v response aof =
     (case aof of
        Some writer \<Rightarrow>
          if is_logged cmd response then
            (case aof_bytes (r_env w) cmd v of
               Panic \<Rightarrow> Panic
             | Ret cmd_bytes \<Rightarrow> Ret (Some (snd (aof_append (r_append w) cmd_bytes writer))))
          else Ret aof
      | None \<Rightarrow> Ret aof)"

definition send_response ::
    "(unit, nat \<times> io_error) result \<Rightarrow> resp_value \<Rightarrow> string \<Rightarrow> (unit, io_error) result \<times> string" where
  "send_response io response_value out =
     (case io of
        Ok _ \<Rightarrow> (Ok (), out @ encode response_value)
      | Err (n, e) \<Rightarrow> (Err e, out @ take n (encode response_value)))"

text \<open>The body of the loop after a value has been decoded.\<close>

definition handle_request ::
    "executor \<Rightarrow> request_world \<Rightarrow> resp_value \<Rightarrow> handler_state \<Rightarrow> (unit, io_error) result outcome \<times> handler_state" where
  "handle_request x w v st =
     (case from_resp2 v of
        Panic \<Rightarrow> (Panic, st)
      | Ret cmd \<Rightarrow>
          (case respond x (r_env w) cmd (h_store st) of
             (Panic, s) \<Rightarrow> (Panic, st\<lparr>h_store := s\<rparr>)
           | (Ret response, s) \<Rightarrow>
               (case log_step w cmd v response (h_aof st) of
                  Panic \<Rightarrow> (Panic, st\<lparr>h_store := s\<rparr>)
                | Ret aof \<Rightarrow>
                    (case send_response (r_send w) response (h_out st) of
                       (r, out) \<Rightarrow> (Ret r, st\<lparr>h_store := s, h_aof := aof, h_out := out\<rparr>)))))"

section \<open>The loop\<close>

function run_handler ::
    "executor \<Rightarrow> (nat \<Rightarrow> request_world) \<Rightarrow> nat \<Rightarrow> string \<Rightarrow> handler_state
      \<Rightarrow> (unit, io_error) result outcome \<times> handler_state" where
  "run_handler x ws i stream st =
     (case decode stream of
        Panic \<Rightarrow> (Panic, st)
      | Ret (Err e, _) \<Rightarrow>
          if e = UnexpectedEof then (Ret (Ok ()), st) else (Ret (Err (io_error_of_resp e)), st)
      | Ret (Ok v, rest) \<Rightarrow>
          (case handle_request x (ws i) v st of
             (Ret (Ok _), st') \<Rightarrow> run_handler x ws (Suc i) rest st'
           | other \<Rightarrow> other))"
  by pat_completeness auto
termination run_handler
  by (relation "measure (\<lambda>(x, ws, i, stream, st). length stream)") (auto dest: decode_consumes)

declare run_handler.simps [simp del]

lemma run_handler_request:
  "wf_resp v \<Longrightarrow> run_handler x ws i (encode v @ rest) st =
     (case handle_request x (ws i) v st of
        (Ret (Ok _), st') \<Rightarrow> run_handler x ws (Suc i) rest st' | other \<Rightarrow> other)"
  by (subst run_handler.simps) (simp add: decode_encode_rest)

lemma run_handler_empty: "run_handler x ws i [] st = (Ret (Ok ()), st)"
  by (subst run_handler.simps) (simp add: decode_empty)

end
