(* ===== verification/Config.thy ===== *)
theory Config
  imports Aof
begin

text \<open>
  The configuration of \<open>config.rs\<close>.  The \<open>config\<close> crate is a parameter: \<open>build\<close> merges the
  defaults, the file and the environment into a table, and the getters read it.
\<close>

section \<open>Defaults and parsing\<close>

definition DEFAULTS :: "(string \<times> string) list" where
  "DEFAULTS =
     [(''max_connections'', ''100''),
      (''hz'', ''100''),
      (''appendonly'', ''no''),
      (''appendfilename'', ''appendonly.aof''),
      (''appenddirname'', ''appendonlydir''),
      (''appendfsync'', ''everysec''),
      (''lazyfree_lazy_user_flush'', ''no'')]"

definition default_val :: "string \<Rightarrow> string outcome" where
  "default_val key =
     (case find (\<lambda>(k, _). k = key) DEFAULTS of Some (_, v) \<Rightarrow> Ret v | None \<Rightarrow> Panic)"

record thesaurus_config =
  max_connections :: nat
  hz :: nat
  appendonly :: bool
  appendfilename :: string
  appenddirname :: string
  appendfsync :: append_fsync_mode
  cfg_lazyfree_lazy_user_flush :: bool

definition yes_no_from_str :: "string \<Rightarrow> (bool, string) result" where
  "yes_no_from_str s =
     (if s = ''yes'' then Ok True
      else if s = ''no'' then Ok False
      else Err (''expected '' @ [CHR 0x27] @ ''yes'' @ [CHR 0x27] @ '' or '' @ [CHR 0x27] @ ''no'' @ [CHR 0x27]
        @ '', got '' @ [CHR 0x27] @ s @ [CHR 0x27]))"

definition appendfsync_from_str :: "string \<Rightarrow> (append_fsync_mode, string) result" where
  "appendfsync_from_str s =
     (if s = ''always'' then Ok Always
      else if s = ''everysec'' then Ok EverySec
      else if s = ''no'' then Ok No
      else Err (s @ '' is not a valid appendfsync mode''))"

text \<open>\<open>.unwrap()\<close> on an option, a result, and along a computation that may panic.\<close>

fun unwrap :: "'a option \<Rightarrow> 'a outcome" where
  "unwrap (Some x) = Ret x"
| "unwrap None = Panic"

fun ok_opt :: "('a, 'e) result \<Rightarrow> 'a option" where
  "ok_opt (Ok x) = Some x"
| "ok_opt (Err _) = None"

fun bind_out :: "'a outcome \<Rightarrow> ('a \<Rightarrow> 'b outcome) \<Rightarrow> 'b outcome" where
  "bind_out (Ret x) f = f x"
| "bind_out Panic f = Panic"

definition default_config :: "thesaurus_config outcome" where
  "default_config =
     bind_out (default_val ''max_connections'') (\<lambda>mc. bind_out (unwrap (parse_u64 mc)) (\<lambda>mc'.
     bind_out (default_val ''hz'') (\<lambda>h. bind_out (unwrap (parse_u64 h)) (\<lambda>h'.
     bind_out (default_val ''appendonly'') (\<lambda>ao. bind_out (unwrap (ok_opt (yes_no_from_str ao))) (\<lambda>ao'.
     bind_out (default_val ''appendfilename'') (\<lambda>fn.
     bind_out (default_val ''appenddirname'') (\<lambda>dn.
     bind_out (default_val ''appendfsync'') (\<lambda>fs. bind_out (unwrap (ok_opt (appendfsync_from_str fs))) (\<lambda>fs'.
     bind_out (default_val ''lazyfree_lazy_user_flush'') (\<lambda>lz.
     bind_out (unwrap (ok_opt (yes_no_from_str lz))) (\<lambda>lz'.
       Ret \<lparr>max_connections = mc', hz = h', appendonly = ao', appendfilename = fn, appenddirname = dn,
            appendfsync = fs', cfg_lazyfree_lazy_user_flush = lz'\<rparr>))))))))))))"

section \<open>Loading\<close>

text \<open>The \<open>config\<close> crate: a builder that collects defaults, then merges the sources into a table, and
  typed getters with their error texts.\<close>

record 'cfg config_crate =
  set_default :: "string \<Rightarrow> string \<Rightarrow> (string \<times> string) list \<Rightarrow> ((string \<times> string) list, string) result"
  build :: "(string \<times> string) list \<Rightarrow> string \<Rightarrow> string \<Rightarrow> ('cfg, string) result"
  get_unsigned :: "'cfg \<Rightarrow> string \<Rightarrow> (nat, string) result"
  get_string :: "'cfg \<Rightarrow> string \<Rightarrow> (string, string) result"

fun set_defaults ::
    "'cfg config_crate \<Rightarrow> (string \<times> string) list \<Rightarrow> (string \<times> string) list \<Rightarrow> ((string \<times> string) list, string) result" where
  "set_defaults cr [] builder = Ok builder"
| "set_defaults cr ((key, value) # rest) builder =
     bind_res (set_default cr key value builder) (set_defaults cr rest)"

definition get_bool :: "'cfg config_crate \<Rightarrow> 'cfg \<Rightarrow> string \<Rightarrow> (bool, string) result" where
  "get_bool cr config key = bind_res (get_string cr config key) yes_no_from_str"

definition map_config_to_appendfsync_mode :: "'cfg config_crate \<Rightarrow> 'cfg \<Rightarrow> (append_fsync_mode, string) result" where
  "map_config_to_appendfsync_mode cr config =
     bind_res (get_string cr config ''appendfsync'') appendfsync_from_str"

definition ends_with :: "string \<Rightarrow> string \<Rightarrow> bool" where
  "ends_with s p \<longleftrightarrow> length p \<le> length s \<and> drop (length s - length p) s = p"

definition load_config :: "'cfg config_crate \<Rightarrow> string \<Rightarrow> (thesaurus_config, string) result" where
  "load_config cr path =
     (if \<not> ends_with path ''.ini'' then Err (''Expected an .ini file, got: '' @ path)
      else
        bind_res (set_defaults cr DEFAULTS []) (\<lambda>builder.
        bind_res (build cr builder path ''THESAURUS_'') (\<lambda>config.
        bind_res (get_unsigned cr config ''max_connections'') (\<lambda>mc.
        bind_res (get_unsigned cr config ''hz'') (\<lambda>h.
        bind_res (get_bool cr config ''appendonly'') (\<lambda>ao.
        bind_res (get_string cr config ''appendfilename'') (\<lambda>fn.
        bind_res (get_string cr config ''appenddirname'') (\<lambda>dn.
        bind_res (map_config_to_appendfsync_mode cr config) (\<lambda>fs.
        bind_res (get_bool cr config ''lazyfree-lazy-user-flush'') (\<lambda>lz.
          Ok \<lparr>max_connections = mc, hz = h, appendonly = ao, appendfilename = fn, appenddirname = dn,
              appendfsync = fs, cfg_lazyfree_lazy_user_flush = lz\<rparr>))))))))))"

section \<open>Properties\<close>

lemma default_vals:
  "default_val ''max_connections'' = Ret ''100''" "default_val ''hz'' = Ret ''100''"
  "default_val ''appendonly'' = Ret ''no''" "default_val ''appendfilename'' = Ret ''appendonly.aof''"
  "default_val ''appenddirname'' = Ret ''appendonlydir''" "default_val ''appendfsync'' = Ret ''everysec''"
  "default_val ''lazyfree_lazy_user_flush'' = Ret ''no''"
  by (simp_all add: default_val_def DEFAULTS_def)

lemma default_config_total: "\<exists>cfg. default_config = Ret cfg \<and> max_connections cfg = 100 \<and> hz cfg = 100 \<and>
    \<not> appendonly cfg \<and> appendfsync cfg = EverySec \<and> \<not> cfg_lazyfree_lazy_user_flush cfg"
  by (simp add: default_config_def default_vals parse_u64_def parse_unsigned_def digit_val_def strip_plus_def
      yes_no_from_str_def appendfsync_from_str_def)

text \<open>A configuration file that does not itself mention \<open>lazyfree-lazy-user-flush\<close> is refused.
  The default is registered under a key with underscores and read back under one with hyphens, so for
  any table in which the hyphenated key is found only if the file or the environment has it, loading
  fails, although without a file the default applies.\<close>

theorem load_config_needs_hyphenated_key:
  assumes "\<And>ds pre tbl. build cr ds path pre = Ok tbl \<Longrightarrow> (\<forall>v. (''lazyfree-lazy-user-flush'', v) \<notin> set ds) \<Longrightarrow>
      \<exists>m. get_string cr tbl ''lazyfree-lazy-user-flush'' = Err m"
    "\<And>k v b b'. set_default cr k v b = Ok b' \<Longrightarrow> set b' \<subseteq> insert (k, v) (set b)"
  shows "(\<exists>m. load_config cr path = Err m) \<and> (\<exists>cfg. default_config = Ret cfg \<and> \<not> cfg_lazyfree_lazy_user_flush cfg)"
proof -
  have defaults: "set b' \<subseteq> set b \<union> set kvs" if "set_defaults cr kvs b = Ok b'" for kvs b b'
    using that assms(2)
    by (induction kvs arbitrary: b) (fastforce simp: bind_res_eq_Ok)+
  have "\<exists>m. load_config cr path = Err m"
  proof (rule ccontr)
    assume "\<not> ?thesis"
    then obtain cfg where "load_config cr path = Ok cfg" by (cases "load_config cr path") auto
    then obtain ds tbl lz where "set_defaults cr DEFAULTS [] = Ok ds" "build cr ds path ''THESAURUS_'' = Ok tbl"
      "get_bool cr tbl ''lazyfree-lazy-user-flush'' = Ok lz"
      by (auto simp: load_config_def bind_res_eq_Ok split: if_splits)
    moreover from defaults [OF this(1)] have "\<forall>v. (''lazyfree-lazy-user-flush'', v) \<notin> set ds"
      by (auto simp: DEFAULTS_def)
    ultimately show False using assms(1) by (fastforce simp: get_bool_def bind_res_eq_Ok)
  qed
  with default_config_total show ?thesis by blast
qed

text \<open>A stand-in for the crate: the table is the association list of the defaults.\<close>

definition demo_crate :: "(string \<times> string) list config_crate" where
  "demo_crate = \<lparr>set_default = (\<lambda>k v b. Ok ((k, v) # b)), build = (\<lambda>ds path pre. Ok ds),
     get_unsigned = (\<lambda>t k. case map_of t k of Some v \<Rightarrow> ok_or v (parse_u64 v) | None \<Rightarrow> Err k),
     get_string = (\<lambda>t k. ok_or k (map_of t k))\<rparr>"

theorem load_config_needs_hyphenated_key_witness:
  "\<exists>m. load_config demo_crate ''a.ini'' = Err m"
proof -
  have "\<exists>m. get_string demo_crate ds ''lazyfree-lazy-user-flush'' = Err m"
    if "\<forall>v. (''lazyfree-lazy-user-flush'', v) \<notin> set ds" for ds
  proof -
    from that have "map_of ds ''lazyfree-lazy-user-flush'' = None" by (meson map_of_SomeD not_Some_eq)
    then show ?thesis by (simp add: demo_crate_def)
  qed
  then show ?thesis
    using load_config_needs_hyphenated_key [of demo_crate "''a.ini''"] by (auto simp: demo_crate_def)
qed

end
