(* ===== verification/Ttl.thy ===== *)
theory Ttl
  imports Exec_Base
begin

text \<open>
  The eviction daemon of \<open>ttl.rs\<close>.  One tick samples the expiry index under the read lock and
  deletes what it found expired under the write lock; between the two the store is free for others.
  The daemon's life is a loop of ticks that ends when the shutdown token is cancelled.
\<close>

section \<open>One tick\<close>

definition N :: nat where "N = 20"

definition expired_sample :: "int \<Rightarrow> (string \<times> int) list \<Rightarrow> string list" where
  "expired_sample now sample_pairs =
     map fst (filter (\<lambda>(key, expiration_instant). now \<ge> expiration_instant) sample_pairs)"

definition evict_expired :: "env \<Rightarrow> unit store_op" where
  "evict_expired e =
     bind_op (store_sample_eviction_index e N) (\<lambda>sample_pairs.
       let now = now_at e 0; keys_to_delete = expired_sample now sample_pairs
       in store_delete_bulk keys_to_delete)"

text \<open>The daemon: what the \<open>select!\<close> of its loop fires, in order.\<close>

datatype daemon_event = Tick env | Cancelled

fun daemon_loop :: "daemon_event list \<Rightarrow> unit store_op" where
  "daemon_loop [] = ret_op ()"
| "daemon_loop (Tick e # evs) = bind_op (evict_expired e) (\<lambda>_. daemon_loop evs)"
| "daemon_loop (Cancelled # evs) = ret_op ()"

text \<open>\<open>spawn\<close>: \<open>tokio::time::interval\<close> panics on a period of zero, which ends the task, and only it, before
  its first tick.\<close>

definition daemon_spawn :: "nat \<Rightarrow> daemon_event list \<Rightarrow> unit store_op" where
  "daemon_spawn hz evs = (if hz = 0 then panic_op else daemon_loop evs)"

section \<open>Lemmas\<close>

text \<open>With \<open>hz\<close> zero nothing is ever evicted.\<close>

lemma daemon_zero_hz: "snd (daemon_spawn 0 evs s) = s"
  by (simp add: daemon_spawn_def panic_op_def)

text \<open>The entries of the expiry index in iteration order.\<close>

definition index_entries :: "env \<Rightarrow> store_inner \<Rightarrow> (string \<times> int) list" where
  "index_entries e g =
     List.map_filter (\<lambda>k. map_option (Pair k) (fmlookup (expiry_index g) k))
       (hash_order e (fmdom (expiry_index g)))"

lemma sample_view:
  "\<not> poisoned s \<Longrightarrow> store_sample_eviction_index e n s = (pick e 16 n (index_entries e (inner s)), s)"
  by (simp add: store_sample_eviction_index_def op_simps index_entries_def)

lemma index_entries_set:
  "hash_order_ok e \<Longrightarrow> set (index_entries e g) = {(k, d). fmlookup (expiry_index g) k = Some d}"
  by (auto simp: index_entries_def hash_order_ok_def List.map_filter_def fmlookup_dom_iff image_iff)
    (metis fmdomI option.simps(9) option.sel)

lemma index_entries_length:
  assumes "hash_order_ok e"
  shows "length (index_entries e g) = fcard (fmdom (expiry_index g))"
proof -
  let ?o = "hash_order e (fmdom (expiry_index g))"
  have "filter (\<lambda>k. map_option (Pair k) (fmlookup (expiry_index g) k) \<noteq> None) ?o = ?o"
    using assms by (auto simp: hash_order_ok_def filter_id_conv fmlookup_dom_iff)
  then have "length (index_entries e g) = length ?o" by (simp add: index_entries_def List.map_filter_def comp_def)
  also have "\<dots> = fcard (fmdom (expiry_index g))"
    using assms by (metis hash_order_ok_def distinct_card fcard.rep_eq)
  finally show ?thesis .
qed

lemma index_entries_distinct:
  assumes "hash_order_ok e"
  shows "distinct (index_entries e g)"
  using assms by (auto simp: index_entries_def hash_order_ok_def List.map_filter_def distinct_map inj_on_def)

text \<open>What a tick sees: the sample it asks for is small enough never to panic.\<close>

lemma tick_sample:
  assumes "sample_ok e"
  obtains ps where "pick e 16 N (index_entries e g) = Ret ps"
  using pick_fits [OF assms, of 16 N "index_entries e g"] by (auto simp: N_def vec_capacity_ok_def)

lemma evict_view:
  "\<not> poisoned s \<Longrightarrow> pick e 16 N (index_entries e (inner s)) = Ret ps \<Longrightarrow> evict_expired e s =
     (Ret (), s\<lparr>inner := fold inner_remove (expired_sample (now_at e 0) ps) (inner s)\<rparr>)"
  by (simp add: evict_expired_def bind_op_def sample_view store_delete_bulk_def op_simps)

lemma evict_returns:
  assumes "\<not> poisoned s" "sample_ok e"
  shows "fst (evict_expired e s) = Ret ()" "\<not> poisoned (snd (evict_expired e s))"
  using tick_sample [OF assms(2), of "inner s"] evict_view [OF assms(1)] assms(1)
  by (metis fst_conv, metis store.select_convs(2) store.surjective store.update_convs(1) snd_conv)

lemma expired_sample_expired:
  assumes "hash_order_ok e" "sample_ok e" "pick e 16 n (index_entries e g) = Ret ps" "k \<in> set (expired_sample now ps)"
  shows "expired now k g"
  using assms pick_subset [OF assms(2,3)] index_entries_set [OF assms(1), of g]
  by (auto simp: expired_sample_def expired_def)

lemma expired_later: "expired t k g \<Longrightarrow> t \<le> t' \<Longrightarrow> expired t' k g"
  by (auto simp: expired_def split: option.splits)

lemma evict_keyspace:
  assumes "\<not> poisoned s" "hash_order_ok e" "sample_ok e" "now_at e 0 \<le> t"
  shows "keyspace t (inner (snd (evict_expired e s))) = keyspace t (inner s)"
proof -
  obtain ps where ps: "pick e 16 N (index_entries e (inner s)) = Ret ps" using tick_sample [OF assms(3)] .
  have "keyspace t (inner s) k = None" if "k \<in> set (expired_sample (now_at e 0) ps)" for k
    using expired_later [OF expired_sample_expired [OF assms(2,3) ps that] assms(4)] by (simp add: keyspace_def)
  then show ?thesis
    using assms(1) ps by (auto simp: evict_view keyspace_remove_many fun_eq_iff)
qed

section \<open>Properties\<close>

text \<open>A run of the daemon that nothing interleaves with is invisible to clients: from the last
  tick's clock on, every key that was live is live with the same value and deadline, and no other
  key is.\<close>

theorem daemon_keeps_keyspace:
  assumes "\<not> poisoned s" "\<And>e. Tick e \<in> set evs \<Longrightarrow> hash_order_ok e \<and> sample_ok e \<and> now_at e 0 \<le> t"
  shows "fst (daemon_loop evs s) = Ret () \<and> keyspace t (inner (snd (daemon_loop evs s))) = keyspace t (inner s)"
  using assms
proof (induction evs arbitrary: s rule: daemon_loop.induct)
  case (2 e evs)
  have "fst (daemon_loop evs (snd (evict_expired e s))) = Ret () \<and>
      keyspace t (inner (snd (daemon_loop evs (snd (evict_expired e s))))) = keyspace t (inner (snd (evict_expired e s)))"
    using 2 by (intro 2) (auto simp: evict_returns)
  with 2(2,3) evict_keyspace [of s e t] evict_returns(1) [of s e] show ?case
    by (cases "evict_expired e s") (simp add: bind_op_def)
qed (simp_all add: ret_op_def)

theorem daemon_keeps_keyspace_witness:
  "keyspace 9 (inner (snd (daemon_loop [Tick (demo_env 9 0), Cancelled] (snd (store_set ''a'' (Str ''x'') store_new))))) ''a''
     = Some (Str ''x'', None)"
  using daemon_keeps_keyspace [of "snd (store_set ''a'' (Str ''x'') store_new)" "[Tick (demo_env 9 0), Cancelled]" 9]
  by (simp add: store_set_def op_simps store_new_def keyspace_put)

text \<open>C36: when the expiry index has no more entries than the sample size, one tick removes every key
  whose deadline has passed, from both maps.\<close>

theorem evict_removes_expired:
  assumes "\<not> poisoned s" "hash_order_ok e" "sample_ok e" "fcard (fmdom (expiry_index (inner s))) \<le> N"
    "expired (now_at e 0) k (inner s)"
  shows "fmlookup (data (inner (snd (evict_expired e s)))) k = None
    \<and> fmlookup (expiry_index (inner (snd (evict_expired e s)))) k = None"
proof -
  let ?es = "index_entries e (inner s)" and ?n = "now_at e 0"
  obtain d where d: "fmlookup (expiry_index (inner s)) k = Some d" "d \<le> ?n"
    using assms(5) by (auto simp: expired_def split: option.splits)
  have len: "length ?es \<le> N" using index_entries_length [OF assms(2)] assms(4) by simp
  obtain ps where ps: "pick e 16 N ?es = Ret ps" using tick_sample [OF assms(3)] .
  have "set ps = set ?es"
  proof (rule card_subset_eq)
    show "card (set ps) = card (set ?es)"
      using pick_length [OF assms(3) ps] pick_distinct [OF assms(3) ps index_entries_distinct [OF assms(2)]]
        index_entries_distinct [OF assms(2)] len by (simp add: distinct_card)
  qed (use pick_subset [OF assms(3) ps] in auto)
  then have "(k, d) \<in> set ps" using d index_entries_set [OF assms(2)] by simp
  then have mem: "k \<in> set (expired_sample ?n ps)"
    using d by (force simp: expired_sample_def)
  have "fmlookup (expiry_index (fold inner_remove ks g)) k = None" if "k \<in> set ks" for ks g
    using that
  proof (induction ks arbitrary: g rule: rev_induct)
    case (snoc x xs)
    then show ?case by (cases "x = k") (simp_all add: inner_remove_def)
  qed simp
  with mem kvd.look_del_many [where k = k and ks = "expired_sample ?n ps" and s = "inner s"] assms(1) ps show ?thesis
    by (simp add: evict_view)
qed

theorem evict_removes_expired_witness:
  "let s = snd (store_set_ttl ''a'' 5 (snd (store_set ''a'' (Str ''x'') store_new)))
   in fmlookup (data (inner (snd (evict_expired (demo_env 9 0) s)))) ''a'' = None"
  using evict_removes_expired [of "snd (store_set_ttl ''a'' 5 (snd (store_set ''a'' (Str ''x'') store_new)))"
      "demo_env 9 0" "''a''"]
  by (simp add: store_set_ttl_def store_set_def op_simps store_new_def inner_put_def expired_def N_def
      fcard_finsert_if fcard_fempty)

end
