(* ===== verification/Server.thy ===== *)
theory Server
  imports Handler Config Ttl "HOL-Library.Word"
begin

text \<open>
  The server of \<open>main.rs\<close> as a state machine: startup (configuration, replay, AOF), the accept loop
  with its semaphore, the drain and the shutdown of the background tasks.  A step is one thing the
  main task or a handler task does; what the handlers do to the store is the subject of the other
  theories.
\<close>

section \<open>Startup\<close>

definition server_config ::
    "'cfg config_crate \<Rightarrow> string option \<Rightarrow> (thesaurus_config, io_error) result outcome" where
  "server_config cr config_path =
     (case config_path of
        Some path \<Rightarrow> Ret (map_err InvalidInput (load_config cr path))
      | None \<Rightarrow> (case default_config of Ret cfg \<Rightarrow> Ret (Ok cfg) | Panic \<Rightarrow> Panic))"

text \<open>Replay the AOF into a fresh store, then open it for appending.\<close>

definition startup ::
    "file_system \<Rightarrow> thesaurus_config \<Rightarrow> (nat \<Rightarrow> env) \<Rightarrow> ((executor \<times> aof_writer option, io_error) result) store_op" where
  "startup fs cfg es =
     (let x = \<lparr>lazyfree_lazy_user_flush = cfg_lazyfree_lazy_user_flush cfg\<rparr> in
      bind_op (sync_store_with_aof fs (appendonly cfg) (appenddirname cfg) (appendfilename cfg) x es) (\<lambda>r.
        case r of
          Err e \<Rightarrow> ret_op (Err e)
        | Ok _ \<Rightarrow>
            ret_op (bind_res (aof_open fs (appendonly cfg) (appenddirname cfg) (appendfilename cfg)
              (appendfsync cfg)) (\<lambda>w. Ok (x, w)))))"

lemma startup_store:
  assumes "startup fs cfg es s0 = (Ret (Ok (x, aof)), s)"
  shows "s = s0 \<or> (\<exists>bytes r. replay x es 0 bytes s0 = (Ret r, s))"
proof -
  let ?x = "\<lparr>lazyfree_lazy_user_flush = cfg_lazyfree_lazy_user_flush cfg\<rparr>"
  obtain u where "sync_store_with_aof fs (appendonly cfg) (appenddirname cfg) (appendfilename cfg) ?x es s0 = (Ret (Ok u), s)" "x = ?x"
    using assms by (auto simp: startup_def Let_def bind_op_def ret_op_def bind_res_eq_Ok split: outcome.splits prod.splits result.splits)
  then show ?thesis
    by (auto simp: sync_store_with_aof_def Let_def split: if_splits result.splits bool.splits)
qed

section \<open>The accept loop\<close>

datatype phase =
    Accepting
  | Waiting_permit
  | Draining
  | Cancelling
  | Stopped "(unit, io_error) result"

record server =
  phase :: phase
  permits :: nat
  sem_closed :: bool
  running :: nat
  aborted :: bool
  token_cancelled :: bool
  fsync_running :: bool

definition server_init :: "nat \<Rightarrow> bool \<Rightarrow> server" where
  "server_init max_conn has_fsync =
     \<lparr>phase = Accepting, permits = max_conn, sem_closed = False, running = 0, aborted = False,
      token_cancelled = False, fsync_running = has_fsync\<rparr>"

text \<open>The body of the accept branch awaits a permit inside the \<open>select!\<close> arm, so that no other
  branch is polled in \<open>Waiting_permit\<close>.  A handler that ends or panics drops its permit.\<close>

inductive server_step :: "server \<Rightarrow> server \<Rightarrow> bool" where
  accept: "phase s = Accepting \<Longrightarrow> server_step s (s\<lparr>phase := Waiting_permit\<rparr>)"
| accept_error: "phase s = Accepting \<Longrightarrow> server_step s (s\<lparr>phase := Stopped (Err e)\<rparr>)"
| acquire: "phase s = Waiting_permit \<Longrightarrow> \<not> sem_closed s \<Longrightarrow> 0 < permits s \<Longrightarrow>
    server_step s (s\<lparr>phase := Accepting, permits := permits s - 1, running := Suc (running s)\<rparr>)"
| acquire_closed: "phase s = Waiting_permit \<Longrightarrow> sem_closed s \<Longrightarrow> server_step s (s\<lparr>phase := Draining\<rparr>)"
| handler_end: "0 < running s \<Longrightarrow> (\<forall>r. phase s \<noteq> Stopped r) \<Longrightarrow>
    server_step s (s\<lparr>running := running s - 1, permits := Suc (permits s)\<rparr>)"
| shutdown: "phase s = Accepting \<Longrightarrow> server_step s (s\<lparr>phase := Draining, sem_closed := True\<rparr>)"
| drained: "phase s = Draining \<Longrightarrow> running s = 0 \<Longrightarrow>
    server_step s (s\<lparr>phase := Cancelling, token_cancelled := True\<rparr>)"
| drain_timeout: "phase s = Draining \<Longrightarrow>
    server_step s (s\<lparr>phase := Cancelling, aborted := True, token_cancelled := True\<rparr>)"
| fsync_finish: "token_cancelled s \<Longrightarrow> fsync_running s \<Longrightarrow> server_step s (s\<lparr>fsync_running := False\<rparr>)"
| stop: "phase s = Cancelling \<Longrightarrow> \<not> fsync_running s \<Longrightarrow> server_step s (s\<lparr>phase := Stopped (Ok ())\<rparr>)"

inductive_simps server_step_simps: "server_step s s'"

inductive server_reach :: "nat \<Rightarrow> bool \<Rightarrow> server \<Rightarrow> bool" for m f where
  init: "server_reach m f (server_init m f)"
| step: "server_reach m f s \<Longrightarrow> server_step s s' \<Longrightarrow> server_reach m f s'"

definition server_inv :: "nat \<Rightarrow> server \<Rightarrow> bool" where
  "server_inv m s \<longleftrightarrow> running s + permits s = m
     \<and> (sem_closed s \<longrightarrow> phase s \<noteq> Accepting \<and> phase s \<noteq> Waiting_permit)
     \<and> (token_cancelled s \<longrightarrow> phase s = Cancelling \<or> phase s = Stopped (Ok ()))
     \<and> (phase s = Cancelling \<or> phase s = Stopped (Ok ()) \<longrightarrow> running s = 0 \<or> aborted s)
     \<and> (phase s = Stopped (Ok ()) \<longrightarrow> \<not> fsync_running s)"

lemma server_step_inv: "server_step s s' \<Longrightarrow> server_inv m s \<Longrightarrow> server_inv m s'"
  by (induction rule: server_step.induct) (auto simp: server_inv_def)

lemma server_reach_inv: "server_reach m f s \<Longrightarrow> server_inv m s"
proof (induction rule: server_reach.induct)
  case init
  then show ?case by (simp add: server_inv_def server_init_def)
next
  case (step s s')
  from server_step_inv [OF step(2,3)] show ?case .
qed

lemma server_reach_steps: "server_step\<^sup>*\<^sup>* s s' \<Longrightarrow> server_reach m f s \<Longrightarrow> server_reach m f s'"
  by (induction rule: rtranclp_induct) (auto intro: server_reach.step)

section \<open>From the command line to the accept loop\<close>

text \<open>The command line, as \<open>clap\<close> hands it to \<open>main\<close>.\<close>

record cli =
  cli_bind :: string
  cli_port :: "16 word"
  cli_config :: "string option"

text \<open>What \<open>main\<close> does before it accepts: \<open>max_permits\<close> is the largest count that \<open>Semaphore::new\<close> takes
  without a panic, \<open>bind_to\<close> the result of binding the listener to an address.\<close>

definition boot ::
    "'cfg config_crate \<Rightarrow> file_system \<Rightarrow> nat \<Rightarrow> (string \<Rightarrow> (unit, io_error) result) \<Rightarrow> cli \<Rightarrow> (nat \<Rightarrow> env)
      \<Rightarrow> (server \<times> executor \<times> aof_writer option, io_error) result store_op" where
  "boot cr fs max_permits bind_to args es =
     (case server_config cr (cli_config args) of
        Panic \<Rightarrow> panic_op
      | Ret (Err e) \<Rightarrow> ret_op (Err e)
      | Ret (Ok cfg) \<Rightarrow>
          bind_op (startup fs cfg es) (\<lambda>r.
            case r of
              Err e \<Rightarrow> ret_op (Err e)
            | Ok (x, aof) \<Rightarrow>
                let has_fsync = (case aof of Some w \<Rightarrow> spawn_fsync_task w \<noteq> None | None \<Rightarrow> False) in
                if max_connections cfg > max_permits then panic_op
                else case bind_to (cli_bind args @ '':'' @ show_nat (unat (cli_port args))) of
                       Err e \<Rightarrow> ret_op (Err e)
                     | Ok _ \<Rightarrow> ret_op (Ok (server_init (max_connections cfg) has_fsync, x, aof))))"

lemma boot_Ok:
  assumes "boot cr fs mp bind_to args es s0 = (Ret (Ok (srv, x, aof)), s)"
  shows "\<exists>cfg f. server_config cr (cli_config args) = Ret (Ok cfg) \<and> startup fs cfg es s0 = (Ret (Ok (x, aof)), s) \<and>
    srv = server_init (max_connections cfg) f \<and> (f \<longrightarrow> appendfsync cfg = EverySec)"
proof -
  obtain cfg where cfg: "server_config cr (cli_config args) = Ret (Ok cfg)"
    using assms by (auto simp: boot_def panic_op_def ret_op_def split: outcome.splits result.splits)
  then have st: "startup fs cfg es s0 = (Ret (Ok (x, aof)), s)"
    using assms by (auto simp: boot_def panic_op_def ret_op_def bind_op_def Let_def
        split: outcome.splits result.splits prod.splits if_splits)
  have "fsync_mode w = appendfsync cfg" if "aof = Some w" for w
    using st that by (auto simp: startup_def bind_op_def ret_op_def bind_res_eq_Ok Let_def
        split: outcome.splits result.splits prod.splits dest: aof_open_mode)
  with cfg st assms show ?thesis
    by (auto simp: boot_def bind_op_def panic_op_def ret_op_def Let_def spawn_fsync_task_def
        split: result.splits if_splits option.splits)
qed

section \<open>A concrete server\<close>

definition demo_fs :: file_system where
  "demo_fs = \<lparr>create_dir_all = (\<lambda>_. Ok ()), open_append = (\<lambda>_. Ok []), fs_exists = (\<lambda>_. Ok False),
     open_read = (\<lambda>_. Ok []), error_text = (\<lambda>_. [])\<rparr>"

definition demo_cli :: cli where
  "demo_cli = \<lparr>cli_bind = ''127.0.0.1'', cli_port = 6379, cli_config = None\<rparr>"

lemma demo_config:
  "\<exists>cfg. server_config demo_crate (cli_config demo_cli) = Ret (Ok cfg) \<and> max_connections cfg = 100 \<and>
     \<not> appendonly cfg \<and> \<not> cfg_lazyfree_lazy_user_flush cfg"
proof -
  obtain cfg where cfg: "default_config = Ret cfg" "max_connections cfg = 100" "\<not> appendonly cfg"
    "\<not> cfg_lazyfree_lazy_user_flush cfg" using default_config_total by blast
  have "server_config demo_crate (cli_config demo_cli) = Ret (Ok cfg)"
    unfolding server_config_def cfg(1) by (simp add: demo_cli_def)
  with cfg show ?thesis by blast
qed

lemma demo_boot:
  "\<exists>srv. boot demo_crate demo_fs 1000 (\<lambda>_. Ok ()) demo_cli es s = (Ret (Ok (srv, \<lparr>lazyfree_lazy_user_flush = False\<rparr>, None)), s)"
  using demo_config by (auto simp: boot_def startup_def sync_store_with_aof_def aof_open_def bind_op_def ret_op_def Let_def)

section \<open>Properties\<close>

text \<open>C39: a server that has booted, from a configuration file or from the defaults, never serves
  more handlers than the loaded configuration allows, and permits are never lost: at every moment of its
  run, running handlers and free permits add up to the configured maximum.\<close>

theorem connections_bounded:
  assumes "boot cr fs max_permits bind_to args es s0 = (Ret (Ok (srv, x, aof)), s1)" "server_step\<^sup>*\<^sup>* srv s"
  shows "\<exists>cfg. server_config cr (cli_config args) = Ret (Ok cfg) \<and> running s \<le> max_connections cfg \<and>
    running s + permits s = max_connections cfg"
proof -
  obtain cfg f where cfg: "server_config cr (cli_config args) = Ret (Ok cfg)" "srv = server_init (max_connections cfg) f"
    using boot_Ok [OF assms(1)] by blast
  with server_reach_inv [OF server_reach_steps [OF assms(2) server_reach.init [of "max_connections cfg" f, folded cfg(2)]]]
  show ?thesis by (auto simp: server_inv_def)
qed

theorem connections_bounded_witness:
  "\<exists>srv x aof. fst (boot demo_crate demo_fs 1000 (\<lambda>_. Ok ()) demo_cli (\<lambda>_. demo_env 0 0) store_new) =
     Ret (Ok (srv, x, aof)) \<and> running srv \<le> 100 \<and> running srv + permits srv = 100"
proof -
  obtain srv where b: "boot demo_crate demo_fs 1000 (\<lambda>_. Ok ()) demo_cli (\<lambda>_. demo_env 0 0) store_new =
      (Ret (Ok (srv, \<lparr>lazyfree_lazy_user_flush = False\<rparr>, None)), store_new)" using demo_boot by blast
  have "server_config demo_crate (cli_config demo_cli) = Ret (Ok cfg) \<Longrightarrow> max_connections cfg = 100" for cfg
    using demo_config by auto
  with connections_bounded [OF b rtranclp.rtrancl_refl] b show ?thesis by auto
qed

text \<open>A shutdown that completes is orderly: every handler has ended or the drain timed out and
  they were aborted, the background tasks were cancelled before, and the final fsync of the AOF is
  done.\<close>

theorem shutdown_orderly:
  "server_reach m f s \<Longrightarrow> phase s = Stopped (Ok ()) \<Longrightarrow> (running s = 0 \<or> aborted s) \<and> \<not> fsync_running s"
  by (drule server_reach_inv) (simp add: server_inv_def)

theorem shutdown_orderly_witness:
  "\<exists>s. server_reach 1 False s \<and> phase s = Stopped (Ok ()) \<and> (running s = 0 \<or> aborted s) \<and> \<not> fsync_running s"
proof -
  let ?d = "(server_init 1 False)\<lparr>phase := Draining, sem_closed := True\<rparr>"
  let ?c = "?d\<lparr>phase := Cancelling, token_cancelled := True\<rparr>"
  have "server_reach 1 False ?d"
    by (rule server_reach.step [OF server_reach.init server_step.shutdown]) (simp add: server_init_def)
  then have "server_reach 1 False ?c"
    by (rule server_reach.step [OF _ server_step.drained]) (simp_all add: server_init_def)
  then have r: "server_reach 1 False (?c\<lparr>phase := Stopped (Ok ())\<rparr>)"
    by (rule server_reach.step [OF _ server_step.stop]) (simp_all add: server_init_def)
  with shutdown_orderly [OF r] show ?thesis by (intro exI [of _ "?c\<lparr>phase := Stopped (Ok ())\<rparr>"]) simp
qed

text \<open>Once a connection has been accepted with all permits taken, the server cannot shut down:
  the main task waits inside the accept branch and the only thing that can happen is that a client
  leaves.\<close>

theorem saturated_server_ignores_shutdown:
  assumes "server_reach m f s" "phase s = Waiting_permit" "permits s = 0" "server_step s s'"
  shows "s' = s\<lparr>running := running s - 1, permits := 1\<rparr>"
  using assms(4) server_reach_inv [OF assms(1)] assms(2,3)
  by (cases rule: server_step.cases) (auto simp: server_inv_def)

theorem saturated_server_ignores_shutdown_witness:
  "\<exists>s. server_reach 1 False s \<and> phase s = Waiting_permit \<and> permits s = 0 \<and>
     (\<forall>s'. server_step s s' \<longrightarrow> s' = s\<lparr>running := 0, permits := 1\<rparr>)"
proof -
  let ?w = "(server_init 1 False)\<lparr>phase := Waiting_permit\<rparr>"
  let ?a = "?w\<lparr>phase := Accepting, permits := 0, running := 1\<rparr>"
  let ?s = "?a\<lparr>phase := Waiting_permit\<rparr>"
  have "server_reach 1 False ?w"
    by (rule server_reach.step [OF server_reach.init server_step.accept]) (simp add: server_init_def)
  then have "server_reach 1 False (?w\<lparr>phase := Accepting, permits := permits ?w - 1, running := Suc (running ?w)\<rparr>)"
    by (rule server_reach.step [OF _ server_step.acquire]) (simp_all add: server_init_def)
  then have "server_reach 1 False ?a" by (simp add: server_init_def)
  then have r: "server_reach 1 False ?s"
    by (rule server_reach.step [OF _ server_step.accept]) (simp add: server_init_def)
  have "s' = ?s\<lparr>running := 0, permits := 1\<rparr>" if "server_step ?s s'" for s'
    using saturated_server_ignores_shutdown [OF r _ _ that] by (simp add: server_init_def)
  then have "\<forall>s'. server_step ?s s' \<longrightarrow> s' = ?s\<lparr>running := 0, permits := 1\<rparr>" by blast
  moreover have "phase ?s = Waiting_permit" "permits ?s = 0" by simp_all
  ultimately show ?thesis using r by blast
qed

end
