(* ===== verification/Tasks.thy ===== *)
theory Tasks
  imports Server
begin

text \<open>
  The executor as a sequence of critical sections.  \<open>execute\<close> composes the store calls of a command
  for one client alone; in the server the calls of several clients and of the eviction daemon
  interleave between lock acquisitions.  A \<open>task\<close> is a computation that has stopped at a lock
  acquisition: it has ended, or it waits to run its next critical section.  Every command is given its
  task, and running the task without interruption is shown to be \<open>execute\<close>.
\<close>

section \<open>Tasks\<close>

datatype 'a task = Done "'a outcome" | Section "store \<Rightarrow> 'a task \<times> store"

primrec run_task :: "'a task \<Rightarrow> 'a store_op" where
  "run_task (Done r) = (\<lambda>s. (r, s))"
| "run_task (Section f) = (\<lambda>s. case (map_prod run_task id \<circ> f) s of (m, s') \<Rightarrow> m s')"

primrec bind_task :: "'a task \<Rightarrow> ('a \<Rightarrow> 'b task) \<Rightarrow> 'b task" where
  "bind_task (Done r) g = (case r of Ret x \<Rightarrow> g x | Panic \<Rightarrow> Done Panic)"
| "bind_task (Section f) g = Section (map_prod (\<lambda>t. bind_task t g) id \<circ> f)"

text \<open>One store call.\<close>

definition atomic :: "'a store_op \<Rightarrow> 'a task" where
  "atomic m = Section (\<lambda>s. case m s of (r, s') \<Rightarrow> (Done r, s'))"

abbreviation ret_task :: "'a \<Rightarrow> 'a task" where
  "ret_task x \<equiv> Done (Ret x)"

text \<open>Induction over the sections a task still has to run, whatever the store is at each.\<close>

lemma task_induct [case_names Done Section]:
  assumes "\<And>r. P (Done r)" "\<And>f. (\<And>s. P (fst (f s))) \<Longrightarrow> P (Section f)"
  shows "P t"
proof (induction t)
  case (Section f)
  have "P (fst (f s))" for s by (rule Section [of "f s"]) (simp_all add: prod_set_defs)
  then show ?case by (rule assms(2))
qed (rule assms(1))

lemma run_Section: "run_task (Section f) s = (case f s of (t, s') \<Rightarrow> run_task t s')"
  by (simp split: prod.splits)

lemma run_Done: "run_task (Done m) = pure_op m"
  by (simp add: fun_eq_iff pure_op_def)

declare run_task.simps [simp del]
declare run_Section [simp] run_Done [simp]

lemma pure_Ret [simp]: "pure_op (Ret x) = ret_op x"
  by (simp add: fun_eq_iff pure_op_def ret_op_def)

lemma run_atomic [simp]: "run_task (atomic m) = m"
  by (simp add: atomic_def fun_eq_iff pure_op_def split: prod.splits)

lemma run_bind [simp]: "run_task (bind_task t g) = bind_op (run_task t) (\<lambda>x. run_task (g x))"
proof (induction t rule: task_induct)
  case (Done r)
  then show ?case by (cases r) (simp_all add: fun_eq_iff bind_op_def pure_op_def ret_op_def)
next
  case (Section f)
  have "run_task (bind_task (Section f) g) s = bind_op (run_task (Section f)) (\<lambda>x. run_task (g x)) s" for s
    using Section [of s] by (cases "f s") (simp add: bind_op_def)
  then show ?case by (rule ext)
qed

section \<open>The commands as tasks\<close>

fun count_task :: "(nat \<Rightarrow> string \<Rightarrow> bool store_op) \<Rightarrow> nat \<Rightarrow> string list \<Rightarrow> int \<Rightarrow> resp_value task" where
  "count_task f i [] count = ret_task (Integer count)"
| "count_task f i (k # ks) count =
     bind_task (atomic (f i k)) (\<lambda>b. count_task f (Suc i) ks (count + (if b then 1 else 0)))"

fun push_task :: "(nat \<Rightarrow> int) \<Rightarrow> push_fn \<Rightarrow> string \<Rightarrow> nat \<Rightarrow> string list \<Rightarrow> nat \<Rightarrow> resp_value task" where
  "push_task now push_fn key i [] n = ret_task (len_reply n)"
| "push_task now push_fn key i (element # elements) n =
     bind_task (atomic (push_fn (now i) key element)) (\<lambda>r.
       case r of
         Ok n' \<Rightarrow> push_task now push_fn key (Suc i) elements n'
       | Err e \<Rightarrow> ret_task (error_reply e))"

text \<open>\<open>SET\<close>: the read of the old value, the read of the old deadline with \<open>KEEPTTL\<close>, the write of the
  value and the write of the deadline are sections of their own.\<close>

definition set_write_task ::
    "env \<Rightarrow> string \<Rightarrow> string \<Rightarrow> set_expiry option \<Rightarrow> resp_value option task" where
  "set_write_task e key value expiry =
     bind_task (if expiry = Some KeepTtl then atomic (store_get_ttl key) else ret_task None) (\<lambda>prev_ttl.
       bind_task (atomic (store_set_string key value)) (\<lambda>_.
         atomic (set_expiry_step e key expiry prev_ttl)))"

definition set_finish_task ::
    "env \<Rightarrow> string \<Rightarrow> string \<Rightarrow> set_condition option \<Rightarrow> set_expiry option \<Rightarrow> bool
      \<Rightarrow> (string option, store_error) result \<Rightarrow> resp_value task" where
  "set_finish_task e key value condition expiry get r =
     (case r of
        Err x \<Rightarrow> ret_task (error_reply x)
      | Ok prev \<Rightarrow>
          (let met = condition_met e condition prev in
           bind_task (if met then set_write_task e key value expiry else ret_task None) (\<lambda>early.
             case early of
               Some resp \<Rightarrow> ret_task resp
             | None \<Rightarrow>
                 if get then ret_task (BulkString prev)
                 else if met then ret_task ok_reply
                 else ret_task (BulkString None))))"

definition set_task ::
    "env \<Rightarrow> string \<Rightarrow> string \<Rightarrow> set_condition option \<Rightarrow> set_expiry option \<Rightarrow> bool \<Rightarrow> resp_value task" where
  "set_task e key value condition expiry get =
     bind_task (atomic (store_get_string (now_at e 0) key)) (set_finish_task e key value condition expiry get)"

definition resolve_expiry_task :: "env \<Rightarrow> string \<Rightarrow> (int \<Rightarrow> int outcome) \<Rightarrow> resp_value task" where
  "resolve_expiry_task e key f =
     bind_task (atomic (store_get_ttl key)) (\<lambda>expiry.
       case expiry of
         Some instant \<Rightarrow>
           (case checked_duration_since instant (now_at e 0) of
              Some remaining \<Rightarrow> bind_task (Done (f remaining)) (\<lambda>n. ret_task (Integer n))
            | None \<Rightarrow> ret_task (Integer (- 2)))
       | None \<Rightarrow>
           bind_task (atomic (store_exists (now_at e 0) key)) (\<lambda>b. ret_task (Integer (if b then - 1 else - 2))))"

definition evict_task :: "env \<Rightarrow> unit task" where
  "evict_task e =
     bind_task (atomic (store_sample_eviction_index e N)) (\<lambda>sample_pairs.
       atomic (store_delete_bulk (expired_sample (now_at e 0) sample_pairs)))"

text \<open>The commands that make several store calls, as their tasks; the others make at most one.\<close>

definition exec_task :: "executor \<Rightarrow> env \<Rightarrow> command \<Rightarrow> resp_value task" where
  "exec_task x e c =
     (case c of
        Set key value condition expiry get \<Rightarrow> set_task e key value condition expiry get
      | Delete keys \<Rightarrow> count_task (\<lambda>_. store_delete) 0 keys 0
      | Exists keys \<Rightarrow> count_task (\<lambda>i. store_exists (now_at e i)) 0 keys 0
      | LPush key elements \<Rightarrow> push_task (now_at e) store_lpush key 0 elements 0
      | RPush key elements \<Rightarrow> push_task (now_at e) store_rpush key 0 elements 0
      | LPushX key elements \<Rightarrow> push_task (now_at e) store_lpushx key 0 elements 0
      | RPushX key elements \<Rightarrow> push_task (now_at e) store_rpushx key 0 elements 0
      | Ttl key \<Rightarrow> resolve_expiry_task e key (\<lambda>r. Ret (as_i64 (as_secs r)))
      | PTtl key \<Rightarrow> resolve_expiry_task e key (\<lambda>r. Ret (as_i64 (as_millis r)))
      | ExpireTime key \<Rightarrow> resolve_expiry_task e key (\<lambda>r.
          if unix_at e 0 < 0 then Panic
          else let now_secs = as_i64 (as_secs (unix_at e 0))
               in i64_add (overflow_checks e) now_secs (as_i64 (as_secs r)))
      | PExpireTime key \<Rightarrow> resolve_expiry_task e key (\<lambda>r.
          if unix_at e 0 < 0 then Panic
          else let now_ms = as_i64 (as_millis (unix_at e 0))
               in i64_add (overflow_checks e) now_ms (as_i64 (as_millis r)))
      | _ \<Rightarrow> atomic (execute x e c))"

definition respond_task :: "executor \<Rightarrow> env \<Rightarrow> (command, handler_error) result \<Rightarrow> resp_value task" where
  "respond_task x e cmd = (case cmd of Ok c \<Rightarrow> exec_task x e c | Err _ \<Rightarrow> atomic (respond x e cmd))"

section \<open>Uninterrupted tasks\<close>

lemma run_count: "run_task (count_task f i ks n) = count_loop f i ks n"
  by (induction ks arbitrary: i n) simp_all

lemma run_push: "run_task (push_task now f k i xs n) = push_loop now f k i xs n"
proof (induction xs arbitrary: i n)
  case (Cons x xs)
  have "run_task (case r of Ok n' \<Rightarrow> push_task now f k (Suc i) xs n' | Err e \<Rightarrow> ret_task (error_reply e)) =
      (case r of Ok n' \<Rightarrow> push_loop now f k (Suc i) xs n' | Err e \<Rightarrow> ret_op (error_reply e))" for r
    using Cons by (cases r) simp_all
  then show ?case by simp
qed simp

lemma run_resolve: "run_task (resolve_expiry_task e k f) = resolve_expiry e k f"
  unfolding resolve_expiry_task_def resolve_expiry_def run_bind run_atomic
  by (intro arg_cong2 [where f = bind_op] refl ext) (simp add: del: bind_task.simps split: option.splits)

lemma run_set_finish: "run_task (set_finish_task e k v c x g r) = set_finish e k v c x g r"
proof -
  have wr: "run_task (set_write_task e k v x) = set_write e k v x"
    by (simp add: set_write_task_def set_write_def)
  have tl: "run_task (case early of Some resp \<Rightarrow> ret_task resp | None \<Rightarrow> if g then ret_task (BulkString p)
        else if b then ret_task ok_reply else ret_task (BulkString None)) =
      (case early of Some resp \<Rightarrow> ret_op resp | None \<Rightarrow> if g then ret_op (BulkString p)
        else if b then ret_op ok_reply else ret_op (BulkString None))" for early p b
    by (simp split: option.splits)
  show ?thesis
    by (cases r) (simp_all add: set_finish_task_def set_finish_def Let_def wr tl)
qed

lemma run_set: "run_task (set_task e k v c x g) = exec_set e k v c x g"
  by (simp add: set_task_def exec_set_def run_set_finish)

lemma run_evict: "run_task (evict_task e) = evict_expired e"
  by (simp add: evict_task_def evict_expired_def Let_def)

lemma run_exec_task: "run_task (exec_task x e c) = execute x e c"
  by (cases c) (simp_all add: exec_task_def run_set run_count run_push run_resolve exec_delete_def exec_exists_def
      exec_lpush_def exec_rpush_def exec_lpushx_def exec_rpushx_def exec_push_inner_def exec_ttl_def exec_pttl_def
      exec_expire_time_def exec_pexpire_time_def)

lemma run_respond_task: "run_task (respond_task x e cmd) = respond x e cmd"
  by (cases cmd) (simp_all add: respond_task_def respond_def run_exec_task)

end
