(* ===== verification/Persistence.thy ===== *)
theory Persistence
  imports Handler
begin

text \<open>
  Persistence across the handler, the append-only file and the executor: what a session logs, and
  what replaying the log does.  On a store without deadlines the commands that are logged verbatim
  behave the same at any time, a write that is not logged changed nothing, and the log of a session
  rebuilds the store.  The commands for which this fails are shown to fail.
\<close>

section \<open>Stores without deadlines\<close>

definition calm :: "store \<Rightarrow> bool" where
  "calm s \<longleftrightarrow> expiry_index (inner s) = fmempty"

lemma inner_get_calm [simp]: "expiry_index g = fmempty \<Longrightarrow> inner_get t k g = fmlookup (data g) k"
  by (simp add: inner_get_def)

lemma inner_calm [simp]:
  "expiry_index g = fmempty \<Longrightarrow> expiry_index (inner_put k v g) = fmempty"
  "expiry_index g = fmempty \<Longrightarrow> expiry_index (inner_remove k g) = fmempty"
  by (simp_all add: inner_put_def inner_remove_def fmdrop_absent)

text \<open>Two operations that do the same on a calm store and leave it calm.\<close>

definition same_calm :: "'a store_op \<Rightarrow> 'a store_op \<Rightarrow> bool" where
  "same_calm m m' \<longleftrightarrow> (\<forall>s. calm s \<longrightarrow> m s = m' s \<and> calm (snd (m s)))"

lemma same_calm_bind:
  assumes "same_calm m m'" "\<And>x. same_calm (f x) (f' x)"
  shows "same_calm (bind_op m f) (bind_op m' f')"
  using assms by (fastforce simp: same_calm_def bind_op_def split: prod.splits outcome.splits)

lemma same_calm_ret [intro]: "same_calm (ret_op x) (ret_op x)"
  by (simp add: same_calm_def ret_op_def)

lemma same_calm_reply: "same_calm m m' \<Longrightarrow> same_calm (reply f m) (reply f m')"
  unfolding reply_def by (intro same_calm_bind same_calm_ret)

lemma same_calm_write:
  assumes "\<And>g. expiry_index g = fmempty \<Longrightarrow> f g = f' g \<and> expiry_index (snd (f g)) = fmempty"
  shows "same_calm (with_write f) (with_write f')"
  unfolding same_calm_def
proof (intro allI impI)
  fix s :: store
  assume "calm s"
  with assms [of "inner s"] show "with_write f s = with_write f' s \<and> calm (snd (with_write f s))"
    by (cases "f' (inner s)") (auto simp: calm_def with_write_def split: outcome.splits)
qed

lemma same_calm_read:
  "(\<And>g. expiry_index g = fmempty \<Longrightarrow> f g = f' g) \<Longrightarrow> same_calm (with_read f) (with_read f')"
  by (simp add: same_calm_def calm_def with_read_def)

lemma same_calm_guard: "same_calm m m' \<Longrightarrow> same_calm (\<lambda>s. if b then (Panic, s) else m s) (\<lambda>s. if b then (Panic, s) else m' s)"
  unfolding same_calm_def by (metis snd_conv)

lemma mset_calm: "expiry_index g = fmempty \<Longrightarrow> expiry_index (fold (\<lambda>(k, v). inner_put k (Str v)) kvs g) = fmempty"
  by (induction kvs arbitrary: g) auto

lemma store_same_calm:
  "same_calm (store_set k v) (store_set k v)" "same_calm (store_delete k) (store_delete k)"
  "same_calm (store_persist k) (store_persist k)" "same_calm store_clear store_clear"
  "same_calm store_clear_async store_clear_async" "same_calm (store_mset kvs) (store_mset kvs)"
  "same_calm (store_push_inner t k y c f) (store_push_inner t' k y c f)"
  "same_calm (store_sadd t k ms) (store_sadd t' k ms)" "same_calm (store_srem t k ms) (store_srem t' k ms)"
  unfolding store_set_def store_delete_def store_persist_def store_clear_def store_clear_async_def store_mset_def
    store_push_inner_def store_sadd_def store_srem_def
  by (rule same_calm_write; simp add: Let_def mset_calm fmdrop_absent split: option.splits store_value.splits prod.splits)+

lemma pop_same_calm: "same_calm (store_pop_inner t k n f) (store_pop_inner t' k n f)"
  unfolding store_pop_inner_def
  by (rule same_calm_guard, rule same_calm_write) (simp split: option.splits store_value.splits prod.splits)

lemma smove_same_calm: "same_calm (store_smove t1 t2 t3 t4 a b m) (store_smove u1 u2 u3 u4 a b m)"
proof -
  have take: "smove_take t a m g = smove_take u a m g \<and> expiry_index (snd (smove_take t a m g)) = fmempty"
    if "expiry_index g = fmempty" for t u g
    using that by (simp add: smove_take_def Let_def split: option.splits store_value.splits)
  have put: "smove_put t b m g = smove_put u b m g \<and> expiry_index (snd (smove_put t b m g)) = fmempty"
    if "expiry_index g = fmempty" for t u g
    using that by (simp add: smove_put_def split: option.splits store_value.splits)
  have both: "(case smove_take t3 a m g of (Panic, g') \<Rightarrow> (Panic, g') | (Ret x, g') \<Rightarrow> smove_put t4 b m g')
      = (case smove_take u3 a m g of (Panic, g') \<Rightarrow> (Panic, g') | (Ret x, g') \<Rightarrow> smove_put u4 b m g') \<and>
      expiry_index (snd (case smove_take u3 a m g of (Panic, g') \<Rightarrow> (Panic, g') | (Ret x, g') \<Rightarrow> smove_put u4 b m g')) = fmempty"
    if "expiry_index g = fmempty" for g
    using take [OF that, of t3 u3] put [of "snd (smove_take t3 a m g)" t4 u4]
    by (auto split: prod.splits outcome.splits)
  show ?thesis
    unfolding store_smove_def
    by (rule same_calm_write) (use both in \<open>auto simp: Let_def split: option.splits store_value.splits\<close>)
qed

lemma push_loop_same_calm:
  "(\<And>t u y. same_calm (f t k y) (f u k y)) \<Longrightarrow> same_calm (push_loop now f k i xs n) (push_loop now' f k i xs n)"
  by (induction xs arbitrary: i n) (auto intro!: same_calm_bind split: result.splits)

lemma count_loop_same_calm:
  "(\<And>i j k. same_calm (f i k) (f' j k)) \<Longrightarrow> same_calm (count_loop f i ks n) (count_loop f' i ks n)"
  by (induction ks arbitrary: i n) (auto intro!: same_calm_bind)

lemma get_string_same_calm: "same_calm (store_get_string t k) (store_get_string t' k)"
proof -
  have "same_calm (store_get t k) (store_get t' k)"
    unfolding store_get_def by (rule same_calm_read) simp
  then show ?thesis unfolding store_get_string_def by (intro same_calm_bind same_calm_ret)
qed

lemma set_same_calm:
  assumes "xxh3 e = xxh3 e'"
  shows "same_calm (exec_set e k v c None g) (exec_set e' k v c None g)"
proof -
  have met: "condition_met e c p = condition_met e' c p" for p
    using assms by (auto simp: condition_met_def digest_value_def split: option.splits set_condition.splits)
  have wr: "same_calm (set_write e k v None) (set_write e' k v None)"
    unfolding set_write_def set_expiry_step_def store_set_string_def
    by (auto intro!: same_calm_bind store_same_calm)
  have "same_calm (set_finish e k v c None g r) (set_finish e' k v c None g r)" for r
    unfolding set_finish_def Let_def met
    by (auto split: result.splits option.splits intro!: same_calm_bind wr)
  then show ?thesis unfolding exec_set_def by (intro same_calm_bind get_string_same_calm)
qed

section \<open>Commands that replay\<close>

text \<open>The writes whose effect on a store without deadlines depends on neither clock nor chance.\<close>

fun replayable :: "command \<Rightarrow> bool" where
  "replayable (Set _ _ _ x _) = (x = None)"
| "replayable (Delete _) = True"
| "replayable (MSet _) = True"
| "replayable (LPush _ _) = True"
| "replayable (RPush _ _) = True"
| "replayable (LPushX _ _) = True"
| "replayable (RPushX _ _) = True"
| "replayable (LPop _ _) = True"
| "replayable (RPop _ _) = True"
| "replayable (SAdd _ _) = True"
| "replayable (SMove _ _ _) = True"
| "replayable (SRem _ _) = True"
| "replayable (Persist _) = True"
| "replayable (FlushDb _) = True"
| "replayable _ = False"

lemmas push_pop_defs = exec_lpush_def exec_rpush_def exec_lpushx_def exec_rpushx_def exec_push_inner_def
  exec_lpop_def exec_rpop_def exec_pop_inner_def store_lpush_def store_rpush_def store_lpushx_def
  store_rpushx_def store_lpop_def store_rpop_def

lemma execute_same_calm:
  assumes "replayable c" "xxh3 e = xxh3 e'"
  shows "same_calm (execute x e c) (execute x e' c)"
  using assms(1)
  by (cases c) (auto simp: push_pop_defs exec_delete_def exec_mset_def exec_sadd_def exec_smove_def exec_srem_def
      exec_persist_def exec_flush_db_def set_same_calm [OF assms(2)] split: option.splits flush_mode.splits
      intro!: same_calm_bind same_calm_reply store_same_calm pop_same_calm smove_same_calm push_loop_same_calm
        count_loop_same_calm)


section \<open>Unlogged writes change nothing\<close>

text \<open>No collection has more elements than \<open>i64::MAX\<close>; an allocation is never that large.\<close>

definition within_limits :: "store \<Rightarrow> bool" where
  "within_limits s \<longleftrightarrow> (\<forall>k v. fmlookup (data (inner s)) k = Some v \<longrightarrow>
     (case v of ListVal l \<Rightarrow> int (length l) \<le> i64_max | SetVal u \<Rightarrow> int (fcard u) \<le> i64_max | Str _ \<Rightarrow> True))"

definition unlogged_reply :: "resp_value \<Rightarrow> bool" where
  "unlogged_reply r \<longleftrightarrow> (\<exists>m. r = SimpleError m) \<or> r = Integer 0"

lemma unlogged_len_reply: "unlogged_reply (len_reply n) \<Longrightarrow> int n \<le> i64_max \<Longrightarrow> n = 0"
  by (auto simp: unlogged_reply_def len_reply_def cast_simps)

lemma keyspace_calm: "expiry_index g = fmempty \<Longrightarrow> keyspace t g k = map_option (\<lambda>v. (v, None)) (fmlookup (data g) k)"
  by (simp add: keyspace_def expired_def)

lemma within_limitsD:
  "within_limits s \<Longrightarrow> fmlookup (data (inner s)) k = Some (ListVal l) \<Longrightarrow> int (length l) \<le> i64_max"
  "within_limits s \<Longrightarrow> fmlookup (data (inner s)) k = Some (SetVal u) \<Longrightarrow> int (fcard u) \<le> i64_max"
  by (fastforce simp: within_limits_def)+

lemma same_calmD: "same_calm m m' \<Longrightarrow> calm s \<Longrightarrow> m s = m' s \<and> calm (snd (m s))"
  unfolding same_calm_def by blast

text \<open>A push loop at the store level, for the four operations at once.\<close>

lemma push_unlogged:
  assumes op: "push_operation f push create" and same: "\<And>t u y. same_calm (f t k y) (f u k y)"
    and len: "\<And>l ys. length (foldl push l ys) = length l + length ys"
    and s: "calm s" "\<not> poisoned s" "xs \<noteq> []" "within_limits s'"
    and run: "push_loop now f k 0 xs 0 s = (Ret r, s')" "unlogged_reply r"
    and absent: "\<not> create \<Longrightarrow> fmlookup (data (inner s)) k = None \<Longrightarrow> s' = s"
  shows "s' = s"
proof -
  let ?ks = "\<lambda>s. keyspace 0 (inner s)"
  have run0: "push_loop (\<lambda>_. 0) f k 0 xs 0 s = (Ret r, s')" and c': "calm s'"
    using same_calmD [OF _ s(1)] push_loop_same_calm [of f k now 0 xs 0 "\<lambda>_. 0"] same run(1)
    by (metis snd_conv)+
  note batch = push_operation.push_batch [OF op s(2) refl s(3), of 0 k 0 0, unfolded run0]
  have data: "fmlookup (data (inner s')) k = Some (ListVal l)" if "?ks s' k = Some (ListVal l, d)" for l d
    using keyspace_SomeD [OF that] by simp
  show ?thesis
  proof (cases "fmlookup (data (inner s)) k")
    case None
    then have ks: "?ks s k = None" using s(1) by (simp add: keyspace_calm calm_def)
    show ?thesis
    proof (cases create)
      case True
      with batch ks have r: "r = len_reply (length xs)" "?ks s' k = Some (ListVal (foldl push [] xs), None)" by auto
      with unlogged_len_reply [of "length xs"] run(2) within_limitsD(1) [OF s(4) data [OF r(2)]] len [of "[]" xs] s(3)
      show ?thesis by simp
    qed (use absent None in blast)
  next
    case (Some v)
    then have ks: "?ks s k = Some (v, None)" using s(1) by (simp add: keyspace_calm calm_def)
    show ?thesis
    proof (cases v)
      case (ListVal l)
      with batch ks have r: "r = len_reply (length l + length xs)"
        "?ks s' k = Some (ListVal (foldl push l xs), None)" by auto
      with unlogged_len_reply [of "length l + length xs"] run(2) within_limitsD(1) [OF s(4) data [OF r(2)]]
        len [of l xs] s(3)
      show ?thesis by simp
    qed (use batch ks in auto)
  qed
qed

lemma pushx_absent_unchanged:
  assumes "calm s" "\<not> poisoned s" "fmlookup (data (inner s)) k = None"
    "push_loop now (\<lambda>t k y. store_push_inner t k y False f) k i xs n s = (Ret r, s')"
  shows "s' = s"
  using assms(4)
proof (induction xs arbitrary: i n)
  case (Cons x xs)
  have "store_push_inner t k x False f s = (Ret (Ok 0), s)" for t
    using assms(1-3) by (intro store_push_inner_cases(2)) (simp_all add: calm_def)
  with Cons show ?case by (simp add: bind_op_def)
qed (simp add: ret_op_def)

lemma foldl_push_length:
  "length (foldl push_front l ys) = length l + length ys" "length (foldl push_back l ys) = length l + length ys"
  by (simp_all add: foldl_push)

lemma delete_loop_unlogged:
  assumes "count_loop (\<lambda>_. store_delete) i ks n s = (Ret r, s')" "calm s"
  shows "\<exists>m. r = Integer m \<and> n \<le> m \<and> (m = n \<longrightarrow> s' = s)"
  using assms
proof (induction ks arbitrary: i n s)
  case (Cons k ks)
  obtain b s1 where d: "store_delete k s = (Ret b, s1)"
    using Cons.prems(1) by (cases "store_delete k s") (auto simp: bind_op_def split: prod.splits outcome.splits)
  with Cons.prems(1) have rest: "count_loop (\<lambda>_. store_delete) (Suc i) ks (n + (if b then 1 else 0)) s1 = (Ret r, s')"
    by (simp add: bind_op_def)
  have "calm s1" using same_calmD [OF store_same_calm(2) Cons.prems(2)] d by (metis snd_conv)
  from Cons.IH [OF rest this] obtain m where
    m: "r = Integer m" "n + (if b then 1 else 0) \<le> m" "m = n + (if b then 1 else 0) \<longrightarrow> s' = s1" by blast
  have "s1 = s" if "\<not> b"
    using d that Cons.prems(2)
    by (auto simp: store_delete_def op_simps calm_def inner_remove_def fmdrop_absent split: if_splits)
  with m show ?case by (cases b) auto
qed (auto simp: ret_op_def)


lemma reply_cases:
  assumes "reply f m s = (Ret r, s')"
  obtains x where "m s = (Ret (Ok x), s')" "r = f x" | e where "m s = (Ret (Err e), s')" "r = error_reply e"
  using assms by (auto simp: reply_def bind_op_def ret_op_def split: prod.splits outcome.splits result.splits)

lemma store_error_unchanged:
  "store_pop_inner t k n f s = (Ret (Err e), s') \<Longrightarrow> s' = s" "store_sadd t k ms s = (Ret (Err e), s') \<Longrightarrow> s' = s"
  "store_srem t k ms s = (Ret (Err e), s') \<Longrightarrow> s' = s"
  by (auto simp: store_pop_inner_def store_sadd_def store_srem_def op_simps Let_def
      split: if_splits option.splits store_value.splits prod.splits)

lemma smove_unmoved_unchanged:
  "store_smove t1 t2 t3 t4 a b m s = (Ret r, s') \<Longrightarrow> r \<noteq> Ok True \<Longrightarrow> s' = s"
  by (auto simp: store_smove_def op_simps Let_def smove_put_def
      split: if_splits option.splits store_value.splits prod.splits outcome.splits)

lemma sadd_unlogged:
  assumes "store_sadd t k ms s = (Ret (Ok n), s')" "calm s" "ms \<noteq> []" "within_limits s'" "unlogged_reply (len_reply n)"
  shows "s' = s"
proof (cases "fmlookup (data (inner s)) k")
  case None
  with assms have n: "n = fcard (fset_of_list ms)" "fmlookup (data (inner s')) k = Some (SetVal (fset_of_list ms))"
    by (auto simp: store_sadd_def op_simps calm_def Let_def inner_put_def split: if_splits)
  with unlogged_len_reply [OF assms(5)] within_limitsD(2) [OF assms(4) n(2)] assms(3) show ?thesis
    by (cases ms) (simp_all add: fcard_finsert_if split: if_splits)
next
  case (Some v)
  with assms(1,2) obtain u where u: "v = SetVal u"
    by (cases v) (auto simp: store_sadd_def op_simps calm_def split: if_splits)
  with Some assms(1,2) have n: "n = fcard (fset_of_list ms |-| u)"
    and s': "s' = s\<lparr>inner := (inner s)\<lparr>data := fmupd k (SetVal (u |\<union>| fset_of_list ms)) (data (inner s))\<rparr>\<rparr>"
    by (auto simp: store_sadd_def op_simps calm_def insert_count_eq split: if_splits)
  have "fcard (fset_of_list ms |-| u) \<le> fcard (u |\<union>| fset_of_list ms)" by (intro fcard_mono) auto
  moreover have "int (fcard (u |\<union>| fset_of_list ms)) \<le> i64_max"
    using within_limitsD(2) [OF assms(4), of k] by (simp add: s')
  ultimately have "fset_of_list ms |-| u = {||}" using unlogged_len_reply [OF assms(5)] n by simp
  then have "u |\<union>| fset_of_list ms = u" by auto
  with Some u show ?thesis by (simp add: s' fmupd_same)
qed

lemma srem_unlogged:
  assumes "store_srem t k ms s = (Ret (Ok n), s')" "calm s" "within_limits s" "unlogged_reply (len_reply n)"
  shows "s' = s"
proof (cases "fmlookup (data (inner s)) k")
  case None
  with assms show ?thesis by (auto simp: store_srem_def op_simps calm_def split: if_splits)
next
  case (Some v)
  with assms(1,2) obtain u where u: "v = SetVal u"
    by (cases v) (auto simp: store_srem_def op_simps calm_def split: if_splits)
  with Some assms(1,2) have n: "n = fcard (u |\<inter>| fset_of_list ms)"
    and s': "s' = s\<lparr>inner := (inner s)\<lparr>data := fmupd k (SetVal (u |-| fset_of_list ms)) (data (inner s))\<rparr>\<rparr>"
    by (auto simp: store_srem_def op_simps calm_def remove_count_eq split: if_splits)
  have "fcard (u |\<inter>| fset_of_list ms) \<le> fcard u" by (intro fcard_mono) auto
  with within_limitsD(2) [OF assms(3) Some [unfolded u]] unlogged_len_reply [OF assms(4)] n
  have "u |\<inter>| fset_of_list ms = {||}" by simp
  then have "u |-| fset_of_list ms = u" by auto
  with Some u show ?thesis by (simp add: s' fmupd_same)
qed

lemma push_command_unlogged:
  assumes "execute x e c s = (Ret r, s')" "unlogged_reply r" "calm s" "\<not> poisoned s" "within_limits s'"
    "wf_command c" "c = LPush k xs \<or> c = RPush k xs \<or> c = LPushX k xs \<or> c = RPushX k xs"
  shows "s' = s"
proof -
  note same = store_same_calm(7)
  have "xs \<noteq> []" using assms(6,7) by auto
  note common = assms(3,4) this assms(5)
  consider "c = LPush k xs" | "c = RPush k xs" | "c = LPushX k xs" | "c = RPushX k xs" using assms(7) by blast
  then show ?thesis
  proof cases
    case 1
    then have run: "push_loop (now_at e) store_lpush k 0 xs 0 s = (Ret r, s')"
      using assms(1) by (simp add: exec_lpush_def exec_push_inner_def)
    show ?thesis
      by (rule push_unlogged [OF op_lpush.push_operation_axioms _ foldl_push_length(1) common run assms(2)])
        (simp_all add: store_lpush_def same)
  next
    case 2
    then have run: "push_loop (now_at e) store_rpush k 0 xs 0 s = (Ret r, s')"
      using assms(1) by (simp add: exec_rpush_def exec_push_inner_def)
    show ?thesis
      by (rule push_unlogged [OF op_rpush.push_operation_axioms _ foldl_push_length(2) common run assms(2)])
        (simp_all add: store_rpush_def same)
  next
    case 3
    then have run: "push_loop (now_at e) store_lpushx k 0 xs 0 s = (Ret r, s')"
      using assms(1) by (simp add: exec_lpushx_def exec_push_inner_def)
    have fn: "store_lpushx = (\<lambda>t k y. store_push_inner t k y False push_front)"
      by (simp add: fun_eq_iff store_lpushx_def)
    show ?thesis
      by (rule push_unlogged [OF op_lpushx.push_operation_axioms _ foldl_push_length(1) common run assms(2)])
        (use run pushx_absent_unchanged [OF assms(3,4)] in \<open>auto simp: fn intro: same\<close>)
  next
    case 4
    then have run: "push_loop (now_at e) store_rpushx k 0 xs 0 s = (Ret r, s')"
      using assms(1) by (simp add: exec_rpushx_def exec_push_inner_def)
    have fn: "store_rpushx = (\<lambda>t k y. store_push_inner t k y False push_back)"
      by (simp add: fun_eq_iff store_rpushx_def)
    show ?thesis
      by (rule push_unlogged [OF op_rpushx.push_operation_axioms _ foldl_push_length(2) common run assms(2)])
        (use run pushx_absent_unchanged [OF assms(3,4)] in \<open>auto simp: fn intro: same\<close>)
  qed
qed


lemma unlogged_reply_simps [simp]:
  "\<not> unlogged_reply ok_reply" "\<not> unlogged_reply (BulkString b)" "\<not> unlogged_reply (Array a)"
  "unlogged_reply (bool_reply p) \<longleftrightarrow> \<not> p" "unlogged_reply (Integer n) \<longleftrightarrow> n = 0"
  by (auto simp: unlogged_reply_def ok_reply_def bool_reply_def)

lemma pop_reply_logged [simp]: "\<not> unlogged_reply (pop_reply b r)"
  by (auto simp: pop_reply_def bulk_array_def split: option.splits)

lemma set_unlogged:
  "exec_set e k v c None g s = (Ret r, s') \<Longrightarrow> \<not> poisoned s \<Longrightarrow> unlogged_reply r \<Longrightarrow> s' = s"
  by (auto simp: exec_set_spec set_spec_def Let_def set_deadline_def split: option.splits store_value.splits if_splits)

lemma unlogged_unchanged:
  assumes "execute x e c s = (Ret r, s')" "unlogged_reply r" "replayable c" "wf_command c" "calm s" "\<not> poisoned s"
    "within_limits s" "within_limits s'"
  shows "s' = s"
proof (cases "\<exists>k xs. c = LPush k xs \<or> c = RPush k xs \<or> c = LPushX k xs \<or> c = RPushX k xs")
  case True
  with push_command_unlogged [OF assms(1,2,5,6,8,4)] show ?thesis by blast
next
  case False
  with assms(3) show ?thesis
  proof (cases c)
    case (Set k v cn y g)
    with assms(1-3,6) set_unlogged show ?thesis by auto
  next
    case (Delete ks)
    with assms(1,2) delete_loop_unlogged [of 0 ks 0 s r s', OF _ assms(5)] show ?thesis
      by (auto simp: exec_delete_def)
  next
    case (LPop k n)
    with assms(1,2) show ?thesis
      by (auto simp: exec_lpop_def exec_pop_inner_def store_lpop_def elim!: reply_cases dest: store_error_unchanged)
  next
    case (RPop k n)
    with assms(1,2) show ?thesis
      by (auto simp: exec_rpop_def exec_pop_inner_def store_rpop_def elim!: reply_cases dest: store_error_unchanged)
  next
    case (SAdd k ms)
    with assms show ?thesis
      by (auto simp: exec_sadd_def elim!: reply_cases dest: store_error_unchanged sadd_unlogged)
  next
    case (SRem k ms)
    with assms show ?thesis
      by (auto simp: exec_srem_def elim!: reply_cases dest: store_error_unchanged srem_unlogged)
  next
    case (SMove a b m)
    with assms(1,2) show ?thesis
      by (auto simp: exec_smove_def elim!: reply_cases dest: smove_unmoved_unchanged)
  next
    case (Persist k)
    with assms(1,2,5,6) show ?thesis
      by (auto simp: exec_persist_def store_persist_def op_simps calm_def)
  next
    case (MSet kvs)
    with assms(1,2) show ?thesis
      by (auto simp: exec_mset_def op_simps split: prod.splits outcome.splits)
  next
    case (FlushDb m)
    with assms(1,2) show ?thesis
      by (auto simp: exec_flush_db_def bind_op_def ret_op_def split: prod.splits outcome.splits)
  qed simp_all
qed

section \<open>Replaying a session\<close>

text \<open>A request the theorem covers: a value that decodes, and parses to an error, to a read or to a
  write that replays.\<close>

definition replay_safe :: "resp_value \<Rightarrow> bool" where
  "replay_safe v \<longleftrightarrow> wf_resp v \<and>
     (case from_resp2 v of
        Panic \<Rightarrow> False
      | Ret (Err _) \<Rightarrow> True
      | Ret (Ok c) \<Rightarrow> replayable c \<or> (\<not> is_write c \<and> (\<forall>k i y. c \<noteq> LSet k i y)))"

lemma replayable_facts: "replayable c \<Longrightarrow> is_write c \<and> expire_info c = None"
  by (cases c) (auto simp: expire_info_def)

lemma append_written:
  "write_result io = Written \<Longrightarrow> buffered w = [] \<Longrightarrow>
     aof_file (snd (aof_append io b w)) = aof_file w @ b \<and> buffered (snd (aof_append io b w)) = []"
  by (auto simp: aof_append_def Let_def sync_data_def split: result.splits)

text \<open>What a covered request parses to.\<close>

lemma replay_safeE:
  assumes "replay_safe v" "from_resp2 v = Ret cmd"
  obtains (error) h where "cmd = Err h"
  | (reads) c where "cmd = Ok c" "\<not> is_write c" "\<And>x e. read_only (execute x e c)"
  | (writes) c where "cmd = Ok c" "replayable c" "wf_command c" "is_write c" "expire_info c = None"
proof (cases cmd)
  case (Ok c)
  show ?thesis
  proof (cases "replayable c")
    case True
    then show ?thesis using replayable_facts [OF True] parsed_wf assms(2) Ok by (intro writes [OF Ok]) auto
  next
    case False
    with assms Ok reads [OF Ok] execute_read_only show ?thesis by (auto simp: replay_safe_def)
  qed
qed (rule error)

text \<open>A request that is answered: either it is not logged and the store stands, or it is a write that replays.\<close>

lemma respond_logged:
  assumes "respond x e cmd s = (Ret r, s')" "replay_safe v" "from_resp2 v = Ret cmd" "calm s" "\<not> poisoned s"
    "within_limits s" "within_limits s'"
  shows "calm s' \<and> \<not> poisoned s' \<and> (\<not> is_logged cmd r \<and> s' = s \<or>
    is_logged cmd r \<and> (\<exists>c. cmd = Ok c \<and> replayable c \<and> execute x e c s = (Ret r, s')))"
  using assms(2,3)
proof (cases rule: replay_safeE)
  case (error h)
  with assms(1,4,5) show ?thesis by (cases h) (auto simp: respond_def ret_op_def is_logged_def is_write_cmd_def)
next
  case (reads c)
  with assms(1) have "s' = s" by (auto simp: respond_def read_only_def) (metis snd_conv)
  with reads(1,2) assms(4,5) show ?thesis by (simp add: is_logged_def is_write_cmd_def)
next
  case (writes c)
  then have ex: "execute x e c s = (Ret r, s')" using assms(1) by (simp add: respond_def)
  have keep: "calm s'" "\<not> poisoned s'"
    using same_calmD [OF execute_same_calm [OF writes(2) refl] assms(4), of x e] ex execute_Ret_healthy [OF ex assms(5)] by auto
  have "s' = s" if "\<not> is_logged cmd r"
  proof -
    from that writes(1,4) have "unlogged_reply r" by (auto simp: is_logged_def is_write_cmd_def unlogged_reply_def)
    from unlogged_unchanged [OF ex this writes(2,3) assms(4-7)] show ?thesis .
  qed
  with keep ex writes(1,2) show ?thesis by blast
qed

text \<open>One request: either nothing is logged and the store stands, or the request itself is logged and
  executing it again makes the same change.\<close>

lemma handle_request_logged:
  assumes "handle_request x w v st = (Ret (Ok ()), st')" "replay_safe v" "calm (h_store st)" "\<not> poisoned (h_store st)"
    "h_aof st = Some a" "buffered a = []" "write_result (r_append w) = Written"
    "within_limits (h_store st)" "within_limits (h_store st')"
  shows "\<exists>a'. h_aof st' = Some a' \<and> buffered a' = [] \<and> calm (h_store st') \<and> \<not> poisoned (h_store st') \<and>
     (aof_file a' = aof_file a \<and> h_store st' = h_store st \<or>
      aof_file a' = aof_file a @ encode v \<and> (\<exists>c r. from_resp2 v = Ret (Ok c) \<and> replayable c \<and>
        execute x (r_env w) c (h_store st) = (Ret r, h_store st')))"
proof -
  obtain cmd where cmd: "from_resp2 v = Ret cmd"
    using assms(2) by (auto simp: replay_safe_def split: outcome.splits)
  obtain r s1 a1 where resp: "respond x (r_env w) cmd (h_store st) = (Ret r, s1)"
    and log: "log_step w cmd v r (h_aof st) = Ret a1" and st': "h_store st' = s1" "h_aof st' = a1"
    using assms(1) cmd by (auto simp: handle_request_def split: outcome.splits prod.splits)
  note R = respond_logged [OF resp assms(2) cmd assms(3,4,8) assms(9) [unfolded st']]
  show ?thesis
  proof (cases "is_logged cmd r")
    case True
    with R obtain c where c: "cmd = Ok c" "replayable c" "execute x (r_env w) c (h_store st) = (Ret r, s1)" by blast
    with True log assms(5) replayable_facts [OF c(2)] have "a1 = Some (snd (aof_append (r_append w) (encode v) a))"
      by (simp add: log_step_def aof_bytes_def)
    with append_written [OF assms(7,6)] R st' c cmd show ?thesis by auto
  next
    case False
    with R log assms(5,6) st' show ?thesis by (auto simp: log_step_def)
  qed
qed

text \<open>The first request of a session: the rest of the session, and what the request has done to the file and
  the store.\<close>

lemma session_step:
  assumes "run_handler x ws i (concat (map encode (v # vs))) st = (Ret (Ok ()), st')" "\<forall>u \<in> set (v # vs). replay_safe u"
    "calm (h_store st)" "\<not> poisoned (h_store st)" "h_aof st = Some a" "buffered a = []"
    "\<forall>i. write_result (r_append (ws i)) = Written"
    "\<forall>n \<le> length (v # vs). within_limits (h_store (snd (run_handler x ws i (concat (map encode (take n (v # vs)))) st)))"
  obtains st1 a1 where "run_handler x ws (Suc i) (concat (map encode vs)) st1 = (Ret (Ok ()), st')"
    "h_aof st1 = Some a1" "buffered a1 = []" "calm (h_store st1)" "\<not> poisoned (h_store st1)"
    "\<forall>n \<le> length vs. within_limits (h_store (snd (run_handler x ws (Suc i) (concat (map encode (take n vs))) st1)))"
    "aof_file a1 = aof_file a \<and> h_store st1 = h_store st \<or>
      aof_file a1 = aof_file a @ encode v \<and> (\<exists>c r. from_resp2 v = Ret (Ok c) \<and> replayable c \<and>
        execute x (r_env (ws i)) c (h_store st) = (Ret r, h_store st1))"
proof -
  have v: "wf_resp v" "replay_safe v" using assms(2) by (auto simp: replay_safe_def)
  obtain st1 where h: "handle_request x (ws i) v st = (Ret (Ok ()), st1)"
    and rest: "run_handler x ws (Suc i) (concat (map encode vs)) st1 = (Ret (Ok ()), st')"
    using assms(1) v(1) by (auto simp: run_handler_request split: prod.splits outcome.splits result.splits)
  have pre: "run_handler x ws i (concat (map encode (take (Suc n) (v # vs)))) st =
      run_handler x ws (Suc i) (concat (map encode (take n vs))) st1" for n
    using h v(1) by (simp add: run_handler_request)
  have lim: "\<forall>n \<le> length vs. within_limits (h_store (snd (run_handler x ws (Suc i) (concat (map encode (take n vs))) st1)))"
    using assms(8) pre by (metis Suc_le_mono length_Cons)
  have "within_limits (h_store st)" "within_limits (h_store st1)"
    using assms(8) [rule_format, of 0] lim [rule_format, of 0] by (simp_all add: run_handler_empty)
  from handle_request_logged [OF h v(2) assms(3-6) assms(7) [rule_format] this] that [OF rest _ _ _ _ lim]
  show thesis by blast
qed

text \<open>A session: its log, whatever follows it in the file, leads the replay from the store before to the
  store after.\<close>

lemma session_log:
  assumes "run_handler x ws i (concat (map encode vs)) st = (Ret (Ok ()), st')" "\<forall>v \<in> set vs. replay_safe v"
    "calm (h_store st)" "\<not> poisoned (h_store st)" "h_aof st = Some a" "buffered a = []"
    "\<forall>i. write_result (r_append (ws i)) = Written" "\<forall>i j. xxh3 (r_env (ws i)) = xxh3 (es j)"
    "\<forall>n \<le> length vs. within_limits (h_store (snd (run_handler x ws i (concat (map encode (take n vs))) st)))"
  shows "\<exists>a' log. h_aof st' = Some a' \<and> buffered a' = [] \<and> calm (h_store st') \<and> \<not> poisoned (h_store st') \<and>
     aof_file a' = aof_file a @ log \<and>
     (\<forall>rest. \<exists>j'. replay x es j (log @ rest) (h_store st) = replay x es j' rest (h_store st'))"
  using assms
proof (induction vs arbitrary: i j st a)
  case Nil
  then show ?case by (auto simp: run_handler_empty)
next
  case (Cons v vs)
  obtain st1 a1 where rest: "run_handler x ws (Suc i) (concat (map encode vs)) st1 = (Ret (Ok ()), st')"
    and a1: "h_aof st1 = Some a1" "buffered a1 = []" "calm (h_store st1)" "\<not> poisoned (h_store st1)"
    and lim: "\<forall>n \<le> length vs. within_limits (h_store (snd (run_handler x ws (Suc i) (concat (map encode (take n vs))) st1)))"
    and ch: "aof_file a1 = aof_file a \<and> h_store st1 = h_store st \<or>
      aof_file a1 = aof_file a @ encode v \<and> (\<exists>c r. from_resp2 v = Ret (Ok c) \<and> replayable c \<and>
        execute x (r_env (ws i)) c (h_store st) = (Ret r, h_store st1))"
    using session_step [OF Cons.prems(1-7,9)] by blast
  have v: "wf_resp v" using Cons.prems(2) by (auto simp: replay_safe_def)
  have IH: "\<exists>a' log. h_aof st' = Some a' \<and> buffered a' = [] \<and> calm (h_store st') \<and> \<not> poisoned (h_store st') \<and>
      aof_file a' = aof_file a1 @ log \<and>
      (\<forall>rest. \<exists>j''. replay x es j' (log @ rest) (h_store st1) = replay x es j'' rest (h_store st'))" for j'
    using Cons.prems(2,7,8) by (intro Cons.IH [OF rest _ a1(3,4,1,2) _ _ lim]) auto
  from ch show ?case
  proof
    assume "aof_file a1 = aof_file a \<and> h_store st1 = h_store st"
    with IH [of j] show ?thesis by simp
  next
    assume "aof_file a1 = aof_file a @ encode v \<and> (\<exists>c r. from_resp2 v = Ret (Ok c) \<and> replayable c \<and>
        execute x (r_env (ws i)) c (h_store st) = (Ret r, h_store st1))"
    then obtain c r where c: "aof_file a1 = aof_file a @ encode v" "from_resp2 v = Ret (Ok c)" "replayable c"
      "execute x (r_env (ws i)) c (h_store st) = (Ret r, h_store st1)" by blast
    have "execute x (es j) c (h_store st) = (Ret r, h_store st1)"
      using same_calmD [OF execute_same_calm [OF c(3) Cons.prems(8) [rule_format, of i j]] Cons.prems(3)] c(4)
      by metis
    then have entry: "replay x es j (encode v @ rest) (h_store st) = replay x es (Suc j) rest (h_store st1)" for rest
      by (simp add: replay_entry [OF v(1) c(2)])
    obtain a' log where "h_aof st' = Some a'" "buffered a' = []" "calm (h_store st')" "\<not> poisoned (h_store st')"
      "aof_file a' = aof_file a1 @ log"
      "\<forall>rest. \<exists>j''. replay x es (Suc j) (log @ rest) (h_store st1) = replay x es j'' rest (h_store st')"
      using IH [of "Suc j"] by blast
    then show ?thesis using entry c(1) by (intro exI [of _ a'] exI [of _ "encode v @ log"]) simp
  qed
qed

section \<open>A concrete session\<close>

lemma wf_request:
  "wf_resp (request ss) \<longleftrightarrow> int (length ss) \<le> i64_max \<and>
     (\<forall>s \<in> set ss. utf8_valid s \<and> vec_capacity_ok 1 (length s + 2))"
  by (auto simp: request_def bulks_def list_all_iff)

definition demo_world :: "int \<Rightarrow> request_world" where
  "demo_world t = \<lparr>r_env = demo_env t t, r_append = \<lparr>write_result = Written, sync_result = Ok ()\<rparr>, r_send = Ok ()\<rparr>"

definition demo_handler :: "store \<Rightarrow> handler_state" where
  "demo_handler s = \<lparr>h_store = s, h_aof = Some \<lparr>aof_file = [], buffered = [], synced = 0, fsync_mode = Always\<rparr>,
     h_out = []\<rparr>"

lemma demo_handler_store: "h_store (demo_handler s) = s"
  by (simp add: demo_handler_def)

lemma push_request: "from_resp2 (request [''RPUSH'', k, a, b]) = Ret (Ok (RPush k [a, b]))"
  by (simp add: from_resp2_request parse_command_def parse_key_with_elements_command_def try_ok_def check_min_arity_def)

lemma demo_limits:
  "within_limits store_new" "within_limits (store_new\<lparr>inner := inner_put k (Str v) (inner store_new)\<rparr>)"
  by (simp_all add: within_limits_def store_new_def inner_put_def)

lemma demo_set_request:
  "from_resp2 (request [''SET'', ''k'', ''v'']) = Ret (Ok (Set ''k'' ''v'' None None False))"
  using parse_set_roundtrip [of None None "''k''" "''v''" False]
  by (simp add: from_resp2_request parse_command_def condition_args_def expiry_args_def)

lemma demo_exec_set:
  "exec_set (demo_env t t) ''k'' ''v'' None None False store_new =
      (Ret ok_reply, store_new\<lparr>inner := inner_put ''k'' (Str ''v'') (inner store_new)\<rparr>)"
  by (simp add: exec_set_spec store_new_def set_spec_def inner_get_def condition_met_def set_deadline_def with_deadline_def)

lemma demo_set_run:
  "\<exists>st'. run_handler x (\<lambda>_. demo_world t) 0 (encode (request [''SET'', ''k'', ''v''])) (demo_handler store_new) =
      (Ret (Ok ()), st') \<and> h_store st' = store_new\<lparr>inner := inner_put ''k'' (Str ''v'') (inner store_new)\<rparr>"
proof -
  from demo_exec_set have "\<exists>st'. handle_request x (demo_world t) (request [''SET'', ''k'', ''v'']) (demo_handler store_new) = (Ret (Ok ()), st')
      \<and> h_store st' = store_new\<lparr>inner := inner_put ''k'' (Str ''v'') (inner store_new)\<rparr>"
    by (simp add: handle_request_def demo_set_request demo_world_def demo_handler_def respond_def log_step_def
        is_logged_def is_write_cmd_def aof_bytes_def expire_info_def ok_reply_def send_response_def)
  then show ?thesis
    using run_handler_request [of "request [''SET'', ''k'', ''v'']" x "\<lambda>_. demo_world t" 0 "[]" "demo_handler store_new"]
    by (auto simp: wf_request vec_capacity_ok_def run_handler_empty)
qed

section \<open>Properties\<close>

text \<open>C16: persistence is faithful.  Take a session on a store without deadlines whose requests are
  malformed, reads, or writes without an expiry (any but \<open>LSET\<close>, \<open>SPOP\<close>, \<open>GETDEL\<close> and the expiry
  commands), with every AOF write succeeding and no collection beyond the address space.  Whatever the
  clocks show at either time, replaying exactly the bytes that the session appended rebuilds exactly
  the store the session left.\<close>

theorem aof_replay_rebuilds_store:
  assumes "run_handler x ws 0 (concat (map encode vs)) st = (Ret (Ok ()), st')" "\<forall>v \<in> set vs. replay_safe v"
    "calm (h_store st)" "\<not> poisoned (h_store st)" "h_aof st = Some a" "buffered a = []"
    "\<forall>i. write_result (r_append (ws i)) = Written" "\<forall>i j. xxh3 (r_env (ws i)) = xxh3 (es j)"
    "\<forall>n \<le> length vs. within_limits (h_store (snd (run_handler x ws 0 (concat (map encode (take n vs))) st)))"
  shows "\<exists>a' log. h_aof st' = Some a' \<and> aof_file a' = aof_file a @ log \<and>
     replay x es 0 log (h_store st) = (Ret (Ok ()), h_store st')"
  using session_log [OF assms] replay_empty by (metis append_Nil2)

theorem aof_replay_rebuilds_store_witness:
  "\<exists>log. replay \<lparr>lazyfree_lazy_user_flush = False\<rparr> (\<lambda>_. demo_env 99 99) 0 log store_new =
     (Ret (Ok ()), store_new\<lparr>inner := inner_put ''k'' (Str ''v'') (inner store_new)\<rparr>)"
proof -
  let ?x = "\<lparr>lazyfree_lazy_user_flush = False\<rparr>" and ?v = "request [''SET'', ''k'', ''v'']"
  obtain st' where run: "run_handler ?x (\<lambda>_. demo_world 5) 0 (encode ?v) (demo_handler store_new) = (Ret (Ok ()), st')"
    and st': "h_store st' = store_new\<lparr>inner := inner_put ''k'' (Str ''v'') (inner store_new)\<rparr>"
    using demo_set_run by blast
  have "\<forall>n \<le> length [?v]. within_limits (h_store (snd (run_handler ?x (\<lambda>_. demo_world 5) 0
      (concat (map encode (take n [?v]))) (demo_handler store_new))))"
  proof (intro allI impI)
    fix n assume "n \<le> length [?v]"
    then consider "n = 0" | "n = 1" by fastforce
    then show "within_limits (h_store (snd (run_handler ?x (\<lambda>_. demo_world 5) 0
        (concat (map encode (take n [?v]))) (demo_handler store_new))))"
      by cases (simp_all add: run run_handler_empty st' demo_handler_store demo_limits)
  qed
  then show ?thesis
    using aof_replay_rebuilds_store [of ?x "\<lambda>_. demo_world 5" "[?v]" "demo_handler store_new" st'
        "\<lparr>aof_file = [], buffered = [], synced = 0, fsync_mode = Always\<rparr>" "\<lambda>_. demo_env 99 99"] run st'
    by (auto simp: demo_handler_def demo_world_def replay_safe_def demo_set_request wf_request vec_capacity_ok_def
        calm_def store_new_def)
qed

text \<open>C38: \<open>LSET\<close> is not persisted.  An \<open>LSET\<close> request that succeeds replaces the element in the store
  and answers \<open>OK\<close>, and the append-only file stays as it was.\<close>

theorem lset_not_persisted:
  assumes "from_resp2 v = Ret (Ok (LSet k i y))" "\<not> poisoned (h_store st)"
    "keyspace (now_at (r_env w) 0) (inner (h_store st)) k = Some (ListVal l, d)"
    "calculate_index i (length l) = Ok j" "j < length l"
  shows "\<exists>r st'. handle_request x w v st = (Ret r, st') \<and> h_aof st' = h_aof st \<and>
     (r = Ok () \<longrightarrow> h_out st' = h_out st @ encode ok_reply) \<and>
     keyspace (now_at (r_env w) 0) (inner (h_store st')) k = Some (ListVal (l[j := y]), d)"
proof -
  let ?t = "now_at (r_env w) 0"
  let ?s = "(h_store st)\<lparr>inner := (inner (h_store st))\<lparr>data := fmupd k (ListVal (l[j := y])) (data (inner (h_store st)))\<rparr>\<rparr>"
  have "exec_lset (r_env w) k i y (h_store st) = (Ret ok_reply, ?s)"
    using assms(2,4,5) keyspace_inner_get [OF assms(3)]
    by (simp add: exec_lset_def reply_def op_simps store_lset_def swap_remove_push)
  moreover have "keyspace ?t (inner ?s) k = Some (ListVal (l[j := y]), d)"
    using keyspace_SomeD [OF assms(3)] by (simp add: keyspace_update_data)
  ultimately show ?thesis
    using assms(1)
    by (cases "r_send w") (auto simp: handle_request_def respond_def log_step_def is_logged_def is_write_cmd_def
        send_response_def split: option.splits)
qed

theorem lset_not_persisted_witness:
  "let s = snd (store_rpush 0 ''k'' ''a'' store_new)
   in \<exists>st'. handle_request \<lparr>lazyfree_lazy_user_flush = False\<rparr> (demo_world 0) (request [''LSET'', ''k'', ''0'', ''b''])
          (demo_handler s) = (Ret (Ok ()), st') \<and>
        h_aof st' = h_aof (demo_handler s) \<and> keyspace 0 (inner (h_store st')) ''k'' = Some (ListVal [''b''], None)"
proof -
  let ?s = "snd (store_rpush 0 ''k'' ''a'' store_new)" and ?v = "request [''LSET'', ''k'', ''0'', ''b'']"
  have v: "from_resp2 ?v = Ret (Ok (LSet ''k'' 0 ''b''))"
    by (simp add: from_resp2_request parse_command_def parse_lset_command_def try_ok_def check_arity_def int_arg_def
        parse_i64_def parse_unsigned_def digit_val_def strip_plus_def)
  have s: "\<not> poisoned ?s" "keyspace 0 (inner ?s) ''k'' = Some (ListVal [''a''], None)"
    by (simp_all add: store_rpush_def store_push_inner_def op_simps store_new_def inner_get_def keyspace_put)
  from lset_not_persisted [OF v, of "demo_handler ?s" "demo_world 0" "[''a'']" None 0 "\<lparr>lazyfree_lazy_user_flush = False\<rparr>"] s
  have "\<exists>r st'. handle_request \<lparr>lazyfree_lazy_user_flush = False\<rparr> (demo_world 0) ?v (demo_handler ?s) = (Ret r, st') \<and>
      h_aof st' = h_aof (demo_handler ?s) \<and> keyspace 0 (inner (h_store st')) ''k'' = Some (ListVal [''b''], None)"
    by (auto simp: demo_handler_store demo_world_def calculate_index_def)
  moreover have "r = Ok ()" if "handle_request x (demo_world 0) u st = (Ret r, st')" for x u st r st'
    using that by (auto simp: handle_request_def demo_world_def send_response_def split: outcome.splits prod.splits)
  ultimately show ?thesis unfolding Let_def by blast
qed

text \<open>A command name is echoed into an error line as it is, so a client can make one request
  produce two replies of its choosing: a carriage return and line feed inside an unknown name end the
  error, and what follows reads as a second reply.\<close>

theorem unknown_command_injects_reply:
  assumes "from_resp2 v = Ret (Err (UnknownCommand (p @ [CR, LF] @ ''+'' @ q)))" "r_send w = Ok ()"
    "utf8_valid p" "LF \<notin> set p" "utf8_valid q" "LF \<notin> set q"
  shows "\<exists>st' out. handle_request x w v st = (Ret (Ok ()), st') \<and> h_out st' = h_out st @ out \<and>
     (\<exists>rest. decode out = Ret (Ok (SimpleError (''ERR unknown command '' @ [CHR 0x27] @ p)), rest) \<and>
        decode rest = Ret (Ok (SimpleString (q @ [CHR 0x27])), []))"
proof -
  let ?a = "SimpleError (''ERR unknown command '' @ [CHR 0x27] @ p)" and ?b = "SimpleString (q @ [CHR 0x27])"
  have wf: "wf_resp ?a" "wf_resp ?b" using assms(3-6) by (simp_all add: utf8_valid_append)
  have "\<exists>st'. handle_request x w v st = (Ret (Ok ()), st') \<and> h_out st' = h_out st @ encode ?a @ encode ?b"
    using assms(1,2) by (auto simp: handle_request_def respond_def ret_op_def log_step_def is_logged_def
        is_write_cmd_def send_response_def split: option.splits)
  with decode_encode_rest [OF wf(1), of "encode ?b"] decode_encode_rest [OF wf(2), of "[]"] show ?thesis by auto
qed

theorem unknown_command_injects_reply_witness:
  "\<exists>out rest. decode out = Ret (Ok (SimpleError (''ERR unknown command '' @ [CHR 0x27] @ ''x'')), rest) \<and>
     decode rest = Ret (Ok (SimpleString (''OK'' @ [CHR 0x27])), [])"
proof -
  have "from_resp2 (request [''x'' @ [CR, LF] @ ''+'' @ ''OK'']) = Ret (Err (UnknownCommand (''x'' @ [CR, LF] @ ''+'' @ ''OK'')))"
    by (simp add: from_resp2_request parse_command_def)
  from unknown_command_injects_reply [OF this, of "demo_world 0" "\<lparr>lazyfree_lazy_user_flush = False\<rparr>" "demo_handler store_new"]
  show ?thesis by (auto simp: demo_world_def)
qed

end
