(* ===== verification/Invariants.thy ===== *)
theory Invariants
  imports Executor
begin

text \<open>
  Invariants of the stored entries that every command keeps.  The locale states what a predicate of
  a key and its value must respect (the ways in which the store builds a new value); inside it, every
  command is shown to keep the predicate.  It is interpreted for two predicates: no list is empty, and
  every key and every stored string is a text, that is UTF-8 and no longer than a vector can be (the
  type invariant of a Rust \<open>String\<close>, which the model's byte strings do not have by themselves).
\<close>

section \<open>Predicates of the stored entries\<close>

definition values_ok :: "(string \<Rightarrow> store_value \<Rightarrow> bool) \<Rightarrow> store_inner \<Rightarrow> bool" where
  "values_ok vok g \<longleftrightarrow> (\<forall>k v. fmlookup (data g) k = Some v \<longrightarrow> vok k v)"

definition store_ok :: "(string \<Rightarrow> store_value \<Rightarrow> bool) \<Rightarrow> store \<Rightarrow> bool" where
  "store_ok vok s = values_ok vok (inner s)"

text \<open>A predicate \<open>vok\<close> of keys and their values, fed by keys that satisfy \<open>kok\<close> and strings that
  satisfy \<open>sok\<close>, that the ways the store builds new values respect.\<close>

locale value_invariant =
  fixes kok sok :: "string \<Rightarrow> bool" and vok :: "string \<Rightarrow> store_value \<Rightarrow> bool"
  assumes str: "kok k \<Longrightarrow> sok s \<Longrightarrow> vok k (Str s)"
    and single: "kok k \<Longrightarrow> sok x \<Longrightarrow> vok k (ListVal [x])"
    and at_front: "vok k (ListVal l) \<Longrightarrow> sok x \<Longrightarrow> vok k (ListVal (push_front l x))"
    and at_back: "vok k (ListVal l) \<Longrightarrow> sok x \<Longrightarrow> vok k (ListVal (push_back l x))"
    and part: "vok k (ListVal l) \<Longrightarrow> r \<noteq> [] \<Longrightarrow> set r \<subseteq> set l \<Longrightarrow> vok k (ListVal r)"
    and update: "vok k (ListVal l) \<Longrightarrow> sok x \<Longrightarrow> vok k (ListVal (l[i := x]))"
    and sets: "vok k (SetVal u) \<longleftrightarrow> kok k \<and> (\<forall>x. x |\<in>| u \<longrightarrow> sok x)"
begin

lemma values_ok_put: "values_ok vok g \<Longrightarrow> vok k v \<Longrightarrow> values_ok vok (inner_put k v g)"
  by (simp add: values_ok_def inner_put_def)

lemma values_ok_remove: "values_ok vok g \<Longrightarrow> values_ok vok (inner_remove k g)"
  by (simp add: values_ok_def inner_remove_def)

lemma values_ok_data:
  "values_ok vok g \<Longrightarrow> vok k v \<Longrightarrow> values_ok vok (g\<lparr>data := fmupd k v (data g)\<rparr>)"
  "values_ok vok g \<Longrightarrow> values_ok vok (g\<lparr>data := fmdrop k (data g)\<rparr>)"
  by (simp_all add: values_ok_def)

lemma values_ok_expiry: "values_ok vok g \<Longrightarrow> values_ok vok (g\<lparr>expiry_index := m\<rparr>)"
  by (simp add: values_ok_def)

lemma values_ok_get: "values_ok vok g \<Longrightarrow> inner_get t k g = Some v \<Longrightarrow> vok k v"
  using inner_get_SomeD [of t k g v] unfolding values_ok_def by blast

lemma values_ok_empty:
  "values_ok vok (g\<lparr>expiry_index := m, data := fmempty\<rparr>)" "values_ok vok (g\<lparr>data := fmempty, expiry_index := m\<rparr>)"
  by (simp_all add: values_ok_def)

lemmas values_ok_rules = values_ok_put values_ok_remove values_ok_data values_ok_expiry

lemma preserves_write:
  assumes "\<And>g. values_ok vok g \<Longrightarrow> values_ok vok (snd (f g))"
  shows "preserves (store_ok vok) (with_write f)"
  unfolding preserves_def
proof (intro allI impI)
  fix s assume "store_ok vok s"
  then have "values_ok vok (inner s)" by (simp add: store_ok_def)
  with assms [of "inner s"] show "store_ok vok (snd (with_write f s))"
    by (cases "f (inner s)") (auto simp: store_ok_def with_write_def split: outcome.splits)
qed

lemma generic_ok:
  "vok k v \<Longrightarrow> preserves (store_ok vok) (store_set k v)" "preserves (store_ok vok) (store_delete k)"
  "preserves (store_ok vok) (store_get_del t k)" "preserves (store_ok vok) (store_set_ttl k d)"
  "preserves (store_ok vok) (store_persist k)" "preserves (store_ok vok) store_clear" "preserves (store_ok vok) store_clear_async"
  unfolding store_set_def store_delete_def store_get_del_def store_set_ttl_def store_persist_def
    store_clear_def store_clear_async_def
  by (rule preserves_write; simp add: values_ok_rules values_ok_empty Let_def)+

lemma mset_ok:
  assumes ok: "list_all kok (map fst kvs)" "list_all sok (map snd kvs)"
  shows "preserves (store_ok vok) (store_mset kvs)"
proof -
  have "values_ok vok (fold (\<lambda>(k, v). inner_put k (Str v)) kvs g)" if "values_ok vok g" for g
    using ok that by (induction kvs arbitrary: g) (auto simp: values_ok_put str)
  then show ?thesis unfolding store_mset_def by (intro preserves_write) simp
qed

lemma push_ok:
  assumes "sok y" "c \<Longrightarrow> kok k" "f = push_front \<or> f = push_back"
  shows "preserves (store_ok vok) (store_push_inner t k y c f)"
  unfolding store_push_inner_def
  using assms by (intro preserves_write)
    (auto simp: Let_def intro!: values_ok_rules single at_front at_back dest: values_ok_get
      split: option.splits store_value.splits)

lemma pop_ok:
  assumes "\<And>l xs r. pop_loop f n l = (xs, r) \<Longrightarrow> set r \<subseteq> set l"
  shows "preserves (store_ok vok) (store_pop_inner t k n f)"
  unfolding store_pop_inner_def
  by (intro preserves_guarded preserves_write)
    (auto intro!: values_ok_rules intro: part [OF values_ok_get] dest: assms
      split: option.splits store_value.splits prod.splits)

lemma pop_ends_ok: "preserves (store_ok vok) (store_lpop t k n)" "preserves (store_ok vok) (store_rpop t k n)"
  unfolding store_lpop_def store_rpop_def
  by (rule pop_ok; auto simp: pop_front_loop pop_back_loop dest: in_set_dropD in_set_takeD)+

lemma lset_ok: "sok y \<Longrightarrow> preserves (store_ok vok) (store_lset t k i y)"
  unfolding store_lset_def
  by (intro preserves_write) (auto simp: swap_remove_push intro!: values_ok_rules update
      dest: values_ok_get split: option.splits store_value.splits result.splits)

lemma set_ops_ok:
  "kok k \<Longrightarrow> list_all sok ms \<Longrightarrow> preserves (store_ok vok) (store_sadd t k ms)" "preserves (store_ok vok) (store_srem t k ms)"
  "preserves (store_ok vok) (store_spop e t k n)"
  unfolding store_sadd_def store_srem_def store_spop_def
  by (rule preserves_write; auto simp: Let_def insert_count_eq remove_count_eq fold_fminus sets list_all_iff
      fset_of_list_elem intro!: values_ok_rules dest: values_ok_get
      split: option.splits store_value.splits outcome.splits)+

lemma smove_ok:
  assumes m: "kok b" "sok m"
  shows "preserves (store_ok vok) (store_smove t1 t2 t3 t4 a b m)"
proof -
  have take: "values_ok vok (snd (smove_take t a m g))" if "values_ok vok g" for t g
    using that by (auto simp: smove_take_def Let_def sets intro!: values_ok_rules dest: values_ok_get
        split: option.splits store_value.splits)
  have put: "values_ok vok (snd (smove_put t b m g))" if "values_ok vok g" for t g
    using that m by (auto simp: smove_put_def sets intro!: values_ok_rules dest: values_ok_get
        split: option.splits store_value.splits)
  have "values_ok vok (snd (case smove_take t3 a m g of (Panic, g') \<Rightarrow> (Panic, g') | (Ret x, g') \<Rightarrow> smove_put t4 b m g'))"
    if "values_ok vok g" for g
    using take [OF that, of t3] put [of "snd (smove_take t3 a m g)" t4]
    by (cases "smove_take t3 a m g") (auto split: outcome.splits)
  then show ?thesis
    unfolding store_smove_def
    by (intro preserves_write) (auto simp: Let_def split: option.splits store_value.splits)
qed

end

text \<open>The strings of a command that become part of a value.\<close>

fun command_values :: "command \<Rightarrow> string list" where
  "command_values (Set k v c x g) = [v]"
| "command_values (MSet kvs) = map snd kvs"
| "command_values (LPush k xs) = xs"
| "command_values (RPush k xs) = xs"
| "command_values (LPushX k xs) = xs"
| "command_values (RPushX k xs) = xs"
| "command_values (LSet k i y) = [y]"
| "command_values (SAdd k ms) = ms"
| "command_values (SMove a b m) = [m]"
| "command_values _ = []"

text \<open>The keys a command can create.\<close>

fun command_keys :: "command \<Rightarrow> string list" where
  "command_keys (Set k v c x g) = [k]"
| "command_keys (MSet kvs) = map fst kvs"
| "command_keys (LPush k xs) = [k]"
| "command_keys (RPush k xs) = [k]"
| "command_keys (SAdd k ms) = [k]"
| "command_keys (SMove a b m) = [b]"
| "command_keys _ = []"

context value_invariant
begin

lemma execute_ok:
  assumes "list_all kok (command_keys c)" "list_all sok (command_values c)"
  shows "preserves (store_ok vok) (execute x e c)"
proof (cases "is_write c \<or> (\<exists>k i y. c = LSet k i y)")
  case True
  then show ?thesis
    using assms
    by (cases c) (auto simp: exec_delete_def exec_get_del_def exec_mset_def exec_lpush_def exec_rpush_def
        exec_lpushx_def exec_rpushx_def exec_push_inner_def exec_lpop_def exec_rpop_def exec_pop_inner_def
        exec_lset_def exec_sadd_def exec_spop_def exec_srem_def exec_smove_def exec_persist_def exec_expire_def
        exec_pexpire_def exec_expire_at_def exec_pexpire_at_def exec_flush_db_def store_lpush_def store_rpush_def
        store_lpushx_def store_rpushx_def store_get_del_string_def list_all_iff
        split: option.splits flush_mode.splits
        intro!: preserves_rules generic_ok str set_command_preserves push_loop_preserves push_ok
          count_loop_preserves pop_ends_ok lset_ok set_ops_ok smove_ok mset_ok)
next
  case False
  then show ?thesis by (intro preserves_read_only execute_read_only) auto
qed

end

section \<open>Instances\<close>

text \<open>A byte string that \<open>decode\<close> accepts as a bulk string.\<close>

definition is_text :: "string \<Rightarrow> bool" where
  "is_text s \<longleftrightarrow> utf8_valid s \<and> vec_capacity_ok 1 (length s + 2)"

fun value_text :: "store_value \<Rightarrow> bool" where
  "value_text (Str s) = is_text s"
| "value_text (ListVal l) = (\<forall>x \<in> set l. is_text x)"
| "value_text (SetVal u) = (\<forall>x. x |\<in>| u \<longrightarrow> is_text x)"

definition entry_text :: "string \<Rightarrow> store_value \<Rightarrow> bool" where
  "entry_text k v \<longleftrightarrow> is_text k \<and> value_text v"

definition entry_nonempty :: "string \<Rightarrow> store_value \<Rightarrow> bool" where
  "entry_nonempty k v \<longleftrightarrow> v \<noteq> ListVal []"

interpretation nonempty: value_invariant "\<lambda>_. True" "\<lambda>_. True" entry_nonempty
  by unfold_locales (auto simp: entry_nonempty_def push_front_def push_back_def)

interpretation texts: value_invariant is_text is_text entry_text
  by unfold_locales (auto simp: entry_text_def push_front_def push_back_def dest: set_update_subset_insert [THEN subsetD])

section \<open>Properties\<close>

text \<open>C23: no command leaves an empty list under a key, and no command stores a key or bytes that are
  not a UTF-8 text, whether it returns or panics: both hold after \<open>execute\<close> when they held before
  and the strings of the command are texts.\<close>

theorem execute_keeps_values:
  assumes "store_ok entry_nonempty s" "store_ok entry_text s"
    "\<forall>y \<in> set (command_keys c @ command_values c). is_text y"
  shows "store_ok entry_nonempty (snd (execute x e c s)) \<and> store_ok entry_text (snd (execute x e c s))"
  using assms nonempty.execute_ok [of c x e] texts.execute_ok [of c x e]
  by (simp add: preserves_def list_all_iff)

theorem execute_keeps_values_witness:
  "store_ok entry_text
     (snd (execute \<lparr>lazyfree_lazy_user_flush = False\<rparr> (demo_env 0 0) (RPush ''k'' [''a'']) store_new))"
  using execute_keeps_values [of store_new "RPush ''k'' [''a'']"]
  by (simp add: store_ok_def values_ok_def store_new_def is_text_def vec_capacity_ok_def)

end
