(* ===== verification/Replies.thy ===== *)
theory Replies
  imports Persistence Invariants
begin

text \<open>
  The replies of the server are well-formed RESP2 values.  On a store whose keys and strings are texts,
  every command that returns answers a value that a client decodes back, and a session of commands is
  answered by exactly one value per request.
\<close>

section \<open>Texts in requests\<close>

lemma is_text_bulk: "is_text s \<longleftrightarrow> wf_resp (BulkString (Some s))"
  by (simp add: is_text_def)

text \<open>The strings of a command that it stores, as a key or in a value, or echoes.\<close>

definition command_texts :: "command \<Rightarrow> string list" where
  "command_texts c = command_keys c @ command_values c @ (case c of Ping (Some m) \<Rightarrow> [m] | _ \<Rightarrow> [])"

text \<open>The lists of a command whose length a reply has.\<close>

fun command_width :: "command \<Rightarrow> nat" where
  "command_width (MGet ks) = length ks"
| "command_width (SMIsMember k ms) = length ms"
| "command_width (Delete ks) = length ks"
| "command_width (Exists ks) = length ks"
| "command_width _ = 0"

definition from_args :: "string list \<Rightarrow> parsed \<Rightarrow> bool" where
  "from_args ss m \<longleftrightarrow> (\<forall>c. m = Ret (Ok c) \<longrightarrow> set (command_texts c) \<subseteq> set ss \<and> command_width c \<le> length ss)"

lemma from_args_intros:
  "from_args ss x \<Longrightarrow> from_args ss y \<Longrightarrow> from_args ss (if b then x else y)"
  "set (command_texts c) \<subseteq> set ss \<Longrightarrow> command_width c \<le> length ss \<Longrightarrow> from_args ss (Ret (Ok c))"
  "from_args ss (Ret (Err e))"
  by (simp_all add: from_args_def)

lemma from_args_try: "(\<And>x. r = Ok x \<Longrightarrow> from_args ss (f x)) \<Longrightarrow> from_args ss (try_ok r f)"
  by (cases r) (simp_all add: try_ok_def from_args_def)

lemma chunk_pairs_subset: "(k, v) \<in> set (chunk_pairs xs) \<Longrightarrow> k \<in> set xs \<and> v \<in> set xs"
  by (induction xs rule: chunk_pairs.induct) auto

lemmas texts_simps = command_texts_def parser_simps

lemma parsers_from_args:
  "from_args ss (parse_ping_command (bulks ss))" "from_args ss (parse_set_command (bulks ss))"
  "from_args ss (parse_mset_command (bulks ss))" "from_args ss (parse_select_command (bulks ss))"
  "from_args ss (parse_dbsize_command (bulks ss))" "from_args ss (parse_flushdb_command (bulks ss))"
  "from_args ss (parse_lset_command (bulks ss))" "from_args ss (parse_lindex_command (bulks ss))"
  "from_args ss (parse_lrange_command (bulks ss))" "from_args ss (parse_smove_command (bulks ss))"
  "from_args ss (parse_sismember_command (bulks ss))" "from_args ss (parse_smismember_command (bulks ss))"
  "from_args ss (parse_srandmember_command (bulks ss))"
  unfolding parse_ping_command_def parse_set_command_def parse_mset_command_def parse_select_command_def
    parse_dbsize_command_def parse_flushdb_command_def parse_lset_command_def parse_lindex_command_def
    parse_lrange_command_def parse_smove_command_def parse_sismember_command_def parse_smismember_command_def
    parse_srandmember_command_def
  by (auto simp: texts_simps from_args_def try_ok_def split: option.splits result.splits outcome.splits if_splits
      dest!: chunk_pairs_subset dest: in_set_dropD)

lemma generic_parsers_from_args:
  "(\<And>k. command_texts (mk k) = [] \<and> command_width (mk k) = 0) \<Longrightarrow> from_args ss (parse_key_command (bulks ss) mk)"
  "(\<And>ks. command_texts (mk' ks) = [] \<and> command_width (mk' ks) \<le> length ks) \<Longrightarrow>
     from_args ss (parse_keys_command (bulks ss) mk')"
  "(\<And>k xs. set (command_texts (mk'' k xs)) \<subseteq> insert k (set xs) \<and> command_width (mk'' k xs) = 0) \<Longrightarrow>
     from_args ss (parse_key_with_elements_command (bulks ss) mk'')"
  "(\<And>k n. command_texts (mk2 k n) = [] \<and> command_width (mk2 k n) = 0) \<Longrightarrow> from_args ss (parse_pop_command (bulks ss) mk2)"
  "(\<And>k n. command_texts (mk3 k n) = [] \<and> command_width (mk3 k n) = 0) \<Longrightarrow> from_args ss (parse_expire_commands (bulks ss) mk3)"
  unfolding parse_key_command_def parse_keys_command_def parse_key_with_elements_command_def parse_pop_command_def
    parse_expire_commands_def
  by (fastforce simp: from_args_def try_ok_def parser_simps split: option.splits result.splits
      intro: order_trans dest: in_set_dropD)+

lemma parse_command_from_args: "from_args ss (parse_command name (bulks ss))"
  unfolding parse_command_def
  by (intro from_args_intros generic_parsers_from_args parsers_from_args) (auto simp: command_texts_def)

lemma parsed_texts:
  assumes "wf_resp v" "from_resp2 v = Ret (Ok c)"
  shows "(\<forall>y \<in> set (command_texts c). is_text y) \<and> int (command_width c) \<le> i64_max"
proof -
  from assms(2) from_resp2_cases [of v] obtain ss where v: "v = request ss" by auto
  with assms(2) obtain name rest where ss: "ss = name # rest"
    by (cases ss) (simp_all add: from_resp2_def request_def bulks_def with_arg_def)
  have "from_args ss (from_resp2 v)" unfolding v ss from_resp2_request by (rule parse_command_from_args)
  with assms v show ?thesis by (fastforce simp: from_args_def wf_request is_text_def)
qed

lemma decoded_texts:
  assumes "decode b = Ret (Ok v, r)" "from_resp2 v = Ret (Ok c)"
  shows "list_all is_text (command_keys c)" "list_all is_text (command_values c)"
  using parsed_texts [OF decoded_wf [OF assms] assms(2)] by (auto simp: command_texts_def list_all_iff)

section \<open>Replies of single commands\<close>

definition world_ok :: "env \<Rightarrow> bool" where
  "world_ok e \<longleftrightarrow> hash_order_ok e \<and> sample_ok e \<and> random_ok e \<and> (\<forall>v. is_text v \<longrightarrow> xxh3 e v \<le> u64_max)"

definition sized :: "store \<Rightarrow> bool" where
  "sized s \<longleftrightarrow> store_ok entry_text s \<and> within_limits s \<and> int (fcard (fmdom (data (inner s)))) \<le> i64_max"

text \<open>From a sized store, what the operation returns, if it returns, satisfies the predicate.\<close>

definition gives :: "('a \<Rightarrow> bool) \<Rightarrow> 'a store_op \<Rightarrow> bool" where
  "gives Q m \<longleftrightarrow> (\<forall>s r s'. sized s \<longrightarrow> m s = (Ret r, s') \<longrightarrow> Q r)"

definition always :: "('a \<Rightarrow> bool) \<Rightarrow> 'a store_op \<Rightarrow> bool" where
  "always Q m \<longleftrightarrow> (\<forall>s r s'. m s = (Ret r, s') \<longrightarrow> Q r)"

lemma always_gives: "always Q m \<Longrightarrow> gives Q m"
  by (simp add: always_def gives_def)

lemma always_intros:
  "Q x \<Longrightarrow> always Q (ret_op x)" "always Q m1 \<Longrightarrow> always Q m2 \<Longrightarrow> always Q (if b then m1 else m2)"
  by (simp_all add: always_def ret_op_def)

lemma always_bind: "(\<And>x. always Q (f x)) \<Longrightarrow> always Q (bind_op m f)"
  by (auto simp: always_def bind_op_def split: prod.splits outcome.splits)

lemma gives_bind:
  assumes "gives R m" "\<And>x. R x \<Longrightarrow> always Q (f x)"
  shows "gives Q (bind_op m f)"
  using assms by (fastforce simp: gives_def always_def bind_op_def split: prod.splits outcome.splits)

lemma gives_weaken: "gives R m \<Longrightarrow> (\<And>r. R r \<Longrightarrow> Q r) \<Longrightarrow> gives Q m"
  unfolding gives_def by blast

lemma wf_integer [simp]: "wf_resp (len_reply n)" "wf_resp (bool_reply b)" "wf_resp (Integer (as_i64 i))"
  using as_i64_range by (simp_all add: len_reply_def bool_reply_def)

lemma wf_fixed [simp]:
  "wf_resp (error_reply e)" "wf_resp ok_reply" "wf_resp invalid_expire" "wf_resp invalid_set_expiry"
  by (cases e; simp add: error_reply_def display_store_error_def)
    (simp_all add: ok_reply_def invalid_expire_def invalid_set_expiry_def)

lemma wf_bulk_option: "wf_resp (BulkString b) \<longleftrightarrow> pred_option is_text b"
  by (cases b) (simp_all add: is_text_def)

lemma wf_bulk_array: "wf_resp (bulk_array xs) \<longleftrightarrow> int (length xs) \<le> i64_max \<and> list_all is_text xs"
  by (auto simp: bulk_array_def bulks_def list_all_iff is_text_def)

lemma gives_reply: "gives (\<lambda>r. \<forall>y. r = Ok y \<longrightarrow> wf_resp (f y)) m \<Longrightarrow> gives wf_resp (reply f m)"
  unfolding reply_def by (erule gives_bind) (auto intro!: always_intros split: result.splits)

lemma always_reply: "(\<And>y. wf_resp (f y)) \<Longrightarrow> always wf_resp (reply f m)"
  unfolding reply_def by (auto intro!: always_bind always_intros split: result.splits)

lemma sized_get:
  assumes "sized s" "inner_get t k (inner s) = Some v"
  shows "value_text v \<and> (case v of ListVal l \<Rightarrow> int (length l) \<le> i64_max | SetVal u \<Rightarrow> int (fcard u) \<le> i64_max | Str _ \<Rightarrow> True)"
  using assms inner_get_SomeD [OF assms(2)]
  by (auto simp: sized_def store_ok_def values_ok_def entry_text_def within_limits_def)

lemma gives_read:
  assumes "\<And>s r. sized s \<Longrightarrow> f (inner s) = Ret r \<Longrightarrow> Q r"
  shows "gives Q (with_read f)"
  using assms by (auto simp: gives_def with_read_def split: if_splits)

lemma gives_write:
  assumes "\<And>s r g. sized s \<Longrightarrow> f (inner s) = (Ret r, g) \<Longrightarrow> Q r"
  shows "gives Q (with_write f)"
  using assms by (auto simp: gives_def with_write_def split: if_splits prod.splits outcome.splits)

lemma show_radix_length: "2 \<le> r \<Longrightarrow> n < r ^ Suc j \<Longrightarrow> length (show_radix r n) \<le> Suc j"
proof (induction j arbitrary: n)
  case 0
  then show ?case by (simp add: show_radix.simps [of r n])
next
  case (Suc j)
  have "n div r < r ^ Suc j" using Suc.prems by (simp add: less_mult_imp_div_less mult.commute)
  with Suc.IH Suc.prems(1) show ?case by (simp add: show_radix.simps [of r n])
qed

lemma digest_is_text: "n \<le> u64_max \<Longrightarrow> is_text (show_hex16 n)"
proof -
  assume n: "n \<le> u64_max"
  have "length (show_radix 16 n) \<le> Suc 15" by (rule show_radix_length) (use n in simp_all)
  moreover have "utf8_valid (show_hex16 n)"
  proof (rule utf8_valid_ascii)
    fix c assume "c \<in> set (show_hex16 n)"
    then have "c = CHR ''0'' \<or> c \<in> set (show_radix 16 n)" by (auto simp: show_hex16_def Let_def)
    then show "(of_char c :: nat) < 128" using show_radix_ascii(2) [of 16 c n] by fastforce
  qed
  ultimately show ?thesis by (simp add: is_text_def vec_capacity_ok_def show_hex16_def Let_def)
qed

text \<open>The string commands.\<close>

lemma gives_get_string: "gives (\<lambda>r. \<forall>y. r = Ok (Some y) \<longrightarrow> is_text y) (store_get_string t k)"
proof -
  have "is_text y" if "sized s" "store_get_string t k s = (Ret (Ok (Some y)), s')" for s s' y
  proof -
    have "\<not> poisoned s" using that(2) by (auto simp: store_get_string_def store_get_def op_simps split: if_splits)
    with that sized_get [OF that(1), of t k] show ?thesis
      by (auto simp: store_get_string_view split: option.splits store_value.splits)
  qed
  then show ?thesis by (auto simp: gives_def)
qed

lemma set_reply: "gives wf_resp (exec_set e k v c x g)"
proof -
  have step: "always (\<lambda>r. \<forall>y. r = Some y \<longrightarrow> wf_resp y) (set_expiry_step e k y p)" for y p
    unfolding set_expiry_step_def by (auto intro!: always_bind always_intros split: option.splits set_expiry.splits)
  have wr: "always (\<lambda>r. \<forall>y. r = Some y \<longrightarrow> wf_resp y) (set_write e k v x)"
    unfolding set_write_def by (auto intro!: always_bind always_intros step)
  have fin: "always wf_resp (set_finish e k v c x g r)" if "\<forall>y. r = Ok (Some y) \<longrightarrow> is_text y" for r
  proof (cases r)
    case (Ok prev)
    have prev: "wf_resp (BulkString prev)" using that Ok by (cases prev) (auto simp: is_text_bulk)
    have "wf_resp y" if "set_finish e k v c x g (Ok prev) s = (Ret y, s')" for s s' y
      using that wr prev by (auto simp: set_finish_def Let_def bind_op_def ret_op_def always_def
          split: prod.splits outcome.splits option.splits if_splits)
    with Ok show ?thesis by (auto simp: always_def)
  qed (simp add: set_finish_def always_intros)
  show ?thesis unfolding exec_set_def by (rule gives_bind [OF gives_get_string fin])
qed

lemma string_replies:
  "gives wf_resp (exec_get e k)" "gives wf_resp (exec_get_del e k)" "gives wf_resp (exec_strlen e k)"
  "world_ok e \<Longrightarrow> gives wf_resp (exec_digest e k)" "gives wf_resp (exec_mset kvs)"
  "int (length ks) \<le> i64_max \<Longrightarrow> gives wf_resp (exec_mget e ks)"
proof -
  note str = gives_get_string [of "now_at e 0" k]
  have opt: "gives (\<lambda>r. \<forall>y. r = Ok y \<longrightarrow> wf_resp (BulkString y)) (store_get_string (now_at e 0) k)"
    by (rule gives_weaken [OF str]) (auto simp: wf_bulk_option pred_option_def elim!: option.set_cases)
  show "gives wf_resp (exec_get e k)" unfolding exec_get_def by (rule gives_reply [OF opt])
  show "gives wf_resp (exec_strlen e k)"
    unfolding exec_strlen_def by (intro always_gives always_reply) (auto split: option.splits)
  show "gives wf_resp (exec_digest e k)" if "world_ok e"
    unfolding exec_digest_def
    by (rule gives_reply, rule gives_weaken [OF str])
      (use that in \<open>auto simp: wf_bulk_option pred_option_def world_ok_def digest_value_def intro!: digest_is_text\<close>)
  show "gives wf_resp (exec_mset kvs)"
    unfolding exec_mset_def by (intro always_gives always_bind always_intros) simp
  have "gives (\<lambda>v. \<forall>y. v = Some (Str y) \<longrightarrow> is_text y) (store_get_del (now_at e 0) k)"
    unfolding store_get_del_def
    by (rule gives_write) (fastforce simp: sized_def store_ok_def values_ok_def entry_text_def split: if_splits)
  then show "gives wf_resp (exec_get_del e k)"
    unfolding exec_get_del_def store_get_del_string_def
    by (intro gives_reply, elim gives_bind) (auto simp: wf_bulk_option intro!: always_intros split: option.splits store_value.splits)
  have "list_all (pred_option is_text) (mget_loop now i ks (inner s))" if "sized s" for now i ks s
    using sized_get [OF that] by (induction ks arbitrary: i) (fastforce split: option.splits store_value.splits)+
  moreover have "length (mget_loop (now_at e) 0 ks g) = length ks" for g by (simp add: mget_loop_map)
  ultimately have "gives (\<lambda>vs. length vs = length ks \<and> list_all (pred_option is_text) vs) (store_mget (now_at e) ks)"
    unfolding store_mget_def by (intro gives_read) auto
  then show "int (length ks) \<le> i64_max \<Longrightarrow> gives wf_resp (exec_mget e ks)"
    unfolding exec_mget_def
    by (elim gives_bind, intro always_intros) (auto simp: list_all_iff wf_bulk_option)
qed

text \<open>The list commands.\<close>

lemma lrange_subset: "set (lrange_list a b l) \<subseteq> set l \<and> length (lrange_list a b l) \<le> length l"
proof -
  have "set (vecdeque_range i j l) \<subseteq> set l \<and> length (vecdeque_range i j l) \<le> length l" for i j
    by (auto simp: vecdeque_range_def min_le_iff_disj dest: in_set_takeD in_set_dropD)
  then show ?thesis by (simp add: lrange_list_def Let_def)
qed

lemma pop_subset:
  "pop_loop pop_front n l = (xs, r) \<Longrightarrow> set xs \<subseteq> set l \<and> length xs \<le> length l"
  "pop_loop pop_back n l = (xs, r) \<Longrightarrow> set xs \<subseteq> set l \<and> length xs \<le> length l"
  by (auto simp: pop_front_loop pop_back_loop dest: in_set_takeD in_set_dropD)

lemma push_reply: "always wf_resp (push_loop now f k i xs n)"
  by (induction xs arbitrary: i n) (auto intro!: always_intros always_bind split: result.splits)

lemma gives_pop:
  assumes "\<And>l xs r. pop_loop f n l = (xs, r) \<Longrightarrow> set xs \<subseteq> set l \<and> length xs \<le> length l"
  shows "gives (\<lambda>r. \<forall>xs. r = Ok (Some xs) \<longrightarrow> wf_resp (bulk_array xs)) (store_pop_inner t k n f)"
proof -
  have "gives (\<lambda>r. \<forall>xs. r = Ok (Some xs) \<longrightarrow> wf_resp (bulk_array xs)) (with_write (\<lambda>g.
        case inner_get_mut t k g of
          Some (ListVal list) \<Rightarrow>
            (case pop_loop f n list of
               (elements, list') \<Rightarrow>
                 if list' = [] then (Ret (Ok (Some elements)), g\<lparr>data := fmdrop k (data g)\<rparr>)
                 else (Ret (Ok (Some elements)), g\<lparr>data := fmupd k (ListVal list') (data g)\<rparr>))
        | Some _ \<Rightarrow> (Ret (Err WrongType), g)
        | None \<Rightarrow> (Ret (Ok None), g)))"
  proof (rule gives_write, goal_cases)
    case (1 s r g)
    have "wf_resp (bulk_array xs)" if "inner_get t k (inner s) = Some (ListVal l)" "pop_loop f n l = (xs, l')" for l xs l'
      using sized_get [OF 1(1) that(1)] assms [OF that(2)] by (auto simp: wf_bulk_array list_all_iff)
    with 1(2) show ?case by (auto split: option.splits store_value.splits prod.splits if_splits)
  qed
  then show ?thesis by (simp add: gives_def store_pop_inner_def)
qed

lemma pop_reply:
  assumes "gives (\<lambda>r. \<forall>xs. r = Ok (Some xs) \<longrightarrow> wf_resp (bulk_array xs)) (f (now_at e 0) k (case c of None \<Rightarrow> 1 | Some n \<Rightarrow> n))"
  shows "gives wf_resp (exec_pop_inner e k c f)"
  unfolding exec_pop_inner_def
  by (rule gives_reply, rule gives_weaken [OF assms])
    (auto simp: pop_reply_def wf_bulk_array wf_bulk_option split: option.splits list.splits)

lemma list_replies:
  "gives wf_resp (exec_lpush e k xs)" "gives wf_resp (exec_rpush e k xs)" "gives wf_resp (exec_lpushx e k xs)"
  "gives wf_resp (exec_rpushx e k xs)" "gives wf_resp (exec_lpop e k c)" "gives wf_resp (exec_rpop e k c)"
  "gives wf_resp (exec_lset e k i y)" "gives wf_resp (exec_llen e k)"
  "gives wf_resp (exec_lindex e k i)" "gives wf_resp (exec_lrange e k a b)"
proof -
  show "gives wf_resp (exec_lpush e k xs)" "gives wf_resp (exec_rpush e k xs)" "gives wf_resp (exec_lpushx e k xs)"
    "gives wf_resp (exec_rpushx e k xs)" "gives wf_resp (exec_lset e k i y)" "gives wf_resp (exec_llen e k)"
    by (simp_all add: exec_defs always_gives push_reply always_reply)
  show "gives wf_resp (exec_lpop e k c)" "gives wf_resp (exec_rpop e k c)"
    unfolding exec_lpop_def exec_rpop_def
    by (rule pop_reply; simp only: store_lpop_def store_rpop_def; rule gives_pop; rule pop_subset; assumption)+
  show "gives wf_resp (exec_lindex e k i)"
    unfolding exec_lindex_def store_lindex_def
    by (intro gives_reply gives_read)
      (auto simp: wf_bulk_option dest!: sized_get split: option.splits store_value.splits result.splits if_splits)
  show "gives wf_resp (exec_lrange e k a b)"
    unfolding exec_lrange_def store_lrange_def
  proof (intro gives_reply gives_read allI impI, goal_cases)
    case (1 s r y)
    have "wf_resp (bulk_array (lrange_list a b l))" if "inner_get (now_at e 0) k (inner s) = Some (ListVal l)" for l
      using sized_get [OF 1(1) that] lrange_subset [of a b l] by (auto simp: wf_bulk_array list_all_iff)
    with 1 show ?case by (auto simp: wf_bulk_array split: option.splits store_value.splits)
  qed
qed

text \<open>The set commands.\<close>

lemma wf_members:
  assumes "hash_order_ok e" "sized s" "inner_get t k (inner s) = Some (SetVal u)"
  shows "wf_resp (bulk_array (hash_order e u))"
  using sized_get [OF assms(2,3)] hash_order_props [OF assms(1), of u]
  by (auto simp: wf_bulk_array list_all_iff fcard_hash_order [OF assms(1)])

lemma wf_bulk_array_part:
  "wf_resp (bulk_array xs) \<Longrightarrow> set ys \<subseteq> set xs \<Longrightarrow> int (length ys) \<le> i64_max \<Longrightarrow> wf_resp (bulk_array ys)"
  by (auto simp: wf_bulk_array list_all_iff)

lemma wf_vec_pop: "wf_resp (bulk_array xs) \<Longrightarrow> wf_resp (BulkString (vec_pop xs))"
  by (auto simp: wf_bulk_array wf_bulk_option vec_pop_def list_all_iff)

lemma wf_pick:
  assumes "sample_ok e" "wf_resp (bulk_array xs)" "pick e w n xs = Ret ys"
  shows "wf_resp (bulk_array ys)"
  by (rule wf_bulk_array_part [OF assms(2) pick_subset [OF assms(1,3)]])
    (use assms pick_length [OF assms(1,3)] in \<open>auto simp: wf_bulk_array\<close>)

lemma random_members:
  assumes "random_ok e" "xs \<noteq> []" "vec_capacity_ok 24 n" "wf_resp (bulk_array xs)"
  shows "wf_resp (bulk_array (map (\<lambda>j. xs ! random_ix e j (length xs)) [0..<n]))"
  by (rule wf_bulk_array_part [OF assms(4)])
    (use assms in \<open>auto simp: random_ok_def vec_capacity_ok_def intro!: nth_mem\<close>)

lemma gives_srandmember:
  assumes "world_ok e"
  shows "gives (\<lambda>r. \<forall>xs. r = Ok xs \<longrightarrow> wf_resp (bulk_array xs)) (store_srandmember e t k c b)"
  unfolding store_srandmember_def
proof (rule gives_read, goal_cases)
  case (1 s r)
  have e: "hash_order_ok e" "sample_ok e" "random_ok e" using assms by (simp_all add: world_ok_def)
  have ne: "hash_order e u \<noteq> []" if "y |\<in>| u" for u y
    using hash_order_props [OF e(1), of u] that by fastforce
  define n where "n = (case c of None \<Rightarrow> 1 | Some n \<Rightarrow> n)"
  have sampled: "wf_resp (bulk_array xs)"
    if "inner_get t k (inner s) = Some (SetVal u)" "pick e 24 m (hash_order e u) = Ret xs" for u m xs
    by (rule wf_pick [OF e(2) wf_members [OF e(1) 1(1) that(1)] that(2)])
  show ?case
    using 1(2) [folded n_def] wf_members [OF e(1) 1(1)] sampled random_members [OF e(3) ne]
    by (auto simp: Let_def wf_bulk_array [of "[]"] split: option.splits store_value.splits if_splits outcome.splits)
qed

lemma gives_spop:
  assumes "world_ok e"
  shows "gives (\<lambda>r. \<forall>xs. r = Ok (Some xs) \<longrightarrow> wf_resp (bulk_array xs)) (store_spop e t k c)"
  unfolding store_spop_def
proof (rule gives_write, goal_cases)
  case (1 s r g)
  have e: "hash_order_ok e" "sample_ok e" using assms by (simp_all add: world_ok_def)
  have "wf_resp (bulk_array xs)"
    if "inner_get t k (inner s) = Some (SetVal u)" "pick e 24 n (hash_order e u) = Ret xs" for u n xs
    by (rule wf_pick [OF e(2) wf_members [OF e(1) 1(1) that(1)] that(2)])
  with 1(2) show ?case
    by (auto simp: Let_def split: option.splits store_value.splits outcome.splits)
qed

lemma set_replies:
  assumes "world_ok e"
  shows "gives wf_resp (exec_sadd e k ms)" "gives wf_resp (exec_smembers e k)" "gives wf_resp (exec_sismember e k m)"
    "int (length ms) \<le> i64_max \<Longrightarrow> gives wf_resp (exec_smismember e k ms)" "gives wf_resp (exec_srandmember e k n)"
    "gives wf_resp (exec_scard e k)" "gives wf_resp (exec_smove e a b m)" "gives wf_resp (exec_spop e k c)"
    "gives wf_resp (exec_srem e k ms)"
proof -
  show "gives wf_resp (exec_sadd e k ms)" "gives wf_resp (exec_sismember e k m)" "gives wf_resp (exec_scard e k)"
    "gives wf_resp (exec_smove e a b m)" "gives wf_resp (exec_srem e k ms)"
    by (simp_all add: exec_defs always_gives always_reply)
  show "gives wf_resp (exec_smembers e k)"
    unfolding exec_smembers_def store_smembers_def
    by (intro gives_reply gives_read)
      (use wf_members assms in \<open>auto simp: world_ok_def wf_bulk_array [of "[]"] split: option.splits store_value.splits\<close>)
  show "gives wf_resp (exec_smismember e k ms)" if "int (length ms) \<le> i64_max"
    unfolding exec_smismember_def store_smismember_def
    by (intro gives_reply gives_read)
      (use that in \<open>auto simp: list_all_iff split: option.splits store_value.splits\<close>)
  show "gives wf_resp (exec_srandmember e k n)"
    unfolding exec_srandmember_def Let_def
    by (rule gives_reply, rule gives_weaken [OF gives_srandmember [OF assms]]) (auto simp: wf_vec_pop)
  show "gives wf_resp (exec_spop e k c)"
    unfolding exec_spop_def
    by (rule gives_reply, rule gives_weaken [OF gives_spop [OF assms]]) (auto simp: wf_vec_pop split: option.splits)
qed

text \<open>The generic commands.\<close>

lemma count_reply:
  "int (length ks) + n \<le> i64_max \<Longrightarrow> 0 \<le> n \<Longrightarrow> always wf_resp (count_loop f i ks n)"
proof (induction ks arbitrary: i n)
  case (Cons k ks)
  show ?case unfolding count_loop.simps by (intro always_bind Cons.IH) (use Cons.prems in auto)
qed (simp add: always_intros)

lemma resolve_reply:
  assumes "\<And>r n. f r = Ret n \<Longrightarrow> wf_resp (Integer n)"
  shows "always wf_resp (resolve_expiry e k f)"
proof -
  have "always wf_resp (bind_op (pure_op (f r)) (\<lambda>n. ret_op (Integer n)))" for r
    using assms by (cases "f r") (auto simp: always_def bind_op_def pure_op_def ret_op_def)
  then show ?thesis
    unfolding resolve_expiry_def by (auto intro!: always_bind always_intros split: option.splits)
qed

lemma i64_add_range: "i64_add b i j = Ret n \<Longrightarrow> wf_resp (Integer n)"
  using as_i64_range [of "i + j"] by (auto simp: i64_add_def split: if_splits)

lemma keys_reply: "world_ok e \<Longrightarrow> gives wf_resp (exec_keys e p)"
proof -
  assume e: "world_ok e"
  have "wf_resp (bulk_array (filter Q (hash_order e (fmdom (data (inner s))))))" if "sized s" for s Q
  proof -
    have h: "set (hash_order e (fmdom (data (inner s)))) = fset (fmdom (data (inner s)))"
      "length (hash_order e (fmdom (data (inner s)))) = fcard (fmdom (data (inner s)))"
      using e by (simp_all add: world_ok_def hash_order_props fcard_hash_order)
    have "is_text k" if "k |\<in>| fmdom (data (inner s))" for k
      using that \<open>sized s\<close> by (auto simp: sized_def store_ok_def values_ok_def entry_text_def fmlookup_dom_iff)
    with h that length_filter_le [of Q "hash_order e (fmdom (data (inner s)))"] show ?thesis
      by (auto simp: wf_bulk_array list_all_iff sized_def)
  qed
  then have "gives (\<lambda>ks. wf_resp (bulk_array ks)) (store_keys e (now_at e 0) p)"
    unfolding store_keys_def by (intro gives_read) (auto simp: Let_def)
  then show ?thesis unfolding exec_keys_def by (elim gives_bind, intro always_intros)
qed

lemma generic_replies:
  "pred_option is_text m \<Longrightarrow> gives wf_resp (exec_ping m)" "gives wf_resp (exec_persist k)"
  "gives wf_resp (exec_expire e k n)" "gives wf_resp (exec_pexpire e k n)" "gives wf_resp (exec_expire_at e k n)"
  "gives wf_resp (exec_pexpire_at e k n)" "gives wf_resp (exec_select j)" "gives wf_resp exec_db_size"
  "gives wf_resp (exec_flush_db x md)" "gives wf_resp (exec_ttl e k)" "gives wf_resp (exec_pttl e k)"
  "gives wf_resp (exec_expire_time e k)" "gives wf_resp (exec_pexpire_time e k)"
  "int (length ks) \<le> i64_max \<Longrightarrow> gives wf_resp (exec_delete ks)" "int (length ks) \<le> i64_max \<Longrightarrow> gives wf_resp (exec_exists e ks)"
proof -
  show "pred_option is_text m \<Longrightarrow> gives wf_resp (exec_ping m)"
    by (intro always_gives) (auto simp: exec_ping_def wf_bulk_option intro!: always_intros split: option.splits)
  show "gives wf_resp (exec_ttl e k)" "gives wf_resp (exec_pttl e k)" "gives wf_resp (exec_expire_time e k)"
    "gives wf_resp (exec_pexpire_time e k)"
    unfolding exec_ttl_def exec_pttl_def exec_expire_time_def exec_pexpire_time_def
    by (rule always_gives, rule resolve_reply, auto simp: Let_def simp del: wf_resp.simps(3) dest: i64_add_range
        split: if_splits)+
  show "int (length ks) \<le> i64_max \<Longrightarrow> gives wf_resp (exec_delete ks)" "int (length ks) \<le> i64_max \<Longrightarrow> gives wf_resp (exec_exists e ks)"
    unfolding exec_delete_def exec_exists_def by (rule always_gives, rule count_reply; simp)+
qed (auto simp: exec_defs intro!: always_gives always_bind always_intros split: option.splits)

lemma reply_wf:
  assumes "world_ok e" "sized s" "\<forall>y \<in> set (command_texts c). is_text y" "int (command_width c) \<le> i64_max"
    "execute x e c s = (Ret r, s')"
  shows "wf_resp r"
proof -
  have "gives wf_resp (execute x e c)"
    using assms(1,3,4)
    by (cases c) (simp_all add: string_replies set_reply list_replies set_replies keys_reply generic_replies
        command_texts_def pred_option_def split: option.splits)
  with assms(2,5) show ?thesis unfolding gives_def by blast
qed

section \<open>Sessions\<close>

definition bounded :: "store \<Rightarrow> bool" where
  "bounded s \<longleftrightarrow> within_limits s \<and> int (fcard (fmdom (data (inner s)))) \<le> i64_max"

text \<open>An error whose text stays on its line.\<close>

fun clean_error :: "handler_error \<Rightarrow> bool" where
  "clean_error (UnknownCommand s) \<longleftrightarrow> utf8_valid s \<and> LF \<notin> set s"
| "clean_error (NotAnInteger s) \<longleftrightarrow> utf8_valid s \<and> LF \<notin> set s"
| "clean_error (UnexpectedType _ _) \<longleftrightarrow> False"
| "clean_error _ \<longleftrightarrow> True"

definition answerable :: "resp_value \<Rightarrow> bool" where
  "answerable v \<longleftrightarrow> wf_resp v \<and>
     (case from_resp2 v of Ret (Ok c) \<Rightarrow> True | Ret (Err err) \<Rightarrow> clean_error err | Panic \<Rightarrow> False)"

lemma respond_wf:
  assumes "answerable v" "from_resp2 v = Ret cmd" "world_ok e" "sized s" "respond x e cmd s = (Ret r, s')"
  shows "wf_resp r \<and> store_ok entry_text s'"
proof (cases cmd)
  case (Ok c)
  have v: "wf_resp v" using assms(1) by (simp add: answerable_def)
  have ex: "execute x e c s = (Ret r, s')" using assms(5) Ok by (simp add: respond_def)
  note strs = parsed_texts [OF v assms(2) [unfolded Ok]]
  have "store_ok entry_text (snd (execute x e c s))"
    using texts.execute_ok [of c x e] strs assms(4)
    by (auto simp: preserves_def sized_def command_texts_def list_all_iff)
  with ex reply_wf [OF assms(3,4) _ _ ex] strs show ?thesis by auto
next
  case (Err err)
  have "clean_error err" using assms(1,2) Err by (simp add: answerable_def)
  with assms(4,5) Err show ?thesis
    by (cases err) (auto simp: respond_def ret_op_def display_handler_error_def sized_def utf8_valid_append show_nat_utf8
        show_nat_no_LF)
qed

text \<open>The answers to a list of requests: what each command returns on the store that the ones before it
  have left.\<close>

fun answers :: "executor \<Rightarrow> (nat \<Rightarrow> request_world) \<Rightarrow> nat \<Rightarrow> resp_value list \<Rightarrow> store \<Rightarrow> resp_value list" where
  "answers x ws i [] s = []"
| "answers x ws i (v # vs) s =
     (case from_resp2 v of
        Panic \<Rightarrow> []
      | Ret cmd \<Rightarrow>
          (case respond x (r_env (ws i)) cmd s of
             (Ret r, s') \<Rightarrow> r # answers x ws (Suc i) vs s'
           | (Panic, _) \<Rightarrow> []))"

lemma request_framed:
  assumes "handle_request x w v st = (Ret (Ok ()), st')" "answerable v" "world_ok (r_env w)" "sized (h_store st)"
  shows "\<exists>cmd r. from_resp2 v = Ret cmd \<and> respond x (r_env w) cmd (h_store st) = (Ret r, h_store st') \<and>
    wf_resp r \<and> h_out st' = h_out st @ encode r \<and> store_ok entry_text (h_store st')"
proof -
  obtain cmd r s' where req: "from_resp2 v = Ret cmd" "respond x (r_env w) cmd (h_store st) = (Ret r, s')"
    and st': "h_store st' = s'" "h_out st' = h_out st @ encode r"
    using assms(1) by (auto simp: handle_request_def send_response_def split: outcome.splits prod.splits result.splits)
  from respond_wf [OF assms(2) req(1) assms(3,4) req(2)] st' req show ?thesis by auto
qed

lemma session_framed:
  assumes "run_handler x ws i (concat (map encode vs)) st = (Ret (Ok ()), st')" "\<forall>v \<in> set vs. answerable v"
    "\<forall>i. world_ok (r_env (ws i))" "store_ok entry_text (h_store st)"
    "\<forall>n \<le> length vs. bounded (h_store (snd (run_handler x ws i (concat (map encode (take n vs))) st)))"
  shows "length (answers x ws i vs (h_store st)) = length vs \<and> list_all wf_resp (answers x ws i vs (h_store st)) \<and>
    h_out st' = h_out st @ concat (map encode (answers x ws i vs (h_store st)))"
  using assms
proof (induction vs arbitrary: i st)
  case Nil
  then show ?case by (simp add: run_handler_empty)
next
  case (Cons v vs)
  have v: "wf_resp v" "answerable v" using Cons.prems(2) by (auto simp: answerable_def)
  obtain st1 where h: "handle_request x (ws i) v st = (Ret (Ok ()), st1)"
    and rest: "run_handler x ws (Suc i) (concat (map encode vs)) st1 = (Ret (Ok ()), st')"
    using Cons.prems(1) v(1) by (auto simp: run_handler_request split: prod.splits outcome.splits result.splits)
  have pre: "run_handler x ws i (concat (map encode (take (Suc n) (v # vs)))) st =
      run_handler x ws (Suc i) (concat (map encode (take n vs))) st1" for n
    using h v(1) by (simp add: run_handler_request)
  have lim: "\<forall>n \<le> length vs. bounded (h_store (snd (run_handler x ws (Suc i) (concat (map encode (take n vs))) st1)))"
    using Cons.prems(5) pre by (metis Suc_le_mono length_Cons)
  have "sized (h_store st)"
    using Cons.prems(4) Cons.prems(5) [rule_format, of 0] by (simp add: run_handler_empty sized_def bounded_def)
  then obtain cmd r where r: "from_resp2 v = Ret cmd" "respond x (r_env (ws i)) cmd (h_store st) = (Ret r, h_store st1)"
    "wf_resp r" "h_out st1 = h_out st @ encode r" "store_ok entry_text (h_store st1)"
    using request_framed [OF h v(2)] Cons.prems(3) by blast
  with Cons.IH [OF rest _ Cons.prems(3) r(5) lim] Cons.prems(2) show ?case by simp
qed

section \<open>Properties\<close>

lemma demo_world_ok: "world_ok (demo_env t u)"
  by (auto simp: world_ok_def is_text_def vec_capacity_ok_def)

lemma sized_new: "sized store_new"
  by (simp add: sized_def store_ok_def values_ok_def within_limits_def store_new_def fcard_fempty)

text \<open>C25: every reply is well formed.  On a store whose keys and strings are texts and whose
  collections fit the address space, whatever a command that returns answers, for any of the
  forty-two commands, is a value that \<open>encode\<close> writes so that \<open>decode\<close> reads it back: integers fit
  64 bits, error lines hold no line feed, strings are UTF-8.\<close>

theorem execute_reply_wf:
  assumes "world_ok e" "sized s" "\<forall>y \<in> set (command_texts c). is_text y" "int (command_width c) \<le> i64_max"
    "execute x e c s = (Ret r, s')"
  shows "wf_resp r \<and> decode (encode r) = Ret (Ok r, [])"
  using reply_wf [OF assms] decode_encode_rest [of r "[]"] by simp

theorem execute_reply_wf_witness:
  "decode (encode (BulkString None)) = Ret (Ok (BulkString None), [])"
  using execute_reply_wf [OF demo_world_ok [of 0 0] sized_new, of "Get ''k''" "\<lparr>lazyfree_lazy_user_flush = False\<rparr>"
      "BulkString None" store_new]
  by (simp add: command_texts_def exec_get_def reply_def bind_op_def ret_op_def store_get_string_view store_new_def
      inner_get_def)

text \<open>C17: one reply per request, in order.  In a session whose requests parse, or fail to with an error
  whose text has no line feed (a command name or argument with a line feed that is quoted in an error
  breaks the framing), the bytes sent to the client decode to exactly the values that the commands return,
  each on the store that the ones before it have left, one for each request, with nothing left over.\<close>

theorem one_reply_per_request:
  assumes "run_handler x ws 0 (concat (map encode vs)) st = (Ret (Ok ()), st')" "\<forall>v \<in> set vs. answerable v"
    "\<forall>i. world_ok (r_env (ws i))" "store_ok entry_text (h_store st)"
    "\<forall>n \<le> length vs. bounded (h_store (snd (run_handler x ws 0 (concat (map encode (take n vs))) st)))"
  shows "\<exists>out. h_out st' = h_out st @ out \<and>
    parse_items (length vs) out = Ret (Ok (answers x ws 0 vs (h_store st)), []) \<and>
    length (answers x ws 0 vs (h_store st)) = length vs"
proof -
  define rs where "rs = answers x ws 0 vs (h_store st)"
  have rs: "length rs = length vs" "list_all wf_resp rs" "h_out st' = h_out st @ concat (map encode rs)"
    using session_framed [OF assms] by (simp_all add: rs_def)
  have "parse_items (length rs) (concat (map encode rs) @ []) = Ret (Ok rs, [])"
    by (rule parse_items_encoded) (use rs(2) decode_encode_rest in \<open>auto simp: list_all_iff\<close>)
  with rs show ?thesis unfolding rs_def [symmetric] by auto
qed

theorem one_reply_per_request_witness:
  "\<exists>st'. run_handler \<lparr>lazyfree_lazy_user_flush = False\<rparr> (\<lambda>_. demo_world 0) 0 (encode (request [''PING'']))
      (demo_handler store_new) = (Ret (Ok ()), st') \<and>
     parse_items 1 (h_out st') = Ret (Ok [SimpleString ''PONG''], [])"
proof -
  let ?x = "\<lparr>lazyfree_lazy_user_flush = False\<rparr>" and ?v = "request [''PING'']"
  let ?st = "(demo_handler store_new)\<lparr>h_out := encode (SimpleString ''PONG'')\<rparr>"
  have v: "from_resp2 ?v = Ret (Ok (Ping None))"
    by (simp add: from_resp2_request parse_command_def parse_ping_command_def)
  have wf: "wf_resp ?v" by (simp add: wf_request vec_capacity_ok_def)
  have h: "handle_request ?x (demo_world 0) ?v (demo_handler store_new) = (Ret (Ok ()), ?st)"
    using v by (simp add: handle_request_def demo_world_def demo_handler_def respond_def exec_ping_def ret_op_def
        log_step_def is_logged_def is_write_cmd_def send_response_def)
  have run: "run_handler ?x (\<lambda>_. demo_world 0) 0 (concat (map encode [?v])) (demo_handler store_new) = (Ret (Ok ()), ?st)"
    using run_handler_request [OF wf, of ?x "\<lambda>_. demo_world 0" 0 "[]" "demo_handler store_new"] h
    by (simp add: run_handler_empty)
  have "\<forall>n \<le> length [?v]. bounded (h_store (snd (run_handler ?x (\<lambda>_. demo_world 0) 0
      (concat (map encode (take n [?v]))) (demo_handler store_new))))"
  proof (intro allI impI)
    fix n assume "n \<le> length [?v]"
    then consider "n = 0" | "n = 1" by fastforce
    then show "bounded (h_store (snd (run_handler ?x (\<lambda>_. demo_world 0) 0 (concat (map encode (take n [?v])))
        (demo_handler store_new))))"
      using sized_new run by cases (simp_all add: run_handler_empty demo_handler_store bounded_def sized_def)
  qed
  from one_reply_per_request [OF run _ _ _ this] wf v sized_new
  have "\<exists>out. h_out ?st = h_out (demo_handler store_new) @ out \<and> parse_items 1 out = Ret (Ok [SimpleString ''PONG''], [])"
    by (simp add: answerable_def demo_world_def demo_world_ok demo_handler_store sized_def respond_def exec_ping_def
        ret_op_def)
  with run show ?thesis by (auto simp: demo_handler_def)
qed

end
