(* ===== verification/Interleaving.thy ===== *)
theory Interleaving
  imports Tasks Replies "HOL-Library.Sublist"
begin

text \<open>
  The running server: any number of connection handlers on one store and one append-only file, the
  eviction daemon and the fsync task beside them.  A step is one critical section, one append, one
  reply, or the arrival of a request.  Between two steps of one handler any other may run, which is what
  the multi-threaded runtime allows; a handler can be aborted only where it awaits, that is before
  a request and at its reply.
\<close>

section \<open>The system\<close>

datatype conn =
    Idle
  | Busy request_world resp_value "(command, handler_error) result" "resp_value task"
  | Answering request_world resp_value
  | Closed

record system =
  sys_store :: store
  sys_aof :: "aof_writer option"
  conns :: "nat \<Rightarrow> conn"
  outs :: "nat \<Rightarrow> string"
  evictor :: "unit task"

datatype label =
    Received nat request_world resp_value
  | Ran nat request_world "(command, handler_error) result"
  | Appended nat
  | Sent nat resp_value
  | Ended nat
  | Ticked env
  | Evicted
  | Synced

definition set_conn :: "nat \<Rightarrow> conn \<Rightarrow> system \<Rightarrow> system" where
  "set_conn i c st = st\<lparr>conns := (conns st)(i := c)\<rparr>"

inductive sys_step :: "executor \<Rightarrow> system \<Rightarrow> label \<Rightarrow> system \<Rightarrow> bool" for x where
  receive: "conns st i = Idle \<Longrightarrow> from_resp2 v = Ret cmd \<Longrightarrow>
    sys_step x st (Received i w v) (set_conn i (Busy w v cmd (respond_task x (r_env w) cmd)) st)"
| receive_panic: "conns st i = Idle \<Longrightarrow> from_resp2 v = Panic \<Longrightarrow> sys_step x st (Ended i) (set_conn i Closed st)"
| leave: "conns st i = Idle \<Longrightarrow> sys_step x st (Ended i) (set_conn i Closed st)"
| critical: "conns st i = Busy w v cmd (Section f) \<Longrightarrow> f (sys_store st) = (t, s') \<Longrightarrow>
    sys_step x st (Ran i w cmd) (set_conn i (Busy w v cmd t) (st\<lparr>sys_store := s'\<rparr>))"
| unwind: "conns st i = Busy w v cmd (Done Panic) \<Longrightarrow> sys_step x st (Ended i) (set_conn i Closed st)"
| log: "conns st i = Busy w v cmd (Done (Ret r)) \<Longrightarrow> log_step w cmd v r (sys_aof st) = Ret aof \<Longrightarrow>
    sys_step x st (Appended i) (set_conn i (Answering w r) (st\<lparr>sys_aof := aof\<rparr>))"
| log_panic: "conns st i = Busy w v cmd (Done (Ret r)) \<Longrightarrow> log_step w cmd v r (sys_aof st) = Panic \<Longrightarrow>
    sys_step x st (Ended i) (set_conn i Closed st)"
| send: "conns st i = Answering w r \<Longrightarrow> send_response (r_send w) r (outs st i) = (Ok (), out) \<Longrightarrow>
    sys_step x st (Sent i r) (set_conn i Idle (st\<lparr>outs := (outs st)(i := out)\<rparr>))"
| send_error: "conns st i = Answering w r \<Longrightarrow> send_response (r_send w) r (outs st i) = (Err e, out) \<Longrightarrow>
    sys_step x st (Ended i) (set_conn i Closed (st\<lparr>outs := (outs st)(i := out)\<rparr>))"
| abort: "conns st i = Answering w r \<Longrightarrow>
    sys_step x st (Ended i) (set_conn i Closed (st\<lparr>outs := (outs st)(i := outs st i @ take n (encode r))\<rparr>))"
| tick: "evictor st = ret_task () \<Longrightarrow> sys_step x st (Ticked e) (st\<lparr>evictor := evict_task e\<rparr>)"
| evict: "evictor st = Section f \<Longrightarrow> f (sys_store st) = (t, s') \<Longrightarrow>
    sys_step x st Evicted (st\<lparr>evictor := t, sys_store := s'\<rparr>)"
| fsync: "sys_aof st = Some a \<Longrightarrow> sys_step x st Synced (st\<lparr>sys_aof := Some (snd (sync_data r a))\<rparr>)"

inductive_cases sys_step_elims:
  "sys_step x st (Received i w v) st'" "sys_step x st (Ran i w cmd) st'" "sys_step x st (Appended i) st'"
  "sys_step x st (Sent i r) st'" "sys_step x st (Ended i) st'" "sys_step x st (Ticked e) st'"
  "sys_step x st Evicted st'" "sys_step x st Synced st'"

inductive sys_run :: "executor \<Rightarrow> system \<Rightarrow> label list \<Rightarrow> system \<Rightarrow> bool" for x where
  stay: "sys_run x st [] st"
| move: "sys_run x st ls st' \<Longrightarrow> sys_step x st' l st'' \<Longrightarrow> sys_run x st (ls @ [l]) st''"

lemma sys_run_trans: "sys_run x st' ls' st'' \<Longrightarrow> sys_run x st ls st' \<Longrightarrow> sys_run x st (ls @ ls') st''"
  by (induction rule: sys_run.induct) (auto intro: sys_run.move simp flip: append_assoc)

lemma sys_run_one: "sys_step x st l st' \<Longrightarrow> sys_run x st [l] st'"
  using sys_run.move [OF sys_run.stay] by fastforce

lemma sys_run_Cons: "sys_step x st l st' \<Longrightarrow> sys_run x st' ls st'' \<Longrightarrow> sys_run x st (l # ls) st''"
  using sys_run_trans [OF _ sys_run_one] by fastforce

text \<open>The server when it starts to accept: nobody is being served and the daemon waits for its tick.\<close>

definition sys_init :: "store \<Rightarrow> aof_writer option \<Rightarrow> system" where
  "sys_init s aof = \<lparr>sys_store = s, sys_aof = aof, conns = (\<lambda>_. Idle), outs = (\<lambda>_. []), evictor = ret_task ()\<rparr>"

section \<open>A handler alone\<close>

lemma set_conn_simps [simp]:
  "sys_store (set_conn i c st) = sys_store st" "sys_aof (set_conn i c st) = sys_aof st"
  "outs (set_conn i c st) = outs st" "evictor (set_conn i c st) = evictor st"
  "conns (set_conn i c st) = (conns st)(i := c)"
  "set_conn i c (set_conn i d st) = set_conn i c st"
  by (simp_all add: set_conn_def)

lemma set_conn_id: "conns st i = c \<Longrightarrow> set_conn i c st = st"
  by (cases st) (auto simp: set_conn_def)

lemma run_uninterrupted:
  assumes "run_task t (sys_store st) = (r, s')" "conns st i = Busy w v cmd t"
  shows "\<exists>ls. sys_run x st ls (set_conn i (Busy w v cmd (Done r)) (st\<lparr>sys_store := s'\<rparr>)) \<and>
    (\<forall>l \<in> set ls. l = Ran i w cmd)"
  using assms
proof (induction t arbitrary: st rule: task_induct)
  case (Done r')
  then have "set_conn i (Busy w v cmd (Done r)) (st\<lparr>sys_store := s'\<rparr>) = st"
    by (simp add: pure_op_def set_conn_id)
  then show ?case using sys_run.stay by fastforce
next
  case (Section f)
  obtain t s1 where f: "f (sys_store st) = (t, s1)" by (cases "f (sys_store st)")
  let ?st = "set_conn i (Busy w v cmd t) (st\<lparr>sys_store := s1\<rparr>)"
  have "\<exists>ls. sys_run x ?st ls (set_conn i (Busy w v cmd (Done r)) (?st\<lparr>sys_store := s'\<rparr>)) \<and>
      (\<forall>l \<in> set ls. l = Ran i w cmd)"
    using Section f by (intro Section.IH [of "sys_store st"]) (auto simp: f)
  then obtain ls where ls: "sys_run x ?st ls (set_conn i (Busy w v cmd (Done r)) (?st\<lparr>sys_store := s'\<rparr>))"
    "\<forall>l \<in> set ls. l = Ran i w cmd" by blast
  have "set_conn i (Busy w v cmd (Done r)) (?st\<lparr>sys_store := s'\<rparr>) = set_conn i (Busy w v cmd (Done r)) (st\<lparr>sys_store := s'\<rparr>)"
    by (simp add: set_conn_def)
  with sys_run_Cons [OF sys_step.critical [OF Section.prems(2) f]] ls show ?case by fastforce
qed

definition handler_view :: "nat \<Rightarrow> system \<Rightarrow> handler_state" where
  "handler_view i st = \<lparr>h_store = sys_store st, h_aof = sys_aof st, h_out = outs st i\<rparr>"

definition with_view :: "nat \<Rightarrow> handler_state \<Rightarrow> system \<Rightarrow> system" where
  "with_view i h st = st\<lparr>sys_store := h_store h, sys_aof := h_aof h, outs := (outs st)(i := h_out h)\<rparr>"

definition owner :: "label \<Rightarrow> nat option" where
  "owner l = (case l of Received i w v \<Rightarrow> Some i | Ran i w c \<Rightarrow> Some i | Appended i \<Rightarrow> Some i | Sent i r \<Rightarrow> Some i
     | Ended i \<Rightarrow> Some i | _ \<Rightarrow> None)"

lemma handler_alone:
  assumes "handle_request x w v (handler_view i st) = (Ret (Ok ()), h)" "conns st i = Idle"
  shows "\<exists>ls. sys_run x st ls (with_view i h st) \<and> (\<forall>l \<in> set ls. owner l = Some i)"
proof -
  obtain cmd r s' aof out where req: "from_resp2 v = Ret cmd"
    "respond x (r_env w) cmd (sys_store st) = (Ret r, s')" "log_step w cmd v r (sys_aof st) = Ret aof"
    "send_response (r_send w) r (outs st i) = (Ok (), out)"
    and h: "h = \<lparr>h_store = s', h_aof = aof, h_out = out\<rparr>"
    using assms(1)
    by (auto simp: handle_request_def handler_view_def split: outcome.splits prod.splits result.splits)
  let ?a = "set_conn i (Busy w v cmd (respond_task x (r_env w) cmd)) st"
  let ?b = "set_conn i (Busy w v cmd (Done (Ret r))) (st\<lparr>sys_store := s'\<rparr>)"
  let ?c = "set_conn i (Answering w r) (?b\<lparr>sys_aof := aof\<rparr>)"
  let ?d = "set_conn i Idle (?c\<lparr>outs := (outs st)(i := out)\<rparr>)"
  have a: "sys_step x st (Received i w v) ?a" by (rule sys_step.receive [OF assms(2) req(1)])
  obtain ls where ls: "sys_run x ?a ls (set_conn i (Busy w v cmd (Done (Ret r))) (?a\<lparr>sys_store := s'\<rparr>))"
    "\<forall>l \<in> set ls. l = Ran i w cmd"
    using run_uninterrupted [of "respond_task x (r_env w) cmd" ?a "Ret r" s' i w v cmd x] req(2)
    by (auto simp: run_respond_task)
  have eq: "set_conn i (Busy w v cmd (Done (Ret r))) (?a\<lparr>sys_store := s'\<rparr>) = ?b" by (simp add: set_conn_def)
  have c: "sys_step x ?b (Appended i) ?c" using sys_step.log [of ?b i w v cmd r aof x] req(3) by simp
  have d: "sys_step x ?c (Sent i r) ?d" using sys_step.send [of ?c i w r out x] req(4) by simp
  have fin: "?d = with_view i h st"
    using assms(2) by (cases st) (auto simp: set_conn_def with_view_def h)
  have "sys_run x ?b ([Appended i] @ [Sent i r]) ?d"
    by (rule sys_run_trans [OF sys_run_one [OF d] sys_run_one [OF c]])
  from sys_run_trans [OF this sys_run_Cons [OF a ls(1) [unfolded eq]]]
  have "sys_run x st ((Received i w v # ls) @ [Appended i] @ [Sent i r]) ?d" .
  then show ?thesis
    using ls(2) by (intro exI [of _ "(Received i w v # ls) @ [Appended i] @ [Sent i r]"]) (auto simp: fin owner_def)
qed

section \<open>Invariants of the interleaved store\<close>

text \<open>Every section that the task can come to run keeps the predicate, whatever the others have done
  in between, as long as they keep it too.\<close>

inductive task_keeps :: "(store \<Rightarrow> bool) \<Rightarrow> 'a task \<Rightarrow> bool" for P where
  ended: "task_keeps P (Done r)"
| critical: "(\<And>s. P s \<Longrightarrow> P (snd (f s))) \<Longrightarrow> (\<And>s. P s \<Longrightarrow> task_keeps P (fst (f s))) \<Longrightarrow> task_keeps P (Section f)"

inductive_cases task_keeps_SectionE: "task_keeps P (Section f)"

lemma keeps_atomic: "preserves P m \<Longrightarrow> task_keeps P (atomic m)"
  unfolding atomic_def
  by (rule task_keeps.critical) (auto simp: preserves_def intro: task_keeps.ended split: prod.splits)

lemma keeps_bind:
  assumes "task_keeps P t" "\<And>y. task_keeps P (g y)"
  shows "task_keeps P (bind_task t g)"
  using assms(1)
proof (induction rule: task_keeps.induct)
  case (ended r)
  then show ?case by (cases r) (simp_all add: assms(2) task_keeps.ended)
next
  case (critical f)
  then show ?case by (auto intro!: task_keeps.critical)
qed

lemmas keeps_rules = task_keeps.ended keeps_atomic keeps_bind

lemma keeps_reads:
  "task_keeps P (resolve_expiry_task e k f)" "task_keeps P (count_task (\<lambda>i. store_exists (now i)) j ks n)"
proof -
  note rd = preserves_read_only [OF store_reads_read_only(2)] preserves_read_only [OF store_reads_read_only(3)]
  show "task_keeps P (resolve_expiry_task e k f)"
    unfolding resolve_expiry_task_def
    by (auto intro!: keeps_rules rd split: option.splits outcome.splits)
  show "task_keeps P (count_task (\<lambda>i. store_exists (now i)) j ks n)"
    by (induction ks arbitrary: j n) (auto intro!: keeps_rules rd)
qed

lemma keeps_count: "(\<And>k. preserves P (f k)) \<Longrightarrow> task_keeps P (count_task (\<lambda>_. f) i ks n)"
  by (induction ks arbitrary: i n) (auto intro!: keeps_rules)

lemma keeps_push: "(\<And>t y. y \<in> set xs \<Longrightarrow> preserves P (f t k y)) \<Longrightarrow> task_keeps P (push_task now f k i xs n)"
  by (induction xs arbitrary: i n) (auto intro!: keeps_rules split: result.splits)

lemma keeps_set:
  assumes "preserves P (store_set k (Str v))" "\<And>d. x \<noteq> None \<Longrightarrow> preserves P (store_set_ttl k d)"
  shows "task_keeps P (set_task e k v c x g)"
proof -
  have exp: "preserves P (set_expiry_step e k y pt)" if "y \<noteq> None \<Longrightarrow> x \<noteq> None" for y pt
    using that
    unfolding set_expiry_step_def
    by (auto split: option.splits set_expiry.splits intro!: preserves_rules assms)
  have wr: "task_keeps P (set_write_task e k v x)"
    unfolding set_write_task_def store_set_string_def
    by (auto intro!: keeps_rules exp assms preserves_read_only [OF store_reads_read_only(3)])
  show ?thesis
    unfolding set_task_def
    by (intro keeps_bind keeps_atomic preserves_read_only [OF store_reads_read_only(6)])
      (auto simp: set_finish_task_def Let_def intro!: keeps_rules wr split: result.splits option.splits)
qed

text \<open>What a predicate of the store must satisfy so that no interleaving of admissible commands and of
  the daemon breaks it.\<close>

locale section_invariant =
  fixes P :: "store \<Rightarrow> bool" and ok :: "env \<Rightarrow> command \<Rightarrow> bool"
  assumes whole: "ok e c \<Longrightarrow> preserves P (execute x e c)"
    and set_value: "ok e (Set k v b y g) \<Longrightarrow> preserves P (store_set k (Str v))"
    and deadline: "ok e (Set k v b y g) \<Longrightarrow> y \<noteq> None \<Longrightarrow> preserves P (store_set_ttl k d)"
    and delete: "preserves P (store_delete k)"
    and bulk: "preserves P (store_delete_bulk ks)"
    and left: "ok e (LPush k xs) \<Longrightarrow> z \<in> set xs \<Longrightarrow> preserves P (store_lpush t k z)"
    and right: "ok e (RPush k xs) \<Longrightarrow> z \<in> set xs \<Longrightarrow> preserves P (store_rpush t k z)"
    and left_x: "ok e (LPushX k xs) \<Longrightarrow> z \<in> set xs \<Longrightarrow> preserves P (store_lpushx t k z)"
    and right_x: "ok e (RPushX k xs) \<Longrightarrow> z \<in> set xs \<Longrightarrow> preserves P (store_rpushx t k z)"
begin

lemma keeps_exec: "ok e c \<Longrightarrow> task_keeps P (exec_task x e c)"
  using whole [of e c x]
  by (cases c) (auto simp: exec_task_def intro!: keeps_atomic keeps_reads keeps_set keeps_count keeps_push
      intro: set_value deadline delete left right left_x right_x)

lemma keeps_respond:
  assumes "\<And>c. cmd = Ok c \<Longrightarrow> ok e c"
  shows "task_keeps P (respond_task x e cmd)"
proof (cases cmd)
  case (Err h)
  have "read_only (respond x e (Err h))"
    by (cases h) (simp_all add: respond_def read_only_intros)
  with Err show ?thesis by (simp add: respond_task_def keeps_atomic preserves_read_only)
qed (simp add: respond_task_def keeps_exec assms)

lemma keeps_evict: "task_keeps P (evict_task e)"
  unfolding evict_task_def
  by (intro keeps_rules bulk preserves_read_only [OF store_reads_read_only(16)])

definition sys_inv :: "system \<Rightarrow> bool" where
  "sys_inv st \<longleftrightarrow> P (sys_store st) \<and> task_keeps P (evictor st) \<and>
     (\<forall>i w v cmd t. conns st i = Busy w v cmd t \<longrightarrow> task_keeps P t)"

lemma sys_inv_step:
  assumes "sys_step x st l st'" "sys_inv st" "\<And>i w v c. l = Received i w v \<Longrightarrow> from_resp2 v = Ret (Ok c) \<Longrightarrow> ok (r_env w) c"
  shows "sys_inv st'"
  using assms(1)
proof cases
  case (receive i v cmd w)
  have "task_keeps P (respond_task x (r_env w) cmd)"
    by (rule keeps_respond) (use receive assms(3) in blast)
  with receive assms(2) show ?thesis by (simp add: sys_inv_def)
next
  case (critical i w v cmd f t s')
  have "task_keeps P (Section f)" using assms(2) critical by (auto simp: sys_inv_def)
  then have "P s' \<and> task_keeps P t"
    using assms(2) critical(4) by (auto simp: sys_inv_def elim!: task_keeps_SectionE)
  with critical assms(2) show ?thesis by (simp add: sys_inv_def)
next
  case (evict f t s')
  have "task_keeps P (Section f)" using assms(2) evict by (auto simp: sys_inv_def)
  then have "P s' \<and> task_keeps P t"
    using assms(2) evict(4) by (auto simp: sys_inv_def elim!: task_keeps_SectionE)
  with evict assms(2) show ?thesis by (simp add: sys_inv_def)
qed (use assms(2) keeps_evict in \<open>auto simp: sys_inv_def\<close>)

lemma sys_run_keeps:
  assumes "sys_run x (sys_init s aof) ls st" "P s" "\<And>i w v c. Received i w v \<in> set ls \<Longrightarrow> from_resp2 v = Ret (Ok c) \<Longrightarrow> ok (r_env w) c"
  shows "P (sys_store st)"
proof -
  have "sys_inv st" using assms
  proof (induction "sys_init s aof" ls st rule: sys_run.induct)
    case stay
    then show ?case by (simp add: sys_inv_def sys_init_def task_keeps.ended)
  next
    case (move ls st' l st'')
    show ?case by (rule sys_inv_step [OF move.hyps(3)]) (use move in auto)
  qed
  then show ?thesis by (simp add: sys_inv_def)
qed

end

interpretation lock: section_invariant healthy lock_safe
  by unfold_locales (auto simp: store_lpush_def store_rpush_def store_lpushx_def store_rpushx_def
      intro: writes_healthy execute_healthy)

sublocale value_invariant \<subseteq> sections: section_invariant "store_ok vok"
  "\<lambda>_ c. list_all kok (command_keys c) \<and> list_all sok (command_values c)"
proof unfold_locales
  have "values_ok vok (fold inner_remove ks g)" if "values_ok vok g" for ks g
    using that by (induction ks arbitrary: g) (simp_all add: values_ok_remove)
  then show "preserves (store_ok vok) (store_delete_bulk ks)" for ks
    unfolding store_delete_bulk_def by (intro preserves_write) simp
qed (auto simp: store_lpush_def store_rpush_def store_lpushx_def store_rpushx_def list_all_iff
    intro: execute_ok generic_ok str push_ok)

section \<open>Linearizability of single-section commands\<close>

fun single_section :: "command \<Rightarrow> bool" where
  "single_section (Set _ _ _ _ _) = False"
| "single_section (Delete ks) = (length ks = 1)"
| "single_section (Exists ks) = (length ks = 1)"
| "single_section (LPush _ xs) = (length xs = 1)"
| "single_section (RPush _ xs) = (length xs = 1)"
| "single_section (LPushX _ xs) = (length xs = 1)"
| "single_section (RPushX _ xs) = (length xs = 1)"
| "single_section (Ttl _) = False"
| "single_section (PTtl _) = False"
| "single_section (ExpireTime _) = False"
| "single_section (PExpireTime _) = False"
| "single_section _ = True"

lemma bind_atomic_ret: "bind_task (atomic m) (\<lambda>y. ret_task (h y)) = atomic (bind_op m (\<lambda>y. ret_op (h y)))"
  by (auto simp: atomic_def bind_op_def ret_op_def fun_eq_iff split: prod.splits outcome.splits)

lemma single_loops:
  "count_task f i [k] n = atomic (count_loop f i [k] n)" "push_task now g k i [y] j = atomic (push_loop now g k i [y] j)"
proof -
  show "count_task f i [k] n = atomic (count_loop f i [k] n)"
    using bind_atomic_ret [of "f i k" "\<lambda>b. Integer (n + (if b then 1 else 0))"] by simp
  have "(\<lambda>r. case r of Ok n \<Rightarrow> push_task now g k (Suc i) [] n | Err e \<Rightarrow> ret_task (error_reply e)) =
      (\<lambda>r. ret_task (case r of Ok n \<Rightarrow> len_reply n | Err e \<Rightarrow> error_reply e))"
    "(\<lambda>r. case r of Ok n \<Rightarrow> push_loop now g k (Suc i) [] n | Err e \<Rightarrow> ret_op (error_reply e)) =
      (\<lambda>r. ret_op (case r of Ok n \<Rightarrow> len_reply n | Err e \<Rightarrow> error_reply e))"
    by (simp_all add: fun_eq_iff split: result.splits)
  then show "push_task now g k i [y] j = atomic (push_loop now g k i [y] j)"
    by (simp only: push_task.simps(2) push_loop.simps(2) bind_atomic_ret)
qed

lemma single_task:
  assumes "\<And>c. cmd = Ok c \<Longrightarrow> single_section c"
  shows "respond_task x e cmd = atomic (respond x e cmd)"
proof (cases cmd)
  case (Ok c)
  have "single_section c" using assms Ok by simp
  then have "exec_task x e c = atomic (execute x e c)"
    by (cases c) (auto simp: exec_task_def length_Suc_conv single_loops exec_delete_def exec_exists_def exec_lpush_def
        exec_rpush_def exec_lpushx_def exec_rpushx_def exec_push_inner_def simp del: count_task.simps push_task.simps
        count_loop.simps push_loop.simps)
  with Ok show ?thesis by (simp add: respond_task_def respond_def)
qed (simp add: respond_task_def)

text \<open>What a run did: the sections in the order they ran, the replies each client received and the requests
  it sent.\<close>

definition sections :: "label list \<Rightarrow> (nat \<times> request_world \<times> (command, handler_error) result) list" where
  "sections ls = List.map_filter (\<lambda>l. case l of Ran i w cmd \<Rightarrow> Some (i, w, cmd) | _ \<Rightarrow> None) ls"

definition replies :: "nat \<Rightarrow> label list \<Rightarrow> resp_value list" where
  "replies i ls = List.map_filter (\<lambda>l. case l of Sent j r \<Rightarrow> if j = i then Some r else None | _ \<Rightarrow> None) ls"

definition arrived :: "nat \<Rightarrow> label list \<Rightarrow> (request_world \<times> resp_value \<times> (command, handler_error) result) list" where
  "arrived i ls = List.map_filter (\<lambda>l. case l of
       Received j w v \<Rightarrow> (case from_resp2 v of Ret cmd \<Rightarrow> if j = i then Some (w, v, cmd) else None | Panic \<Rightarrow> None)
     | _ \<Rightarrow> None) ls"

lemma arrived_snoc: "arrived i (ls @ [l]) = arrived i ls @ (case l of
    Received j w v \<Rightarrow> (case from_resp2 v of Ret cmd \<Rightarrow> if j = i then [(w, v, cmd)] else [] | Panic \<Rightarrow> []) | _ \<Rightarrow> [])"
  by (auto simp: arrived_def List.map_filter_def split: label.splits outcome.splits)

lemma arrived_other: "(\<And>w v. l \<noteq> Received i w v) \<Longrightarrow> arrived i (ls @ [l]) = arrived i ls"
  by (auto simp: arrived_snoc split: label.split outcome.split)

text \<open>The specification: the commands one after the other.\<close>

fun serial :: "executor \<Rightarrow> (nat \<times> request_world \<times> (command, handler_error) result) list \<Rightarrow> store
    \<Rightarrow> (nat \<times> resp_value outcome) list \<times> store" where
  "serial x [] s = ([], s)"
| "serial x ((i, w, cmd) # cs) s =
     (case respond x (r_env w) cmd s of
        (r, s') \<Rightarrow> (case serial x cs s' of (rs, s'') \<Rightarrow> ((i, r) # rs, s'')))"

lemma serial_snoc:
  "serial x (cs @ [(i, w, cmd)]) s = (case serial x cs s of
     (rs, s1) \<Rightarrow> (case respond x (r_env w) cmd s1 of (r, s2) \<Rightarrow> (rs @ [(i, r)], s2)))"
  by (induction x cs s rule: serial.induct) (auto split: prod.splits)

lemma run_labels:
  "sections (ls @ [l]) = sections ls @ (case l of Ran i w cmd \<Rightarrow> [(i, w, cmd)] | _ \<Rightarrow> [])"
  "replies i (ls @ [l]) = replies i ls @ (case l of Sent j r \<Rightarrow> if j = i then [r] else [] | _ \<Rightarrow> [])"
  by (auto simp: sections_def replies_def List.map_filter_def split: label.splits)

text \<open>How a connection stands to the serial execution.\<close>

fun conn_at :: "executor \<Rightarrow> resp_value outcome list \<Rightarrow> resp_value outcome list \<Rightarrow> conn \<Rightarrow> bool" where
  "conn_at x sent ans Idle \<longleftrightarrow> sent = ans"
| "conn_at x sent ans (Busy w v cmd t) \<longleftrightarrow>
     t = atomic (respond x (r_env w) cmd) \<and> sent = ans \<or> (\<exists>r. t = Done r \<and> sent @ [r] = ans)"
| "conn_at x sent ans (Answering w r) \<longleftrightarrow> sent @ [Ret r] = ans"
| "conn_at x sent ans Closed \<longleftrightarrow> sent = ans \<or> (\<exists>r. sent @ [r] = ans)"

lemma conn_at_lag: "conn_at x sent ans c \<Longrightarrow> prefix sent ans \<and> length ans \<le> Suc (length sent)"
  by (cases c) auto

definition lin_at :: "executor \<Rightarrow> store \<Rightarrow> label list \<Rightarrow> system \<Rightarrow> bool" where
  "lin_at x s0 ls st \<longleftrightarrow> evictor st = ret_task () \<and> sys_store st = snd (serial x (sections ls) s0) \<and>
     (\<forall>i. conn_at x (map Ret (replies i ls)) (of_client i (fst (serial x (sections ls) s0))) (conns st i))"

lemma atomic_not_Done [simp]: "atomic m \<noteq> Done r" "Done r \<noteq> atomic m"
  by (simp_all add: atomic_def)

lemma lin_conn: "lin_at x s0 ls st \<Longrightarrow> conns st i = c \<Longrightarrow>
    conn_at x (map Ret (replies i ls)) (of_client i (fst (serial x (sections ls) s0))) c"
  by (auto simp: lin_at_def)

text \<open>A step that runs no section and sends nothing only has to keep its connection in line.\<close>

lemma lin_silent:
  assumes "lin_at x s0 ls st" "sections (ls @ [l]) = sections ls" "\<And>j. replies j (ls @ [l]) = replies j ls"
    "sys_store st' = sys_store st" "evictor st' = evictor st"
    "\<And>j. conns st' j = conns st j \<or>
      conn_at x (map Ret (replies j ls)) (of_client j (fst (serial x (sections ls) s0))) (conns st' j)"
  shows "lin_at x s0 (ls @ [l]) st'"
  unfolding lin_at_def using assms(1-5) assms(6) lin_conn [OF assms(1) refl] by (metis lin_at_def)

lemma conn_at_Closed: "conn_at x sent ans c \<Longrightarrow> conn_at x sent ans Closed"
  by (cases c) auto

lemma lin_at_outs: "lin_at x s0 ls (st\<lparr>outs := out\<rparr>) = lin_at x s0 ls st"
  by (simp add: lin_at_def)

lemma lin_close:
  assumes "lin_at x s0 ls st"
  shows "lin_at x s0 (ls @ [Ended i]) (set_conn i Closed st)"
  by (rule lin_silent [OF assms])
    (use conn_at_Closed [OF lin_conn [OF assms refl, of i]] in \<open>simp_all add: run_labels\<close>)

lemma lin_step:
  assumes "sys_step x st l st'" "lin_at x s0 ls st" "\<And>e. l \<noteq> Ticked e"
    "\<And>i w v c. l = Received i w v \<Longrightarrow> from_resp2 v = Ret (Ok c) \<Longrightarrow> single_section c"
  shows "lin_at x s0 (ls @ [l]) st'"
  using assms(1)
proof cases
  case (receive i v cmd w)
  have "respond_task x (r_env w) cmd = atomic (respond x (r_env w) cmd)"
    by (rule single_task) (use receive assms(4) in blast)
  with lin_conn [OF assms(2) receive(3)] receive(1,2) show ?thesis
    by (intro lin_silent [OF assms(2)]) (auto simp: run_labels)
next
  case (critical i w v cmd f t s')
  obtain rs s1 where ser: "serial x (sections ls) s0 = (rs, s1)" by fastforce
  have f: "Section f = atomic (respond x (r_env w) cmd)" "map Ret (replies i ls) = of_client i rs"
    using lin_conn [OF assms(2) critical(3)] ser by auto
  then have "\<exists>r. t = Done r \<and> respond x (r_env w) cmd s1 = (r, s')"
    using critical(4) assms(2) ser by (auto simp: atomic_def lin_at_def split: prod.splits)
  then obtain r where r: "t = Done r" "respond x (r_env w) cmd s1 = (r, s')" by blast
  have "conn_at x (map Ret (replies j ls)) (of_client j (rs @ [(i, r)])) (conns st' j)" for j
    using lin_conn [OF assms(2) refl, of j] ser critical(2) r(1) f(2) by (cases "j = i") simp_all
  then show ?thesis
    using assms(2) critical(1,2) ser r by (simp add: lin_at_def run_labels serial_snoc)
next
  case (send i w r out)
  have "conn_at x (map Ret (replies j (ls @ [l]))) (of_client j (fst (serial x (sections ls) s0))) (conns st' j)" for j
    using lin_conn [OF assms(2) refl, of j] send by (cases "j = i") (simp_all add: run_labels)
  then show ?thesis using assms(2) send(1,2) by (simp add: lin_at_def run_labels)
next
  case (evict f t s')
  then show ?thesis using assms(2) by (simp add: lin_at_def)
next
  case (log i w v cmd r aof)
  with lin_conn [OF assms(2) log(3)] show ?thesis by (intro lin_silent [OF assms(2)]) (auto simp: run_labels)
next
  case (fsync a r)
  then show ?thesis by (intro lin_silent [OF assms(2)]) (auto simp: run_labels)
qed (use assms(2,3) in \<open>auto intro!: lin_close simp: lin_at_outs\<close>)

lemma lin_run:
  assumes "sys_run x (sys_init s aof) ls st" "\<forall>e. Ticked e \<notin> set ls"
    "\<forall>i w v c. Received i w v \<in> set ls \<longrightarrow> from_resp2 v = Ret (Ok c) \<longrightarrow> single_section c"
  shows "lin_at x s ls st"
  using assms
proof (induction "sys_init s aof" ls st rule: sys_run.induct)
  case stay
  show ?case by (simp add: lin_at_def sys_init_def sections_def replies_def List.map_filter_def)
next
  case (move ls st' l st'')
  show ?case by (rule lin_step [OF move.hyps(3)]) (use move in auto)
qed

section \<open>Schedules\<close>

text \<open>The step a label names, as a function, for concrete interleavings.\<close>

definition fire :: "executor \<Rightarrow> label \<Rightarrow> system \<Rightarrow> system option" where
  "fire x l st =
     (case l of
        Received i w v \<Rightarrow>
          (case (conns st i, from_resp2 v) of
             (Idle, Ret cmd) \<Rightarrow> Some (set_conn i (Busy w v cmd (respond_task x (r_env w) cmd)) st)
           | _ \<Rightarrow> None)
      | Ran i w cmd \<Rightarrow>
          (case conns st i of
             Busy w' v cmd' (Section f) \<Rightarrow>
               if w' = w \<and> cmd' = cmd
               then (case f (sys_store st) of (t, s') \<Rightarrow> Some (set_conn i (Busy w v cmd t) (st\<lparr>sys_store := s'\<rparr>)))
               else None
           | _ \<Rightarrow> None)
      | Appended i \<Rightarrow>
          (case conns st i of
             Busy w v cmd (Done (Ret r)) \<Rightarrow>
               (case log_step w cmd v r (sys_aof st) of
                  Ret aof \<Rightarrow> Some (set_conn i (Answering w r) (st\<lparr>sys_aof := aof\<rparr>))
                | Panic \<Rightarrow> None)
           | _ \<Rightarrow> None)
      | Sent i r \<Rightarrow>
          (case conns st i of
             Answering w r' \<Rightarrow>
               (case send_response (r_send w) r (outs st i) of
                  (Ok _, out) \<Rightarrow> if r' = r then Some (set_conn i Idle (st\<lparr>outs := (outs st)(i := out)\<rparr>)) else None
                | _ \<Rightarrow> None)
           | _ \<Rightarrow> None)
      | Ticked e \<Rightarrow> (case evictor st of Done (Ret _) \<Rightarrow> Some (st\<lparr>evictor := evict_task e\<rparr>) | _ \<Rightarrow> None)
      | Evicted \<Rightarrow>
          (case evictor st of
             Section f \<Rightarrow> (case f (sys_store st) of (t, s') \<Rightarrow> Some (st\<lparr>evictor := t, sys_store := s'\<rparr>))
           | _ \<Rightarrow> None)
      | _ \<Rightarrow> None)"

fun schedule :: "executor \<Rightarrow> label list \<Rightarrow> system \<Rightarrow> system option" where
  "schedule x [] st = Some st"
| "schedule x (l # ls) st = (case fire x l st of Some st' \<Rightarrow> schedule x ls st' | None \<Rightarrow> None)"

lemma fire_step: "fire x l st = Some st' \<Longrightarrow> sys_step x st l st'"
  by (cases l) (auto simp: fire_def intro!: sys_step.intros
      split: conn.splits outcome.splits task.splits prod.splits result.splits if_splits)

lemma schedule_run: "schedule x ls st = Some st' \<Longrightarrow> sys_run x st ls st'"
proof (induction x ls st rule: schedule.induct)
  case (2 x l ls st)
  then obtain st1 where "fire x l st = Some st1" "schedule x ls st1 = Some st'"
    by (auto split: option.splits)
  with 2 show ?case by (auto intro: sys_run_Cons fire_step)
qed (auto intro: sys_run.stay)


lemma fire_simps:
  "conns st i = Idle \<Longrightarrow> from_resp2 v = Ret cmd \<Longrightarrow>
     fire x (Received i w v) st = Some (set_conn i (Busy w v cmd (respond_task x (r_env w) cmd)) st)"
  "conns st i = Busy w v cmd (Section f) \<Longrightarrow> f (sys_store st) = (t, s') \<Longrightarrow>
     fire x (Ran i w cmd) st = Some (set_conn i (Busy w v cmd t) (st\<lparr>sys_store := s'\<rparr>))"
  by (simp_all add: fire_def)

lemma fire_atomic:
  "conns st i = Busy w v cmd (atomic m) \<Longrightarrow> m (sys_store st) = (r, s') \<Longrightarrow>
     fire x (Ran i w cmd) st = Some (set_conn i (Busy w v cmd (Done r)) (st\<lparr>sys_store := s'\<rparr>))"
  by (simp add: fire_def atomic_def)

lemma demo_mset: "from_resp2 (request [''MSET'', k, v]) = Ret (Ok (MSet [(k, v)]))"
  by (simp add: from_resp2_request parse_command_def parse_mset_command_def try_ok_def check_min_arity_def)

lemma mset_task: "respond_task x e (Ok (MSet kvs)) = atomic (exec_mset kvs)"
  by (simp add: respond_task_def exec_task_def)

lemma exec_mset_one:
  "\<not> poisoned s \<Longrightarrow> exec_mset [(k, v)] s = (Ret ok_reply, s\<lparr>inner := inner_put k (Str v) (inner s)\<rparr>)"
  by (simp add: exec_mset_def store_mset_def op_simps)

text \<open>A client stores a key while another sends the same request.\<close>

lemma demo_schedule:
  "\<exists>st. sys_run x (sys_init store_new None)
     [Received 0 (demo_world 0) (request [''MSET'', ''k'', ''v'']), Received 1 (demo_world 0) (request [''MSET'', ''k'', ''v'']),
      Ran 1 (demo_world 0) (Ok (MSet [(''k'', ''v'')]))] st \<and>
     sys_store st = store_new\<lparr>inner := inner_put ''k'' (Str ''v'') (inner store_new)\<rparr>"
proof -
  have new: "\<not> poisoned store_new" by (simp add: store_new_def)
  show ?thesis
    by (rule exI, rule conjI, rule schedule_run)
      (simp add: fire_simps demo_mset mset_task fire_atomic exec_mset_one [OF new] sys_init_def)+
qed

section \<open>The store a server starts with\<close>

lemma started_store:
  assumes "startup fs cfg es store_new = (Ret (Ok (x, aof)), s)"
  shows "store_ok entry_text s" "store_ok entry_nonempty s" "\<not> poisoned s"
proof -
  have new: "store_ok vok store_new" "\<not> poisoned store_new" for vok
    by (simp_all add: store_ok_def values_ok_def store_new_def)
  have keep: "P s" if "P store_new" "\<And>b v r c i. decode b = Ret (Ok v, r) \<Longrightarrow> from_resp2 v = Ret (Ok c) \<Longrightarrow> preserves P (execute x (es i) c)" for P
    using startup_store [OF assms] replay_preserves [of P x es store_new 0] that by (metis snd_conv)
  show "store_ok entry_text s" by (rule keep, rule new(1), rule texts.execute_ok) (erule (1) decoded_texts)+
  show "store_ok entry_nonempty s" by (rule keep, rule new(1), rule nonempty.execute_ok) (simp_all add: list_all_iff)
  show "\<not> poisoned s" using startup_store [OF assms] replay_Ret_healthy new(2) by blast
qed

section \<open>Properties\<close>

text \<open>The handler's loop body, which the other theories study alone, is what the interleaved server
  does when nobody else moves: if \<open>handle_request\<close> answers, then the system has a run, of steps of this
  connection only, that leaves exactly the store, the append-only file and the output it computes.\<close>

theorem request_is_system_run:
  assumes "handle_request x w v (handler_view i st) = (Ret (Ok ()), h)" "conns st i = Idle"
  shows "\<exists>ls. sys_run x st ls (with_view i h st) \<and> (\<forall>l \<in> set ls. owner l = Some i)"
  using handler_alone [OF assms] .

theorem request_is_system_run_witness:
  "\<exists>ls h. sys_run \<lparr>lazyfree_lazy_user_flush = False\<rparr> (sys_init store_new None) ls
     (with_view 0 h (sys_init store_new None)) \<and> h_out h = encode (SimpleString ''PONG'')"
proof -
  let ?x = "\<lparr>lazyfree_lazy_user_flush = False\<rparr>" and ?st = "sys_init store_new None" and ?v = "request [''PING'']"
  let ?h = "\<lparr>h_store = store_new, h_aof = None, h_out = encode (SimpleString ''PONG'')\<rparr>"
  have "from_resp2 ?v = Ret (Ok (Ping None))"
    by (simp add: from_resp2_request parse_command_def parse_ping_command_def)
  then have "handle_request ?x (demo_world 0) ?v (handler_view 0 ?st) = (Ret (Ok ()), ?h)"
    by (simp add: handle_request_def handler_view_def sys_init_def demo_world_def respond_def exec_ping_def ret_op_def
        log_step_def send_response_def)
  from request_is_system_run [OF this] show ?thesis by (auto simp: sys_init_def intro!: exI [of _ ?h])
qed

text \<open>C15: no interleaving corrupts the store.  Take a server that has booted, whatever configuration and
  append-only file it found, and every state it can reach from there, whatever decoded requests arrive on
  whatever connections, however their critical sections and those of the eviction daemon are ordered, and
  whoever panics or is aborted: every key and every stored string is a text, no list is empty, and unless
  some client sent \<open>SMOVE\<close>, or an \<open>SPOP\<close> that asks for more members than a \<open>Vec<String>\<close> can have
  room for, the lock is not poisoned (where \<open>sample\<close> behaves as documented).\<close>

theorem interleaving_keeps_store:
  assumes "boot cr fs max_permits bind_to args es store_new = (Ret (Ok (srv, x, aof)), s)"
    "sys_run x (sys_init s aof) ls st" "\<forall>i w v. Received i w v \<in> set ls \<longrightarrow> (\<exists>b r. decode b = Ret (Ok v, r))"
  shows "store_ok entry_text (sys_store st) \<and> store_ok entry_nonempty (sys_store st) \<and>
    ((\<forall>i w v c. Received i w v \<in> set ls \<longrightarrow> from_resp2 v = Ret (Ok c) \<longrightarrow> lock_safe (r_env w) c) \<longrightarrow>
       \<not> poisoned (sys_store st))"
proof -
  obtain cfg where "startup fs cfg es store_new = (Ret (Ok (x, aof)), s)" using boot_Ok [OF assms(1)] by blast
  note s = started_store [OF this]
  have "list_all is_text (command_keys c) \<and> list_all is_text (command_values c)"
    if "Received i w v \<in> set ls" "from_resp2 v = Ret (Ok c)" for i w v c
    using decoded_texts [OF _ that(2)] assms(3) that(1) by blast
  from texts.sections.sys_run_keeps [OF assms(2) s(1) this] have "store_ok entry_text (sys_store st)" .
  moreover have "store_ok entry_nonempty (sys_store st)"
    by (rule nonempty.sections.sys_run_keeps [OF assms(2) s(2)]) (simp add: list_all_iff)
  moreover have "\<not> poisoned (sys_store st)"
    if "\<forall>i w v c. Received i w v \<in> set ls \<longrightarrow> from_resp2 v = Ret (Ok c) \<longrightarrow> lock_safe (r_env w) c"
  proof -
    have "healthy (sys_store st)"
      by (rule lock.sys_run_keeps [OF assms(2)]) (use that s(3) in \<open>auto simp: healthy_def\<close>)
    then show ?thesis by (simp add: healthy_def)
  qed
  ultimately show ?thesis by blast
qed

theorem interleaving_keeps_store_witness:
  "\<exists>st :: system. sys_store st = store_new\<lparr>inner := inner_put ''k'' (Str ''v'') (inner store_new)\<rparr> \<and>
     store_ok entry_text (sys_store st) \<and> \<not> poisoned (sys_store st)"
proof -
  let ?v = "request [''MSET'', ''k'', ''v'']" and ?x = "\<lparr>lazyfree_lazy_user_flush = False\<rparr>"
  obtain srv where boot: "boot demo_crate demo_fs 1000 (\<lambda>_. Ok ()) demo_cli (\<lambda>_. demo_env 0 0) store_new =
      (Ret (Ok (srv, ?x, None)), store_new)" using demo_boot by blast
  obtain st where run: "sys_run ?x (sys_init store_new None)
     [Received 0 (demo_world 0) ?v, Received 1 (demo_world 0) ?v, Ran 1 (demo_world 0) (Ok (MSet [(''k'', ''v'')]))] st"
    and st: "sys_store st = store_new\<lparr>inner := inner_put ''k'' (Str ''v'') (inner store_new)\<rparr>"
    using demo_schedule by blast
  have "wf_resp ?v" by (simp add: wf_request vec_capacity_ok_def)
  from decode_encode_rest [OF this, of "[]"] have "\<exists>b r. decode b = Ret (Ok ?v, r)" by blast
  with interleaving_keeps_store [OF boot run] have
    "store_ok entry_text (sys_store st) \<and> ((\<forall>c. from_resp2 ?v = Ret (Ok c) \<longrightarrow> lock_safe (r_env (demo_world 0)) c) \<longrightarrow>
       \<not> poisoned (sys_store st))" by auto
  then have "store_ok entry_text (sys_store st) \<and> \<not> poisoned (sys_store st)" by (simp add: demo_mset)
  with st show ?thesis by blast
qed

text \<open>C6: commands that take the lock once are linearizable.  In a run without eviction ticks where every
  request parses to such a command (or to none), the store is the one that the commands leave when they
  run one after the other in the order of their critical sections, each of which lies between the
  arrival of its request and its reply; and what each client has received so far is, up to the answer
  still on its way, what that serial execution answers it.\<close>

theorem atomic_commands_linearizable:
  assumes "sys_run x (sys_init s aof) ls st" "\<forall>e. Ticked e \<notin> set ls"
    "\<forall>i w v c. Received i w v \<in> set ls \<longrightarrow> from_resp2 v = Ret (Ok c) \<longrightarrow> single_section c"
  shows "sys_store st = snd (serial x (sections ls) s) \<and>
    (\<forall>i. prefix (map Ret (replies i ls)) (of_client i (fst (serial x (sections ls) s))) \<and>
       length (of_client i (fst (serial x (sections ls) s))) \<le> Suc (length (replies i ls)))"
  using lin_run [OF assms] conn_at_lag by (fastforce simp: lin_at_def)

theorem atomic_commands_linearizable_witness:
  "\<exists>st :: system. sys_store st = snd (serial \<lparr>lazyfree_lazy_user_flush = False\<rparr>
      [(1, demo_world 0, Ok (MSet [(''k'', ''v'')]))] store_new) \<and>
     sys_store st = store_new\<lparr>inner := inner_put ''k'' (Str ''v'') (inner store_new)\<rparr>"
proof -
  let ?ls = "[Received 0 (demo_world 0) (request [''MSET'', ''k'', ''v'']), Received 1 (demo_world 0) (request [''MSET'', ''k'', ''v'']),
      Ran 1 (demo_world 0) (Ok (MSet [(''k'', ''v'')]))]"
  obtain st where run: "sys_run \<lparr>lazyfree_lazy_user_flush = False\<rparr> (sys_init store_new None) ?ls st"
    and st: "sys_store st = store_new\<lparr>inner := inner_put ''k'' (Str ''v'') (inner store_new)\<rparr>"
    using demo_schedule by blast
  have "sections ?ls = [(1, demo_world 0, Ok (MSet [(''k'', ''v'')]))]" by (simp add: sections_def List.map_filter_def)
  moreover from atomic_commands_linearizable [OF run] have
    "sys_store st = snd (serial \<lparr>lazyfree_lazy_user_flush = False\<rparr> (sections ?ls) store_new)"
    by (fastforce simp: demo_mset)
  ultimately show ?thesis using st by metis
qed

end
