(* ===== verification/Races.thy ===== *)
theory Races
  imports Interleaving
begin

text \<open>
  Interleavings of the running server in which something is lost.  Each is a run of the system, given
  by its schedule, in which every client involved is told that its command succeeded.
\<close>

section \<open>Schedules of writes\<close>

lemma fire_append:
  assumes "conns st i = Busy w v cmd (ret_task r)" "sys_aof st = Some a" "is_logged cmd r"
    "aof_bytes (r_env w) cmd v = Ret bs"
  shows "fire x (Appended i) st =
    Some (set_conn i (Answering w r) (st\<lparr>sys_aof := Some (snd (aof_append (r_append w) bs a))\<rparr>))"
  using assms by (simp add: fire_def log_step_def)

lemma fire_send:
  "conns st i = Answering w r \<Longrightarrow> r_send w = Ok () \<Longrightarrow>
     fire x (Sent i r) st = Some (set_conn i Idle (st\<lparr>outs := (outs st)(i := outs st i @ encode r)\<rparr>))"
  by (simp add: fire_def send_response_def)

lemma mset_logged: "is_logged (Ok (MSet kvs)) ok_reply" "aof_bytes e (Ok (MSet kvs)) v = Ret (encode v)"
  by (simp_all add: is_logged_def is_write_cmd_def ok_reply_def aof_bytes_def expire_info_def)

lemma replies_Cons:
  "replies i [] = []"
  "replies i (l # ls) = (case l of Sent j r \<Rightarrow> if j = i then [r] else [] | _ \<Rightarrow> []) @ replies i ls"
  by (auto simp: replies_def List.map_filter_def split: label.splits)

text \<open>Two clients write the same key; they append in the other order.\<close>

lemma swapped_appends:
  fixes w :: request_world
  assumes "r_send w = Ok ()" "write_result (r_append w) = Written" "buffered a = []"
  shows "\<exists>ls st a'. sys_run x (sys_init store_new (Some a)) ls st \<and>
     replies 0 ls = [ok_reply] \<and> replies 1 ls = [ok_reply] \<and>
     sys_store st = store_new\<lparr>inner := inner_put k (Str v1) (inner_put k (Str v0) (inner store_new))\<rparr> \<and>
     sys_aof st = Some a' \<and>
     aof_file a' = aof_file a @ encode (request [''MSET'', k, v1]) @ encode (request [''MSET'', k, v0])"
proof -
  let ?r0 = "request [''MSET'', k, v0]" and ?r1 = "request [''MSET'', k, v1]"
  let ?c0 = "Ok (MSet [(k, v0)])" and ?c1 = "Ok (MSet [(k, v1)])"
  let ?ls = "[Received 0 w ?r0, Received 1 w ?r1, Ran 0 w ?c0, Ran 1 w ?c1, Appended 1, Appended 0,
    Sent 0 ok_reply, Sent 1 ok_reply]"
  have new: "\<not> poisoned store_new" by (simp add: store_new_def)
  note wr = append_written [OF assms(2)]
  obtain st where st: "schedule x ?ls (sys_init store_new (Some a)) = Some st"
    "sys_store st = store_new\<lparr>inner := inner_put k (Str v1) (inner_put k (Str v0) (inner store_new))\<rparr>"
    "sys_aof st = Some (snd (aof_append (r_append w) (encode ?r0) (snd (aof_append (r_append w) (encode ?r1) a))))"
    using assms(1) new
    by (simp add: fire_simps(1) fire_append fire_send demo_mset mset_task mset_logged fire_atomic exec_mset_one sys_init_def)
  have "aof_file (snd (aof_append (r_append w) (encode ?r0) (snd (aof_append (r_append w) (encode ?r1) a)))) =
      aof_file a @ encode ?r1 @ encode ?r0"
    using wr assms(3) by simp
  with st schedule_run [OF st(1)] show ?thesis by (intro exI [of _ ?ls] exI [of _ st]) (simp add: replies_Cons)
qed

text \<open>A \<open>SET\<close> without expiry: after its read it runs two more sections.\<close>

lemma bind_assoc: "bind_task (bind_task t f) g = bind_task t (\<lambda>y. bind_task (f y) g)"
proof (induction t rule: task_induct)
  case (Done r)
  then show ?case by (cases r) simp_all
next
  case (Section h)
  then show ?case by (simp add: fun_eq_iff map_prod_def split: prod.splits) (metis fst_conv)
qed

lemma fire_bind:
  "conns st i = Busy w v cmd (bind_task (atomic m) g) \<Longrightarrow> m (sys_store st) = (Ret y, s') \<Longrightarrow>
     fire x (Ran i w cmd) st = Some (set_conn i (Busy w v cmd (g y)) (st\<lparr>sys_store := s'\<rparr>))"
  by (simp add: fire_def atomic_def)

definition set_rest :: "env \<Rightarrow> string \<Rightarrow> string \<Rightarrow> resp_value task" where
  "set_rest e k v = bind_task (atomic (store_set_string k v)) (\<lambda>_.
     bind_task (atomic (set_expiry_step e k None None)) (\<lambda>early.
       case early of Some resp \<Rightarrow> ret_task resp | None \<Rightarrow> ret_task ok_reply))"

lemma set_sections:
  "respond_task x e (Ok (Set k v c None False)) =
     bind_task (atomic (store_get_string (now_at e 0) k)) (set_finish_task e k v c None False)"
  "condition_met e c prev \<Longrightarrow> set_finish_task e k v c None False (Ok prev) = set_rest e k v"
  by (simp_all add: respond_task_def exec_task_def set_task_def set_finish_task_def set_write_task_def set_rest_def
      bind_assoc Let_def)

lemma plain_set_sections:
  assumes "\<not> poisoned s"
  shows "store_set_string k v s = (Ret (), s\<lparr>inner := inner_put k (Str v) (inner s)\<rparr>)"
    "set_expiry_step e k None None s' = (Ret None, s')"
  using assms by (simp_all add: store_set_string_def store_set_def op_simps set_expiry_step_def)

lemma set_request:
  "from_resp2 (request [''SET'', k, v]) = Ret (Ok (Set k v None None False))"
  "from_resp2 (request [''SET'', k, v, ''NX'']) = Ret (Ok (Set k v (Some NX) None False))"
  using parse_set_roundtrip [of None None k v False] parse_set_roundtrip [of "Some NX" None k v False]
  by (simp_all add: from_resp2_request parse_command_def condition_args_def expiry_args_def)

lemma fire_no_log:
  "conns st i = Busy w v cmd (ret_task r) \<Longrightarrow> sys_aof st = None \<Longrightarrow>
     fire x (Appended i) st = Some (set_conn i (Answering w r) (st\<lparr>sys_aof := None\<rparr>))"
  by (simp add: fire_def log_step_def)

lemma interleaved_nx:
  fixes w :: request_world
  assumes "\<not> poisoned s" "inner_get (now_at (r_env w) 0) k (inner s) = None" "r_send w = Ok ()"
  shows "\<exists>ls st. sys_run x (sys_init s None) ls st \<and> replies 0 ls = [ok_reply] \<and> replies 1 ls = [ok_reply] \<and>
     sys_store st = s\<lparr>inner := inner_put k (Str v1) (inner_put k (Str v0) (inner s))\<rparr>"
proof -
  let ?r0 = "request [''SET'', k, v0, ''NX'']" and ?r1 = "request [''SET'', k, v1, ''NX'']"
  let ?c0 = "Ok (Set k v0 (Some NX) None False)" and ?c1 = "Ok (Set k v1 (Some NX) None False)"
  let ?ls = "[Received 0 w ?r0, Received 1 w ?r1, Ran 0 w ?c0, Ran 1 w ?c1, Ran 0 w ?c0, Ran 0 w ?c0,
    Ran 1 w ?c1, Ran 1 w ?c1, Appended 0, Appended 1, Sent 0 ok_reply, Sent 1 ok_reply]"
  have rd: "store_get_string (now_at (r_env w) 0) k s = (Ret (Ok None), s)"
    using assms(1,2) by (simp add: store_get_string_view)
  have met: "condition_met (r_env w) (Some NX) None" by (simp add: condition_met_def)
  obtain st where st: "schedule x ?ls (sys_init s None) = Some st"
    "sys_store st = s\<lparr>inner := inner_put k (Str v1) (inner_put k (Str v0) (inner s))\<rparr>"
    using assms(1,3) rd
    by (simp add: fire_simps(1) fire_bind fire_no_log fire_send set_request set_sections(1) set_sections(2) [OF met]
        set_rest_def plain_set_sections sys_init_def)
  with schedule_run [OF st(1)] show ?thesis by (intro exI [of _ ?ls] exI [of _ st]) (simp add: replies_Cons)
qed

lemma evict_sections:
  "fire x (Ticked e) st = Some (st\<lparr>evictor := evict_task e\<rparr>)" if "evictor st = ret_task ()"
  using that by (simp add: fire_def)

lemma fire_sample:
  assumes "evictor st = evict_task e" "store_sample_eviction_index e N (sys_store st) = (Ret ps, s')"
  shows "fire x Evicted st = Some (st\<lparr>evictor := atomic (store_delete_bulk (expired_sample (now_at e 0) ps)), sys_store := s'\<rparr>)"
  using assms by (simp add: fire_def evict_task_def atomic_def)

lemma fire_delete:
  assumes "evictor st = atomic (store_delete_bulk ks)" "\<not> poisoned (sys_store st)"
  shows "fire x Evicted st = Some (st\<lparr>evictor := ret_task (),
    sys_store := (sys_store st)\<lparr>inner := fold inner_remove ks (inner (sys_store st))\<rparr>\<rparr>)"
  using assms by (simp add: fire_def atomic_def store_delete_bulk_def op_simps)

lemma evicted_write:
  fixes w :: request_world
  assumes "\<not> poisoned s" "store_sample_eviction_index e N s = (Ret ps, s)"
    "inner_get (now_at (r_env w) 0) k (inner s) = None" "r_send w = Ok ()"
  shows "\<exists>ls st. sys_run x (sys_init s None) ls st \<and> replies 0 ls = [ok_reply] \<and>
     Received 0 w (request [''SET'', k, v]) \<in> set ls \<and>
     sys_store st = s\<lparr>inner := fold inner_remove (expired_sample (now_at e 0) ps) (inner_put k (Str v) (inner s))\<rparr>"
proof -
  let ?r = "request [''SET'', k, v]" and ?c = "Ok (Set k v None None False)"
  let ?ls = "[Ticked e, Evicted, Received 0 w ?r, Ran 0 w ?c, Ran 0 w ?c, Ran 0 w ?c, Appended 0, Sent 0 ok_reply, Evicted]"
  have rd: "store_get_string (now_at (r_env w) 0) k s = (Ret (Ok None), s)"
    using assms(1,3) by (simp add: store_get_string_view)
  have met: "condition_met (r_env w) None None" by (simp add: condition_met_def)
  obtain st where st: "schedule x ?ls (sys_init s None) = Some st"
    "sys_store st = s\<lparr>inner := fold inner_remove (expired_sample (now_at e 0) ps) (inner_put k (Str v) (inner s))\<rparr>"
    using assms rd
    by (simp add: evict_sections fire_sample fire_delete fire_simps(1) fire_bind fire_no_log fire_send set_request
        set_sections(1) set_sections(2) [OF met] set_rest_def plain_set_sections sys_init_def)
  with schedule_run [OF st(1)] show ?thesis by (intro exI [of _ ?ls] exI [of _ st]) (simp add: replies_Cons)
qed

text \<open>Two clients push two elements each.\<close>

lemma push_sections:
  "respond_task x e (Ok (RPush k xs)) = push_task (now_at e) store_rpush k 0 xs 0"
  by (simp add: respond_task_def exec_task_def)

lemma store_rpush_list:
  assumes "\<not> poisoned s"
  shows "store_rpush t k y (s\<lparr>inner := inner_put k (ListVal l) (inner s)\<rparr>) =
      (Ret (Ok (Suc (length l))), s\<lparr>inner := inner_put k (ListVal (l @ [y])) (inner s)\<rparr>)"
  using assms by (simp add: store_rpush_def store_push_inner_def op_simps push_back_def inner_put_def inner_get_def)

lemma store_rpush_absent:
  assumes "\<not> poisoned s" "inner_get t k (inner s) = None"
  shows "store_rpush t k y s = (Ret (Ok 1), s\<lparr>inner := inner_put k (ListVal [y]) (inner s)\<rparr>)"
  using assms by (simp add: store_rpush_def store_push_inner_def op_simps)

lemma interleaved_pushes:
  fixes w :: request_world
  assumes "\<not> poisoned s" "inner_get (now_at (r_env w) 0) k (inner s) = None" "r_send w = Ok ()"
  shows "\<exists>ls st. sys_run x (sys_init s None) ls st \<and> replies 0 ls = [len_reply 3] \<and> replies 1 ls = [len_reply 4] \<and>
     sys_store st = s\<lparr>inner := inner_put k (ListVal [a, c, b, d]) (inner s)\<rparr>"
proof -
  let ?r0 = "request [''RPUSH'', k, a, b]" and ?r1 = "request [''RPUSH'', k, c, d]"
  let ?c0 = "Ok (RPush k [a, b])" and ?c1 = "Ok (RPush k [c, d])"
  let ?ls = "[Received 0 w ?r0, Received 1 w ?r1, Ran 0 w ?c0, Ran 1 w ?c1, Ran 0 w ?c0, Ran 1 w ?c1,
    Appended 0, Appended 1, Sent 0 (len_reply 3), Sent 1 (len_reply 4)]"
  have n: "Suc (Suc (Suc 0)) = 3" "Suc (Suc (Suc (Suc 0))) = 4" by simp_all
  obtain st where st: "schedule x ?ls (sys_init s None) = Some st"
    "sys_store st = s\<lparr>inner := inner_put k (ListVal [a, c, b, d]) (inner s)\<rparr>"
    using assms store_rpush_absent [OF assms(1,2)] store_rpush_list [OF assms(1)]
    by (simp add: fire_simps(1) fire_bind fire_no_log fire_send push_request push_sections n sys_init_def)
  with schedule_run [OF st(1)] show ?thesis by (intro exI [of _ ?ls] exI [of _ st]) (simp add: replies_Cons)
qed

section \<open>Properties\<close>

lemma replay_two_msets:
  assumes "is_text k" "is_text v0" "is_text v1"
  shows "replay x es 0 (encode (request [''MSET'', k, v1]) @ encode (request [''MSET'', k, v0])) store_new =
    (Ret (Ok ()), store_new\<lparr>inner := inner_put k (Str v0) (inner_put k (Str v1) (inner store_new))\<rparr>)"
proof -
  have wf: "wf_resp (request [''MSET'', k, v])" if "is_text v" for v
    using assms(1) that by (auto simp: wf_request is_text_def vec_capacity_ok_def)
  have new: "\<not> poisoned store_new" by (simp add: store_new_def)
  show ?thesis
    using replay_entry [OF wf [OF assms(2)] demo_mset, of x es 1 "[]"] new
    by (simp add: replay_entry [OF wf [OF assms(3)] demo_mset] exec_mset_one replay_empty)
qed

text \<open>C30: the append-only file does not record the order in which writes took effect.  Between the
  critical section of a write and its append another client can run both of its own; with two clients
  that store the same key there is a run in which both are told \<open>OK\<close>, the server holds the second
  value, every append has succeeded, and replaying the file at the next start restores the first.\<close>

theorem acknowledged_writes_logged_out_of_order:
  fixes w :: request_world
  assumes "is_text k" "is_text v0" "is_text v1" "r_send w = Ok ()" "write_result (r_append w) = Written"
    "buffered a = []" "aof_file a = []"
  shows "\<exists>ls st a' s'. sys_run x (sys_init store_new (Some a)) ls st \<and>
     replies 0 ls = [ok_reply] \<and> replies 1 ls = [ok_reply] \<and>
     keyspace t (inner (sys_store st)) k = Some (Str v1, None) \<and>
     sys_aof st = Some a' \<and> replay x es 0 (aof_file a') store_new = (Ret (Ok ()), s') \<and>
     keyspace t (inner s') k = Some (Str v0, None)"
proof -
  obtain ls st a' where run: "sys_run x (sys_init store_new (Some a)) ls st"
    "replies 0 ls = [ok_reply]" "replies 1 ls = [ok_reply]"
    "sys_store st = store_new\<lparr>inner := inner_put k (Str v1) (inner_put k (Str v0) (inner store_new))\<rparr>"
    "sys_aof st = Some a'" "aof_file a' = encode (request [''MSET'', k, v1]) @ encode (request [''MSET'', k, v0])"
    using swapped_appends [OF assms(4-6), of x k v1 v0] assms(7) by auto
  from run(4) have "keyspace t (inner (sys_store st)) k = Some (Str v1, None)" by (simp add: keyspace_put)
  moreover from replay_two_msets [OF assms(1-3), of x es] run(6) have
    "replay x es 0 (aof_file a') store_new =
      (Ret (Ok ()), store_new\<lparr>inner := inner_put k (Str v0) (inner_put k (Str v1) (inner store_new))\<rparr>)" by simp
  moreover have "keyspace t (inner (store_new\<lparr>inner := inner_put k (Str v0) (inner_put k (Str v1) (inner store_new))\<rparr>)) k =
      Some (Str v0, None)" by (simp add: keyspace_put)
  ultimately show ?thesis using run(1-3,5) by blast
qed

theorem acknowledged_writes_logged_out_of_order_witness:
  "\<exists>ls (st :: system) a' s'. keyspace 0 (inner (sys_store st)) ''k'' = Some (Str ''new'', None) \<and> sys_aof st = Some a' \<and>
     replay \<lparr>lazyfree_lazy_user_flush = False\<rparr> (\<lambda>_. demo_env 1 1) 0 (aof_file a') store_new = (Ret (Ok ()), s') \<and>
     keyspace 0 (inner s') ''k'' = Some (Str ''old'', None) \<and> replies 0 ls = [ok_reply] \<and> replies 1 ls = [ok_reply]"
proof -
  have "is_text ''k''" "is_text ''old''" "is_text ''new''" by (simp_all add: is_text_def vec_capacity_ok_def)
  from acknowledged_writes_logged_out_of_order [OF this, of "demo_world 0"
      "\<lparr>aof_file = [], buffered = [], synced = 0, fsync_mode = Always\<rparr>" "\<lparr>lazyfree_lazy_user_flush = False\<rparr>" 0
      "\<lambda>_. demo_env 1 1"]
  show ?thesis by (simp add: demo_world_def) blast
qed

text \<open>C31: \<open>SET .. NX\<close> excludes nobody.  The condition is checked in one critical section and the value
  written in another: on an absent key there is a run in which two clients both set it with \<open>NX\<close>, both
  are told \<open>OK\<close>, and the second has overwritten the first.  One after the other, the second is refused.\<close>

theorem set_nx_both_succeed:
  fixes w :: request_world
  assumes "\<not> poisoned s" "inner_get (now_at (r_env w) 0) k (inner s) = None" "r_send w = Ok ()"
  shows "(\<exists>ls st. sys_run x (sys_init s None) ls st \<and> replies 0 ls = [ok_reply] \<and> replies 1 ls = [ok_reply] \<and>
       sys_store st = s\<lparr>inner := inner_put k (Str v1) (inner_put k (Str v0) (inner s))\<rparr>) \<and>
     serial x [(0, w, Ok (Set k v0 (Some NX) None False)), (1, w, Ok (Set k v1 (Some NX) None False))] s =
       ([(0, Ret ok_reply), (1, Ret (BulkString None))], s\<lparr>inner := inner_put k (Str v0) (inner s)\<rparr>)"
  using interleaved_nx [OF assms] assms(1,2)
  by (simp add: respond_def exec_set_spec set_spec_def condition_met_def set_deadline_def with_deadline_def)

theorem set_nx_both_succeed_witness:
  "\<exists>ls st. sys_run \<lparr>lazyfree_lazy_user_flush = False\<rparr> (sys_init store_new None) ls st \<and>
     replies 0 ls = [ok_reply] \<and> replies 1 ls = [ok_reply] \<and> fmlookup (data (inner (sys_store st))) ''lock'' = Some (Str ''bob'')"
  using set_nx_both_succeed [of store_new "demo_world 0" "''lock''" "\<lparr>lazyfree_lazy_user_flush = False\<rparr>" "''bob''" "''alice''"]
  by (fastforce simp: store_new_def inner_get_def demo_world_def inner_put_def)

text \<open>C32: the eviction daemon can delete a value that a client has just been told is stored.  Whenever a
  tick samples a key whose deadline has passed, there is a run in which a client sets the key again,
  without any deadline, between the sampling and the deletion: it is told \<open>OK\<close>, and afterwards the key
  is absent at every time.\<close>

theorem eviction_loses_acknowledged_write:
  fixes w :: request_world
  assumes "\<not> poisoned s" "store_sample_eviction_index e N s = (Ret ps, s)"
    "k \<in> set (expired_sample (now_at e 0) ps)" "expired (now_at (r_env w) 0) k (inner s)" "r_send w = Ok ()"
  shows "\<exists>ls st. sys_run x (sys_init s None) ls st \<and> replies 0 ls = [ok_reply] \<and>
     Received 0 w (request [''SET'', k, v]) \<in> set ls \<and> (\<forall>t. keyspace t (inner (sys_store st)) k = None)"
proof -
  have "inner_get (now_at (r_env w) 0) k (inner s) = None" using assms(4) by (simp add: inner_get_expired)
  from evicted_write [OF assms(1,2) this assms(5), of x v] obtain ls st where
    "sys_run x (sys_init s None) ls st" "replies 0 ls = [ok_reply]" "Received 0 w (request [''SET'', k, v]) \<in> set ls"
    "sys_store st = s\<lparr>inner := fold inner_remove (expired_sample (now_at e 0) ps) (inner_put k (Str v) (inner s))\<rparr>"
    by blast
  with assms(3) show ?thesis by (intro exI [of _ ls] exI [of _ st]) (simp add: keyspace_remove_many)
qed

theorem eviction_loses_acknowledged_write_witness:
  "let s = snd (store_set_ttl ''a'' 5 (snd (store_set ''a'' (Str ''x'') store_new)))
   in \<exists>ls st. sys_run \<lparr>lazyfree_lazy_user_flush = False\<rparr> (sys_init s None) ls st \<and> replies 0 ls = [ok_reply] \<and>
     keyspace 9 (inner (sys_store st)) ''a'' = None"
  using eviction_loses_acknowledged_write [of "snd (store_set_ttl ''a'' 5 (snd (store_set ''a'' (Str ''x'') store_new)))"
      "demo_env 9 0" "[(''a'', 5)]" "''a''" "demo_world 9" "\<lparr>lazyfree_lazy_user_flush = False\<rparr>" "''y''"]
  by (simp add: store_sample_eviction_index_def store_set_ttl_def store_set_def op_simps store_new_def inner_put_def
      expired_sample_def pick_def N_def vec_capacity_ok_def List.map_filter_def sorted_list_of_fset_def expired_def demo_world_def) blast

text \<open>A push of several elements is not atomic.  Two clients that append two elements each to an
  absent list can end with the elements of one between those of the other.\<close>

theorem push_batches_interleave:
  fixes w :: request_world
  assumes "\<not> poisoned s" "inner_get (now_at (r_env w) 0) k (inner s) = None" "r_send w = Ok ()"
  shows "\<exists>ls st. sys_run x (sys_init s None) ls st \<and> replies 0 ls = [len_reply 3] \<and> replies 1 ls = [len_reply 4] \<and>
     sys_store st = s\<lparr>inner := inner_put k (ListVal [a, c, b, d]) (inner s)\<rparr>"
  using interleaved_pushes [OF assms] .

theorem push_batches_interleave_witness:
  "\<exists>ls st. sys_run \<lparr>lazyfree_lazy_user_flush = False\<rparr> (sys_init store_new None) ls st \<and>
     replies 0 ls = [len_reply 3] \<and>
     fmlookup (data (inner (sys_store st))) ''q'' = Some (ListVal [''a1'', ''b1'', ''a2'', ''b2''])"
  using push_batches_interleave [of store_new "demo_world 0" "''q''" "\<lparr>lazyfree_lazy_user_flush = False\<rparr>"
      "''a1''" "''b1''" "''a2''" "''b2''"]
  by (fastforce simp: store_new_def inner_get_def demo_world_def inner_put_def)

end
