(* ===== verification/Recovery.thy ===== *)
theory Recovery
  imports Persistence Server
begin

text \<open>
  Restarting after a crash.  The append-only file may end inside an entry; the theory determines what
  \<open>decode\<close> makes of every proper prefix of a request, and from it what the replay at startup restores.
\<close>

section \<open>A torn header line\<close>

lemma split_line_no_LF: "LF \<notin> set s \<Longrightarrow> split_line s = (s, [])"
  by (induction s) auto

lemma trim_no_LF: "LF \<notin> set s \<Longrightarrow> trim_end_crlf s = s"
proof -
  assume "LF \<notin> set s"
  then have "LF \<notin> set (rev s)" by simp
  then have "strip_lfcr (rev s) = rev s" by (cases "rev s" rule: strip_lfcr.cases) auto
  then show ?thesis by (simp add: trim_end_crlf_def)
qed

lemma decode_torn_header:
  assumes "LF \<notin> set s" "utf8_valid s" "b = CHR ''$'' \<or> b = CHR ''*''"
  shows "decode (b # s) = (if b = CHR ''$'' then parse_bulk_string s [] else parse_array s [])"
proof -
  have "(of_char b :: nat) < 128" "b \<noteq> LF" using assms(3) by auto
  with assms have "read_line (b # s) = (Some (b # s), [])" "parse_header (b # s) = Ret (Ok (b, s))"
    by (auto simp: read_line_def split_line_no_LF parse_header_def ascii_head_boundary trim_no_LF)
  with assms(3) show ?thesis by (auto simp: decode.simps)
qed

text \<open>A number that lost its last digits is a smaller number, and not zero.\<close>

lemma parse_digits_mono: "parse_digits r acc xs = Some p \<Longrightarrow> 0 < r \<Longrightarrow> acc \<le> p"
proof (induction r acc xs rule: parse_digits.induct)
  case (2 r acc c cs)
  then obtain d where "digit_val r c = Some d" "parse_digits r (acc * r + d) cs = Some p"
    by (auto split: option.splits)
  with 2 have "acc * r + d \<le> p" by blast
  moreover have "acc \<le> acc * r" using \<open>0 < r\<close> by simp
  ultimately show ?case by linarith
qed simp

lemma parse_digits_prefix:
  "parse_digits r acc (xs @ ys) = Some v \<Longrightarrow> 0 < r \<Longrightarrow> \<exists>p. parse_digits r acc xs = Some p \<and> p \<le> v"
  by (auto simp: parse_digits_append parse_digits_mono split: option.splits)

lemma show_radix_hd: "0 < n \<Longrightarrow> \<exists>d cs. show_radix 10 n = digit_char d # cs \<and> 0 < d \<and> d < 10"
proof (induction "10 :: nat" n rule: show_radix.induct)
  case (1 n)
  show ?case
  proof (cases "n < 10")
    case False
    then have "0 < n div 10" by (simp add: div_greater_zero_iff)
    with 1(1) False obtain d cs where "show_radix 10 (n div 10) = digit_char d # cs" "0 < d" "d < 10" by auto
    with False show ?thesis by (auto simp: show_radix.simps [of 10 n])
  qed (use 1(2) in \<open>auto simp: show_radix.simps [of 10 n]\<close>)
qed

lemma parse_length_prefix:
  assumes "0 < m" "m \<le> length (show_nat n)" "int n \<le> i64_max"
  shows "\<exists>p. parse_length (take m (show_nat n)) = Ok (int p) \<and> p \<le> n \<and> (0 < n \<longrightarrow> 0 < p)"
proof -
  let ?s = "take m (show_nat n)"
  have "parse_digits 10 0 (?s @ drop m (show_nat n)) = Some n"
    using parse_show_radix [of 10 n] by (simp add: show_nat_def)
  from parse_digits_prefix [OF this] obtain p where p: "parse_digits 10 0 ?s = Some p" "p \<le> n" by auto
  obtain c cs where s: "?s = c # cs" using assms(1,2) by (cases ?s) auto
  have "c \<in> set (show_radix 10 n)" using s by (metis in_set_takeD list.set_intros(1) show_nat_def)
  then have "48 \<le> (of_char c :: nat)" using show_radix_ascii(1) [of 10 c n] by simp
  then have c: "c \<noteq> CHR ''-''" "c \<noteq> CHR ''+''" by auto
  have "0 < p" if n: "0 < n"
  proof -
    obtain d ds where d: "show_radix 10 n = digit_char d # ds" "0 < d" "d < 10" using show_radix_hd [OF n] by blast
    have "c = hd (show_nat n)" using s hd_take [OF assms(1), of "show_nat n"] by simp
    with d have "digit_val 10 c = Some d" "0 < d" by (simp_all add: show_nat_def)
    with p(1) s have "parse_digits 10 d cs = Some p" by simp
    from parse_digits_mono [OF this] \<open>0 < d\<close> show ?thesis by simp
  qed
  moreover have "parse_i64 ?s = Some (int p)"
    using p s c assms(3) by (simp add: parse_i64_def parse_unsigned_def strip_plus_def)
  ultimately show ?thesis using p(2) by (auto simp: parse_length_def)
qed

lemma parse_length_nil: "parse_length [] = Err (InvalidInteger [])"
  by (simp add: parse_length_def parse_i64_def)

lemma parse_bulk_short:
  "vec_capacity_ok 1 (n + 2) \<Longrightarrow> int n \<le> i64_max \<Longrightarrow> length r < n + 2 \<Longrightarrow>
     parse_bulk_string (show_nat n) r = Ret (Err UnexpectedEof, [])"
  by (simp add: parse_bulk_string_def parse_length_show read_exact_def)

lemma parse_length_CR: "parse_length (show_nat n @ [CR]) = Err (InvalidInteger (show_nat n @ [CR]))"
proof -
  obtain c cs where s: "show_nat n = c # cs" by (metis neq_Nil_conv show_nat_def show_radix_ne)
  have "c \<in> set (show_radix 10 n)" using s by (metis list.set_intros(1) show_nat_def)
  then have "48 \<le> (of_char c :: nat)" using show_radix_ascii(1) [of 10 c n] by simp
  then have c: "c \<noteq> CHR ''-''" "c \<noteq> CHR ''+''" by auto
  have "parse_digits 10 0 (show_nat n @ [CR]) = None"
    using parse_show_radix [of 10 n] by (simp add: parse_digits_append show_nat_def digit_val_def)
  with s c show ?thesis by (simp add: parse_length_def parse_i64_def parse_unsigned_def strip_plus_def)
qed

section \<open>A torn request\<close>

text \<open>The cuts inside a header line that leave something else than a shorter number: after the type
  byte, and between the carriage return and the line feed.\<close>

definition header_cut :: "nat \<Rightarrow> nat \<Rightarrow> bool" where
  "header_cut len n \<longleftrightarrow> n = 1 \<or> n = length (show_nat len) + 2"

fun items_cut :: "string list \<Rightarrow> nat \<Rightarrow> bool" where
  "items_cut [] n = False"
| "items_cut (s # ss) n =
     (if n < length (encode (BulkString (Some s))) then header_cut (length s) n
      else items_cut ss (n - length (encode (BulkString (Some s)))))"

definition bad_cut :: "string list \<Rightarrow> nat \<Rightarrow> bool" where
  "bad_cut ss n =
     (if n < length (show_nat (length ss)) + 3 then header_cut (length ss) n
      else items_cut ss (n - (length (show_nat (length ss)) + 3)))"

text \<open>What a decoder returns on a torn input: an error, of which kind depends on the cut.\<close>

definition torn :: "bool \<Rightarrow> (('a, resp_error) result \<times> string) outcome \<Rightarrow> bool" where
  "torn bad m \<longleftrightarrow> (\<exists>e r. m = Ret (Err e, r) \<and> (if bad then \<exists>t. e = InvalidInteger t else e = UnexpectedEof))"

lemma take_header:
  "0 < n \<Longrightarrow> n \<le> length d + 2 \<Longrightarrow> take n (b # d @ CR # LF # r) = b # take (n - 1) (d @ [CR])"
  "length d + 3 \<le> n \<Longrightarrow> take n (b # d @ CR # LF # r) = b # d @ CR # LF # take (n - (length d + 3)) r"
  by (cases n; simp add: take_Cons' Suc_diff_le)+

lemma header_prefix_safe: "LF \<notin> set (take m (show_nat n @ [CR]))" "utf8_valid (take m (show_nat n @ [CR]))"
proof -
  have asc: "LF \<noteq> c \<and> (of_char c :: nat) < 128" if "c \<in> set (show_nat n @ [CR])" for c
    using that show_radix_ascii [of 10 c n] by (auto simp: show_nat_def)
  show "LF \<notin> set (take m (show_nat n @ [CR]))"
  proof
    assume "LF \<in> set (take m (show_nat n @ [CR]))"
    from asc [OF in_set_takeD [OF this]] show False by simp
  qed
  show "utf8_valid (take m (show_nat n @ [CR]))"
  proof (rule utf8_valid_ascii)
    fix c assume "c \<in> set (take m (show_nat n @ [CR]))"
    from asc [OF in_set_takeD [OF this]] show "(of_char c :: nat) < 128" by simp
  qed
qed

text \<open>The header of an array or of a bulk string, cut before its line feed.\<close>

lemma torn_header:
  assumes "0 < n" "n \<le> length (show_nat len) + 2" "b = CHR ''$'' \<or> b = CHR ''*''" "int len \<le> i64_max"
    "b = CHR ''$'' \<Longrightarrow> vec_capacity_ok 1 (len + 2)" "b = CHR ''*'' \<Longrightarrow> 0 < len"
  shows "torn (header_cut len n) (decode (b # take (n - 1) (show_nat len @ [CR])))"
proof -
  let ?s = "take (n - 1) (show_nat len @ [CR])"
  have dec: "decode (b # ?s) = (if b = CHR ''$'' then parse_bulk_string ?s [] else parse_array ?s [])"
    by (rule decode_torn_header [OF header_prefix_safe assms(3)])
  show ?thesis
  proof (cases "header_cut len n")
    case True
    then have "?s = [] \<or> ?s = show_nat len @ [CR]" by (auto simp: header_cut_def)
    then have "\<exists>t. parse_length ?s = Err (InvalidInteger t)"
      using parse_length_CR [of len] parse_length_nil by metis
    with True assms(3) dec show ?thesis by (auto simp: torn_def parse_bulk_string_def parse_array.simps)
  next
    case False
    then have n: "0 < n - 1" "n - 1 \<le> length (show_nat len)" using assms(1,2) by (auto simp: header_cut_def)
    with parse_length_prefix [OF n assms(4)] obtain p where
      p: "parse_length ?s = Ok (int p)" "p \<le> len" "0 < len \<longrightarrow> 0 < p" by auto
    have "vec_capacity_ok 1 (p + 2)" if "b = CHR ''$''"
      using assms(5) [OF that] p(2) by (simp add: vec_capacity_ok_def)
    with False assms(3,6) dec p show ?thesis
      by (auto simp: torn_def parse_bulk_string_def parse_array.simps parse_items.simps read_exact_def decode_empty
          vec_capacity_ok_def)
  qed
qed

lemma torn_bulk:
  assumes "vec_capacity_ok 1 (length s + 2)" "n < length (encode (BulkString (Some s)))"
  shows "torn (header_cut (length s) n) (decode (take n (encode (BulkString (Some s)))))"
proof -
  let ?d = "show_nat (length s)"
  have enc: "encode (BulkString (Some s)) = CHR ''$'' # ?d @ CR # LF # s @ crlf" by (simp add: encode_bulk_string_def)
  have len: "int (length s) \<le> i64_max" using assms(1) by (simp add: vec_capacity_ok_def)
  consider "n = 0" | "0 < n" "n \<le> length ?d + 2" | "length ?d + 3 \<le> n" by linarith
  then show ?thesis
  proof cases
    case 1
    then show ?thesis by (simp add: torn_def header_cut_def decode_empty)
  next
    case 2
    have "torn (header_cut (length s) n) (decode (CHR ''$'' # take (n - 1) (?d @ [CR])))"
      by (rule torn_header [OF 2 _ len]) (use assms(1) in auto)
    with take_header(1) [OF 2] show ?thesis unfolding enc by metis
  next
    case 3
    let ?r = "take (n - (length ?d + 3)) (s @ crlf)"
    have "length ?r < length s + 2" using assms(2) 3 unfolding enc by simp
    then have "parse_bulk_string ?d ?r = Ret (Err UnexpectedEof, [])"
      by (intro parse_bulk_short assms(1) len)
    with 3 decode_header [of ?d "CHR ''$''" ?r] take_header(2) [OF 3] show ?thesis
      unfolding enc by (simp add: torn_def header_cut_def show_line_safe)
  qed
qed

lemma torn_items:
  assumes "\<forall>s \<in> set ss. wf_resp (BulkString (Some s))" "n < length (concat (map encode (bulks ss)))"
  shows "torn (items_cut ss n) (parse_items (length ss) (take n (concat (map encode (bulks ss)))))"
  using assms
proof (induction ss arbitrary: n)
  case (Cons s ss)
  let ?e = "encode (BulkString (Some s))" and ?rest = "concat (map encode (bulks ss))"
  have str: "concat (map encode (bulks (s # ss))) = ?e @ ?rest" by (simp add: bulks_def)
  have s: "wf_resp (BulkString (Some s))" using Cons.prems(1) by simp
  show ?case
  proof (cases "n < length ?e")
    case True
    have "torn (header_cut (length s) n) (decode (take n ?e))" by (rule torn_bulk) (use s True in auto)
    with True show ?thesis unfolding str by (auto simp: torn_def parse_items.simps [of "Suc (length ss)"] simp del: encode.simps)
  next
    case False
    let ?r = "take (n - length ?e) ?rest"
    have "torn (items_cut ss (n - length ?e)) (parse_items (length ss) ?r)"
      using Cons False unfolding str by (intro Cons.IH) auto
    moreover have "decode (?e @ ?r) = Ret (Ok (BulkString (Some s)), ?r)" by (rule decode_encode_rest [OF s])
    ultimately show ?thesis
      using False unfolding str by (auto simp: torn_def parse_items.simps [of "Suc (length ss)"] simp del: encode.simps)
  qed
qed (simp add: bulks_def)

lemma torn_request:
  assumes "ss \<noteq> []" "wf_resp (request ss)" "n < length (encode (request ss))"
  shows "torn (bad_cut ss n) (decode (take n (encode (request ss))))"
proof -
  let ?d = "show_nat (length ss)" and ?body = "concat (map encode (bulks ss))"
  have enc: "encode (request ss) = CHR ''*'' # ?d @ CR # LF # ?body"
    using assms(1) by (auto simp: request_def bulks_def)
  have len: "int (length ss) \<le> i64_max" using assms(2) by (simp add: wf_request)
  consider "n = 0" | "0 < n" "n \<le> length ?d + 2" | "length ?d + 3 \<le> n" by linarith
  then show ?thesis
  proof cases
    case 1
    then show ?thesis by (simp add: torn_def bad_cut_def header_cut_def decode_empty)
  next
    case 2
    have "torn (header_cut (length ss) n) (decode (CHR ''*'' # take (n - 1) (?d @ [CR])))"
      by (rule torn_header [OF 2 _ len]) (use assms(1) in auto)
    moreover have "bad_cut ss n = header_cut (length ss) n" using 2 by (simp add: bad_cut_def)
    ultimately show ?thesis unfolding enc by (simp only: take_header(1) [OF 2])
  next
    case 3
    let ?m = "n - (length ?d + 3)"
    have "torn (items_cut ss ?m) (parse_items (length ss) (take ?m ?body))"
      by (rule torn_items) (use assms(2,3) 3 enc in \<open>auto simp: wf_request\<close>)
    with 3 assms(1) len decode_header [of ?d "CHR ''*''" "take ?m ?body"] take_header(2) [OF 3] show ?thesis
      unfolding enc by (auto simp: torn_def bad_cut_def show_line_safe parse_array.simps parse_length_show)
  qed
qed

lemma replay_torn:
  assumes "torn bad (decode rest)"
  shows "\<exists>r. replay x es i rest s = (Ret r, s) \<and>
    (if bad then \<exists>t. r = Err (io_error_of_resp (InvalidInteger t)) else r = Ok ())"
  using assms by (cases bad) (auto simp: torn_def replay.simps [of x es i rest])

section \<open>Sessions and their logs\<close>

lemma run_handler_append:
  assumes "\<forall>v \<in> set vs. wf_resp v"
  shows "run_handler x ws i (concat (map encode vs) @ rest) st =
    (case run_handler x ws i (concat (map encode vs)) st of
       (Ret (Ok _), st1) \<Rightarrow> run_handler x ws (i + length vs) rest st1 | other \<Rightarrow> other)"
  using assms
proof (induction vs arbitrary: i st)
  case Nil
  then show ?case by (simp add: run_handler_empty)
next
  case (Cons v vs)
  then show ?case
    by (auto simp: run_handler_request split: prod.splits outcome.splits result.splits)
qed

section \<open>Crashes\<close>

text \<open>The handler's state after the first \<open>m\<close> requests of a session, and the file then.\<close>

definition after :: "executor \<Rightarrow> (nat \<Rightarrow> request_world) \<Rightarrow> handler_state \<Rightarrow> resp_value list \<Rightarrow> nat \<Rightarrow> handler_state" where
  "after x ws st vs m = snd (run_handler x ws 0 (concat (map encode (take m vs))) st)"

definition log_of :: "handler_state \<Rightarrow> string" where
  "log_of h = (case h_aof h of Some a \<Rightarrow> aof_file a | None \<Rightarrow> [])"

definition bad_cut_of :: "resp_value \<Rightarrow> nat \<Rightarrow> bool" where
  "bad_cut_of v n \<longleftrightarrow> (\<exists>ss. v = request ss \<and> bad_cut ss n)"

lemma bad_cut_of_request [simp]: "bad_cut_of (request ss) n = bad_cut ss n"
  by (auto simp: bad_cut_of_def request_def bulks_def inj_map_eq_map inj_on_def)

text \<open>A session on a fresh store and an empty file, of requests that replay.\<close>

definition good_session ::
    "executor \<Rightarrow> (nat \<Rightarrow> request_world) \<Rightarrow> (nat \<Rightarrow> env) \<Rightarrow> handler_state \<Rightarrow> resp_value list \<Rightarrow> bool" where
  "good_session x ws es st vs \<longleftrightarrow>
     fst (run_handler x ws 0 (concat (map encode vs)) st) = Ret (Ok ()) \<and> (\<forall>v \<in> set vs. replay_safe v) \<and>
     h_store st = store_new \<and> (\<exists>a. h_aof st = Some a \<and> buffered a = [] \<and> aof_file a = []) \<and>
     (\<forall>i. write_result (r_append (ws i)) = Written) \<and> (\<forall>i j. xxh3 (r_env (ws i)) = xxh3 (es j)) \<and>
     (\<forall>n \<le> length vs. within_limits (h_store (after x ws st vs n)))"

lemma new_calm: "calm store_new" "\<not> poisoned store_new"
  by (simp_all add: calm_def store_new_def)

lemma after_run:
  assumes "good_session x ws es st vs" "m \<le> length vs"
  shows "run_handler x ws 0 (concat (map encode (take m vs))) st = (Ret (Ok ()), after x ws st vs m)"
    "run_handler x ws m (concat (map encode (drop m vs))) (after x ws st vs m) = (Ret (Ok ()), after x ws st vs (length vs))"
proof -
  have wf: "\<forall>v \<in> set (take m vs). wf_resp v"
    using assms(1) by (auto simp: good_session_def replay_safe_def dest: in_set_takeD)
  have "run_handler x ws 0 (concat (map encode (take m vs)) @ concat (map encode (drop m vs))) st =
      (Ret (Ok ()), after x ws st vs (length vs))"
    using assms(1) by (simp add: good_session_def after_def prod_eq_iff flip: concat_append map_append)
  then show "run_handler x ws 0 (concat (map encode (take m vs))) st = (Ret (Ok ()), after x ws st vs m)"
    "run_handler x ws m (concat (map encode (drop m vs))) (after x ws st vs m) = (Ret (Ok ()), after x ws st vs (length vs))"
    using assms(2) by (auto simp: run_handler_append [OF wf] after_def split: prod.splits outcome.splits result.splits)
qed

lemma after_log:
  assumes "good_session x ws es st vs" "m \<le> length vs"
  shows "\<exists>a. h_aof (after x ws st vs m) = Some a \<and> buffered a = [] \<and> aof_file a = log_of (after x ws st vs m) \<and>
    calm (h_store (after x ws st vs m)) \<and> \<not> poisoned (h_store (after x ws st vs m)) \<and>
    (\<forall>rest. \<exists>j. replay x es 0 (log_of (after x ws st vs m) @ rest) store_new = replay x es j rest (h_store (after x ws st vs m)))"
proof -
  obtain a where a: "h_aof st = Some a" "buffered a = []" "aof_file a = []" using assms(1) by (auto simp: good_session_def)
  have "\<exists>a' log. h_aof (after x ws st vs m) = Some a' \<and> buffered a' = [] \<and> calm (h_store (after x ws st vs m)) \<and>
      \<not> poisoned (h_store (after x ws st vs m)) \<and> aof_file a' = aof_file a @ log \<and>
      (\<forall>rest. \<exists>j'. replay x es 0 (log @ rest) (h_store st) = replay x es j' rest (h_store (after x ws st vs m)))"
    using assms by (intro session_log [OF after_run(1) [OF assms] _ _ _ a(1,2)])
      (auto simp: good_session_def new_calm after_def min_def dest: in_set_takeD)
  with a(3) assms(1) show ?thesis by (auto simp: log_of_def good_session_def)
qed

lemma after_step:
  assumes "good_session x ws es st vs" "m < length vs"
  shows "log_of (after x ws st vs (Suc m)) = log_of (after x ws st vs m) \<or>
    log_of (after x ws st vs (Suc m)) = log_of (after x ws st vs m) @ encode (vs ! m) \<and> (\<exists>ss. vs ! m = request ss \<and> ss \<noteq> [])"
proof -
  let ?v = "vs ! m" and ?s = "after x ws st vs m"
  have m: "m \<le> length vs" "Suc m \<le> length vs" using assms(2) by auto
  have v: "replay_safe ?v" "wf_resp ?v" using assms by (auto simp: good_session_def replay_safe_def)
  have drop: "drop m vs = ?v # drop (Suc m) vs" using assms(2) by (simp add: Cons_nth_drop_Suc)
  obtain st1 where h: "handle_request x (ws m) ?v ?s = (Ret (Ok ()), st1)"
    using after_run(2) [OF assms(1) m(1)] v(2) unfolding drop
    by (auto simp: run_handler_request split: prod.splits outcome.splits result.splits)
  have "run_handler x ws 0 (concat (map encode (take m vs)) @ encode ?v) st = (Ret (Ok ()), st1)"
    using after_run(1) [OF assms(1) m(1)] run_handler_request [OF v(2), of x ws m "[]" ?s] h assms m
    by (subst run_handler_append) (auto simp: good_session_def replay_safe_def run_handler_empty min_def dest: in_set_takeD)
  then have st1: "st1 = after x ws st vs (Suc m)"
    using assms(2) by (simp add: after_def take_Suc_conv_app_nth)
  obtain a where a: "h_aof ?s = Some a" "buffered a = []" "aof_file a = log_of ?s" "calm (h_store ?s)" "\<not> poisoned (h_store ?s)"
    using after_log [OF assms(1) m(1)] by blast
  have "within_limits (h_store ?s)" "within_limits (h_store st1)" "write_result (r_append (ws m)) = Written"
    using assms(1) m st1 by (auto simp: good_session_def)
  from handle_request_logged [OF h v(1) a(4,5,1,2) this(3,1,2)] obtain a' where
    "h_aof st1 = Some a'" "aof_file a' = aof_file a \<or> aof_file a' = aof_file a @ encode ?v \<and> (\<exists>c. from_resp2 ?v = Ret (Ok c))"
    by blast
  with a(3) st1 parsed_request show ?thesis by (auto simp: log_of_def)
qed

lemma after_grows:
  assumes "good_session x ws es st vs" "m \<le> k" "k \<le> length vs"
  shows "\<exists>more. log_of (after x ws st vs k) = log_of (after x ws st vs m) @ more"
  using assms(2,3)
proof (induction k rule: dec_induct)
  case (step k)
  then obtain more where "log_of (after x ws st vs k) = log_of (after x ws st vs m) @ more" by auto
  with after_step [OF assms(1), of k] step.prems show ?case by auto
qed simp

lemma cut_log:
  assumes "good_session x ws es st vs" "m \<le> length vs" "length (log_of (after x ws st vs m)) \<le> n"
    "m < length vs \<Longrightarrow> n < length (log_of (after x ws st vs (Suc m)))"
  shows "\<exists>r. replay x es 0 (take n (log_of (after x ws st vs (length vs)))) store_new = (Ret r, h_store (after x ws st vs m)) \<and>
    (if m < length vs \<and> bad_cut_of (vs ! m) (n - length (log_of (after x ws st vs m)))
     then \<exists>t. r = Err (io_error_of_resp (InvalidInteger t)) else r = Ok ())"
proof -
  let ?l = "log_of (after x ws st vs m)" and ?full = "log_of (after x ws st vs (length vs))"
  obtain a where rep: "\<forall>rest. \<exists>j. replay x es 0 (?l @ rest) store_new = replay x es j rest (h_store (after x ws st vs m))"
    using after_log [OF assms(1,2)] by blast
  show ?thesis
  proof (cases "m < length vs")
    case False
    with assms(2,3) have "take n ?full = ?l @ []" by simp
    with rep [rule_format, of "[]"] False show ?thesis by (auto simp: replay_empty)
  next
    case True
    let ?k = "n - length ?l"
    obtain ss where ss: "log_of (after x ws st vs (Suc m)) = ?l @ encode (vs ! m)" "vs ! m = request ss" "ss \<noteq> []"
      using after_step [OF assms(1) True] assms(3,4) True by fastforce
    obtain more where "?full = (?l @ encode (vs ! m)) @ more"
      using after_grows [OF assms(1), of "Suc m" "length vs"] True ss(1) by auto
    moreover have k: "?k < length (encode (vs ! m))" using assms(3,4) True ss(1) by auto
    ultimately have cut: "take n ?full = ?l @ take ?k (encode (vs ! m))" using assms(3) by simp
    have "wf_resp (request ss)" using assms(1) True ss(2) by (metis good_session_def nth_mem replay_safe_def)
    from torn_request [OF ss(3) this] k ss(2) have t: "torn (bad_cut ss ?k) (decode (take ?k (encode (vs ! m))))" by simp
    have "bad_cut_of (vs ! m) ?k = bad_cut ss ?k"
      using ss(2) by simp
    moreover obtain j where "replay x es 0 (take n ?full) store_new =
        replay x es j (take ?k (encode (vs ! m))) (h_store (after x ws st vs m))"
      using rep cut by metis
    ultimately show ?thesis using replay_torn [OF t, of x es j] True by simp
  qed
qed

section \<open>A concrete crash\<close>

lemma demo_set_handle:
  "handle_request x (demo_world t) (request [''SET'', ''k'', ''v'']) (demo_handler store_new) =
     (Ret (Ok ()), \<lparr>h_store = store_new\<lparr>inner := inner_put ''k'' (Str ''v'') (inner store_new)\<rparr>,
        h_aof = Some \<lparr>aof_file = encode (request [''SET'', ''k'', ''v'']), buffered = [],
          synced = length (encode (request [''SET'', ''k'', ''v''])), fsync_mode = Always\<rparr>,
        h_out = encode ok_reply\<rparr>)"
proof -
  from demo_exec_set show ?thesis
    by (simp add: handle_request_def demo_set_request demo_world_def demo_handler_def respond_def log_step_def
        is_logged_def is_write_cmd_def aof_bytes_def expire_info_def ok_reply_def send_response_def aof_append_def
        sync_data_def Let_def)
qed

lemma demo_session:
  "after x (\<lambda>_. demo_world t) (demo_handler store_new) [request [''SET'', ''k'', ''v'']] 0 = demo_handler store_new"
  "log_of (after x (\<lambda>_. demo_world t) (demo_handler store_new) [request [''SET'', ''k'', ''v'']] 1) =
     encode (request [''SET'', ''k'', ''v''])"
  "good_session x (\<lambda>_. demo_world t) (\<lambda>_. demo_env u u) (demo_handler store_new) [request [''SET'', ''k'', ''v'']]"
proof -
  let ?v = "request [''SET'', ''k'', ''v'']" and ?ws = "\<lambda>_ :: nat. demo_world t" and ?h = "demo_handler store_new"
  have wf: "wf_resp ?v" by (simp add: wf_request vec_capacity_ok_def)
  have run: "run_handler x ?ws 0 (encode ?v) ?h = handle_request x (demo_world t) ?v ?h"
    using run_handler_request [OF wf, of x ?ws 0 "[]" ?h] by (simp add: demo_set_handle run_handler_empty)
  show zero: "after x ?ws ?h [?v] 0 = ?h" by (simp add: after_def run_handler_empty)
  show "log_of (after x ?ws ?h [?v] 1) = encode ?v" by (simp add: after_def run demo_set_handle log_of_def)
  have "within_limits (h_store (after x ?ws ?h [?v] n))" if le: "n \<le> 1" for n
  proof -
    consider "n = 0" | "n = 1" using le by fastforce
    then show ?thesis
      by cases (simp_all add: run_handler_empty demo_handler_store demo_limits after_def run demo_set_handle)
  qed
  moreover have "fst (run_handler x ?ws 0 (encode ?v) ?h) = Ret (Ok ())" by (simp add: run demo_set_handle)
  moreover have "\<exists>a. h_aof ?h = Some a \<and> buffered a = [] \<and> aof_file a = []" by (simp add: demo_handler_def)
  moreover have "write_result (r_append (demo_world t)) = Written" "xxh3 (r_env (demo_world t)) = xxh3 (demo_env u u)"
    by (simp_all add: demo_world_def)
  ultimately show "good_session x ?ws (\<lambda>_. demo_env u u) ?h [?v]"
    using wf by (simp add: good_session_def replay_safe_def demo_set_request demo_handler_store)
qed

section \<open>Properties\<close>

text \<open>A torn request.  Of every proper prefix of an encoded request the decoder makes an error: the end
  of input, which the replay takes for the end of the file, unless the cut falls right after the type byte
  of a header line or between its carriage return and line feed; then it is an invalid integer.\<close>

theorem decode_torn_request:
  assumes "ss \<noteq> []" "wf_resp (request ss)" "n < length (encode (request ss))"
  shows "\<exists>e r. decode (take n (encode (request ss))) = Ret (Err e, r) \<and>
    (if bad_cut ss n then \<exists>t. e = InvalidInteger t else e = UnexpectedEof)"
  using torn_request [OF assms] by (simp add: torn_def)

theorem decode_torn_request_witness:
  "\<exists>t r. decode (take 1 (encode (request [''PING'']))) = Ret (Err (InvalidInteger t), r)"
  using decode_torn_request [of "[''PING'']" 1]
  by (auto simp: wf_request vec_capacity_ok_def bad_cut_def header_cut_def request_def bulks_def)



end
