(* ===== verification/Torn_Tail.thy ===== *)
theory Torn_Tail
  imports Recovery "HOL-Library.Sublist"
begin

text \<open>
  The second restart after a crash.  \<open>sync_store_with_aof\<close> stops at a torn entry without removing it, and
  \<open>AofWriter::new\<close> opens the file for appending, so the entries of the next session follow the torn bytes.
  This theory says what the replay after that session makes of them.
\<close>

section \<open>Torn tails\<close>

text \<open>An entry cut between two of its elements: the header line and the first \<open>j\<close> arguments; and an entry
  cut inside the number of its header line.\<close>

definition torn_entry :: "string list \<Rightarrow> nat \<Rightarrow> string" where
  "torn_entry ss j = CHR ''*'' # show_nat (length ss) @ crlf @ concat (map encode (bulks (take j ss)))"

definition torn_count :: "string list \<Rightarrow> nat \<Rightarrow> string" where
  "torn_count ss m = CHR ''*'' # take m (show_nat (length ss))"

lemma torn_entry_prefix: "ss \<noteq> [] \<Longrightarrow> prefix (torn_entry ss j) (encode (request ss))"
proof -
  assume "ss \<noteq> []"
  then have "encode (request ss) = CHR ''*'' # show_nat (length ss) @ crlf @ concat (map encode (bulks ss))"
    by (auto simp: request_def bulks_def)
  moreover have "bulks ss = bulks (take j ss) @ bulks (drop j ss)" by (simp add: bulks_def flip: map_append)
  ultimately show ?thesis by (simp add: torn_entry_def)
qed

lemma torn_count_prefix: "ss \<noteq> [] \<Longrightarrow> prefix (torn_count ss m) (encode (request ss))"
  using take_is_prefix [of m "show_nat (length ss)"]
  by (auto simp: torn_count_def request_def bulks_def intro: prefix_prefix)

lemma parse_items_short:
  assumes "\<forall>v \<in> set vs. wf_resp v" "length vs < k"
  shows "\<exists>r. parse_items k (concat (map encode vs)) = Ret (Err UnexpectedEof, r)"
  using assms
proof (induction vs arbitrary: k)
  case Nil
  then show ?case by (simp add: parse_items.simps [of k] decode_empty)
next
  case (Cons v vs)
  then obtain r where "parse_items (k - 1) (concat (map encode vs)) = Ret (Err UnexpectedEof, r)" by fastforce
  with Cons.prems show ?case by (simp add: parse_items.simps [of k] decode_encode_rest)
qed

lemma decode_array_header:
  assumes "0 < n" "int n \<le> i64_max"
  shows "decode (CHR ''*'' # show_nat n @ crlf @ r) =
    (case parse_items n r of
       Panic \<Rightarrow> Panic | Ret (Err e, r') \<Rightarrow> Ret (Err e, r') | Ret (Ok vs, r') \<Rightarrow> Ret (Ok (Array (Some vs)), r'))"
  using assms decode_header [of "show_nat n" "CHR ''*''" r]
  by (simp add: show_line_safe parse_array.simps parse_length_show)

section \<open>What the replay makes of entries after a torn one\<close>

text \<open>The torn array takes the entries that follow for its missing elements.\<close>

lemma decode_torn_entry:
  assumes "wf_resp (request ss)" "j < length ss" "\<forall>v \<in> set rs. wf_resp v"
  shows "\<exists>r. decode (torn_entry ss j @ concat (map encode rs)) =
    (if length rs < length ss - j then Ret (Err UnexpectedEof, r)
     else Ret (Ok (Array (Some (bulks (take j ss) @ take (length ss - j) rs))),
       concat (map encode (drop (length ss - j) rs))))"
proof -
  let ?k = "length ss - j"
  let ?vs = "bulks (take j ss) @ take ?k rs" and ?rest = "concat (map encode (drop ?k rs))"
  have split: "concat (map encode (bulks (take j ss))) @ concat (map encode rs) = concat (map encode ?vs) @ ?rest"
    by (simp flip: concat_append map_append)
  have wf: "\<forall>v \<in> set ?vs. wf_resp v"
    using assms(1,3) by (auto simp: wf_request bulks_def dest: in_set_takeD)
  have "torn_entry ss j @ concat (map encode rs) = CHR ''*'' # show_nat (length ss) @ crlf @ (concat (map encode ?vs) @ ?rest)"
    using split by (simp add: torn_entry_def)
  then have dec: "decode (torn_entry ss j @ concat (map encode rs)) =
      (case parse_items (length ss) (concat (map encode ?vs) @ ?rest) of
         Panic \<Rightarrow> Panic | Ret (Err e, r') \<Rightarrow> Ret (Err e, r') | Ret (Ok vs, r') \<Rightarrow> Ret (Ok (Array (Some vs)), r'))"
    using decode_array_header [of "length ss" "concat (map encode ?vs) @ ?rest"] assms(1,2)
    by (simp only: wf_request)
  show ?thesis
  proof (cases "length rs < ?k")
    case True
    then have "?rest = []" "length ?vs < length ss" using assms(2) by (auto simp: bulks_def)
    with parse_items_short [OF wf, of "length ss"] dec True show ?thesis by auto
  next
    case False
    then have "length ?vs = length ss" using assms(2) by (simp add: bulks_def)
    with parse_items_encoded [of ?vs ?rest] wf decode_encode_rest dec False show ?thesis by auto
  qed
qed

lemma replay_torn_entry:
  assumes "wf_resp (request ss)" "j < length ss" "\<forall>v \<in> set rs. wf_resp v \<and> \<not> is_bulk v"
  shows "\<exists>i'. replay x es i (torn_entry ss j @ concat (map encode rs)) s =
    replay x es i' (concat (map encode (drop (length ss - j) rs))) s"
proof (cases "length rs < length ss - j")
  case True
  with decode_torn_entry [OF assms(1,2), of rs] assms(3) show ?thesis
    by (auto simp: replay.simps [of x es i "torn_entry ss j @ concat (map encode rs)"] replay_empty)
next
  case False
  let ?vs = "bulks (take j ss) @ take (length ss - j) rs"
  have "hd (take (length ss - j) rs) \<in> set (take (length ss - j) rs)" using False assms(2) by (intro hd_in_set) auto
  then have "\<exists>v \<in> set ?vs. \<not> is_bulk v" using assms(3) by (auto dest: in_set_takeD)
  then have "find (\<lambda>a. \<not> is_bulk a) ?vs \<noteq> None" unfolding find_None_iff by blast
  then obtain e where "from_resp2 (Array (Some ?vs)) = Ret (Err e)" by (auto simp: from_resp2_def)
  with decode_torn_entry [OF assms(1,2), of rs] assms(3) False show ?thesis
    by (auto simp: replay.simps [of x es i "torn_entry ss j @ concat (map encode rs)"])
qed

text \<open>No number has a star in it.\<close>

lemma parse_digits_bad: "c \<in> set s \<Longrightarrow> digit_val r c = None \<Longrightarrow> parse_digits r acc s = None"
  by (induction s arbitrary: acc) (auto split: option.splits)

lemma parse_i64_star: "CHR ''*'' \<in> set s \<Longrightarrow> parse_i64 s = None"
proof -
  assume "CHR ''*'' \<in> set s"
  moreover have "parse_digits 10 0 cs = None" if "CHR ''*'' \<in> set cs" for cs
    by (rule parse_digits_bad [OF that]) (simp add: digit_val_def)
  ultimately show ?thesis
    by (cases s) (auto simp: parse_i64_def parse_unsigned_def strip_plus_def simp del: parse_digits.simps)
qed

text \<open>A number that lost its end swallows the type byte of the next entry.\<close>

lemma replay_torn_count:
  assumes "rs \<noteq> []" "hd rs = request ts" "ts \<noteq> []"
  shows "\<exists>t. replay x es i (torn_count ss m @ concat (map encode rs)) s = (Ret (Err (io_error_of_resp (InvalidInteger t))), s)"
proof -
  let ?l = "take m (show_nat (length ss)) @ CHR ''*'' # show_nat (length ts)"
  obtain r where bytes: "torn_count ss m @ concat (map encode rs) = CHR ''*'' # ?l @ CR # LF # r"
    using assms by (cases rs; cases ts) (auto simp: torn_count_def request_def bulks_def)
  have "c \<noteq> LF \<and> (of_char c :: nat) < 128" if "c \<in> set (show_nat n)" for c n
    using that show_radix_ascii [of 10 c n] by (auto simp: show_nat_def)
  then have "c \<noteq> LF \<and> (of_char c :: nat) < 128" if "c \<in> set ?l" for c
    using that by (auto dest!: in_set_takeD)
  then have safe: "LF \<notin> set ?l" "utf8_valid ?l" by (blast, blast intro: utf8_valid_ascii)
  have "parse_length ?l = Err (InvalidInteger ?l)" using parse_i64_star [of ?l] by (simp add: parse_length_def)
  then have "decode (CHR ''*'' # ?l @ CR # LF # r) = Ret (Err (InvalidInteger ?l), r)"
    using decode_header [OF safe, of "CHR ''*''" r] by (simp add: parse_array.simps)
  then show ?thesis unfolding bytes by (subst replay.simps) auto
qed

section \<open>The entries of a session\<close>

lemma session_entries:
  assumes "run_handler x ws i (concat (map encode vs)) st = (Ret (Ok ()), st')" "\<forall>v \<in> set vs. replay_safe v"
    "calm (h_store st)" "\<not> poisoned (h_store st)" "h_aof st = Some a" "buffered a = []"
    "\<forall>i. write_result (r_append (ws i)) = Written"
    "\<forall>n \<le> length vs. within_limits (h_store (snd (run_handler x ws i (concat (map encode (take n vs))) st)))"
  shows "\<exists>rs. log_of st' = aof_file a @ concat (map encode rs) \<and> subseq rs vs \<and>
     (\<forall>v \<in> set rs. \<exists>c. from_resp2 v = Ret (Ok c))"
  using assms
proof (induction vs arbitrary: i st a)
  case Nil
  then show ?case by (intro exI [of _ "[]"]) (auto simp: run_handler_empty log_of_def)
next
  case (Cons v vs)
  obtain st_re a1 where s: "run_handler x ws (Suc i) (concat (map encode vs)) st_re = (Ret (Ok ()), st')"
      "calm (h_store st_re)" "\<not> poisoned (h_store st_re)" "h_aof st_re = Some a1" "buffered a1 = []"
      "\<forall>n \<le> length vs. within_limits (h_store (snd (run_handler x ws (Suc i) (concat (map encode (take n vs))) st_re)))"
    and ch: "aof_file a1 = aof_file a \<or> aof_file a1 = aof_file a @ encode v \<and> (\<exists>c. from_resp2 v = Ret (Ok c))"
    using session_step [OF Cons.prems] by metis
  obtain rs where rs: "log_of st' = aof_file a1 @ concat (map encode rs)" "subseq rs vs"
      "\<forall>v \<in> set rs. \<exists>c. from_resp2 v = Ret (Ok c)"
    using Cons.IH [OF s(1) _ s(2-5) _ s(6)] Cons.prems(2,7) by auto
  from ch show ?case
  proof
    assume "aof_file a1 = aof_file a"
    with rs show ?thesis by (intro exI [of _ rs]) (auto simp: list_emb_Cons)
  next
    assume "aof_file a1 = aof_file a @ encode v \<and> (\<exists>c. from_resp2 v = Ret (Ok c))"
    with rs show ?thesis by (intro exI [of _ "v # rs"]) auto
  qed
qed

section \<open>A session after the crash\<close>

lemma cut_file:
  assumes "good_session x ws es st vs" "m < length vs" "prefix p (encode (vs ! m))"
    "log_of (after x ws st vs (Suc m)) = log_of (after x ws st vs m) @ encode (vs ! m)"
  shows "take (length (log_of (after x ws st vs m)) + length p) (log_of (after x ws st vs (length vs))) =
    log_of (after x ws st vs m) @ p"
proof -
  obtain more where "log_of (after x ws st vs (length vs)) = log_of (after x ws st vs (Suc m)) @ more"
    using after_grows [OF assms(1), of "Suc m" "length vs"] assms(2) by auto
  with assms(3,4) show ?thesis by (auto simp: prefix_def)
qed

text \<open>The file after a second session, and its replay up to the torn bytes.\<close>

lemma second_session:
  assumes "good_session x ws es st vs" "m < length vs" "vs ! m = request ss" "prefix p (encode (request ss))"
    "log_of (after x ws st vs (Suc m)) = log_of (after x ws st vs m) @ encode (request ss)"
    "h_store st_re = h_store (after x ws st vs m)" "h_aof st_re = Some a" "buffered a = []"
    "aof_file a = take (length (log_of (after x ws st vs m)) + length p) (log_of (after x ws st vs (length vs)))"
    "run_handler x ws' 0 (concat (map encode vs')) st_re = (Ret (Ok ()), st_end)" "\<forall>v \<in> set vs'. replay_safe v"
    "\<forall>i. write_result (r_append (ws' i)) = Written"
    "\<forall>n \<le> length vs'. within_limits (h_store (snd (run_handler x ws' 0 (concat (map encode (take n vs'))) st_re)))"
  obtains rs i where "log_of st_end = aof_file a @ concat (map encode rs)" "subseq rs vs'"
    "\<forall>v \<in> set rs. \<exists>ts. v = request ts \<and> ts \<noteq> []"
    "replay x es 0 (log_of st_end) store_new = replay x es i (p @ concat (map encode rs)) (h_store st_re)"
proof -
  have cut: "aof_file a = log_of (after x ws st vs m) @ p"
    using cut_file [OF assms(1,2), of p] assms(3,4,5,9) by simp
  have m: "m \<le> length vs" using assms(2) by simp
  have calm: "calm (h_store st_re)" "\<not> poisoned (h_store st_re)"
    and rep: "\<forall>rest. \<exists>i. replay x es 0 (log_of (after x ws st vs m) @ rest) store_new = replay x es i rest (h_store st_re)"
    using after_log [OF assms(1) m] assms(6) by auto
  obtain rs where rs: "log_of st_end = aof_file a @ concat (map encode rs)" "subseq rs vs'"
      "\<forall>v \<in> set rs. \<exists>c. from_resp2 v = Ret (Ok c)"
    using session_entries [OF assms(10,11) calm assms(7,8,12,13)] by blast
  have "\<forall>v \<in> set rs. \<exists>ts. v = request ts \<and> ts \<noteq> []" using rs(3) parsed_request by blast
  moreover obtain i where "replay x es 0 (log_of st_end) store_new = replay x es i (p @ concat (map encode rs)) (h_store st_re)"
    using rep [rule_format, of "p @ concat (map encode rs)"] rs(1) cut by auto
  ultimately show thesis using that rs(1,2) by blast
qed

section \<open>A concrete second session\<close>

definition reopened :: "string \<Rightarrow> handler_state" where
  "reopened f = (demo_handler store_new)\<lparr>h_aof := Some \<lparr>aof_file = f, buffered = [], synced = 0, fsync_mode = Always\<rparr>\<rparr>"

lemma reopened_run:
  fixes x t
  defines "v \<equiv> request [''SET'', ''k'', ''v'']"
  obtains st_end where "run_handler x (\<lambda>_. demo_world t) 0 (encode v) (reopened f) = (Ret (Ok ()), st_end)"
    "log_of st_end = f @ encode v"
    "\<forall>n \<le> 1. within_limits (h_store (snd (run_handler x (\<lambda>_. demo_world t) 0 (concat (map encode (take n [v]))) (reopened f))))"
proof -
  from demo_exec_set obtain st_end where h: "handle_request x (demo_world t) v (reopened f) = (Ret (Ok ()), st_end)"
      "log_of st_end = f @ encode v" "h_store st_end = store_new\<lparr>inner := inner_put ''k'' (Str ''v'') (inner store_new)\<rparr>"
    by (simp add: v_def reopened_def handle_request_def demo_set_request demo_world_def demo_handler_def respond_def log_step_def
        is_logged_def is_write_cmd_def aof_bytes_def expire_info_def ok_reply_def send_response_def aof_append_def
        sync_data_def Let_def log_of_def)
  have "wf_resp v" by (simp add: v_def wf_request vec_capacity_ok_def)
  from run_handler_request [OF this, of x "\<lambda>_. demo_world t" 0 "[]" "reopened f"]
  have run: "run_handler x (\<lambda>_. demo_world t) 0 (encode v) (reopened f) = (Ret (Ok ()), st_end)"
    by (simp add: h run_handler_empty)
  moreover have "within_limits (h_store (snd (run_handler x (\<lambda>_. demo_world t) 0 (concat (map encode (take n [v]))) (reopened f))))"
    if le: "n \<le> 1" for n
  proof -
    consider "n = 0" | "n = 1" using le by fastforce
    then show ?thesis
      by cases (simp_all add: run_handler_empty reopened_def demo_handler_store demo_limits run [unfolded reopened_def] h(3))
  qed
  ultimately show thesis using that h(2) by blast
qed

lemma reopened_store: "h_store (reopened f) = store_new"
  by (simp add: reopened_def demo_handler_store)

text \<open>The file of a one-request session, cut to \<open>f\<close> and opened again.\<close>

lemma reopened_crash:
  fixes x t
  defines "v \<equiv> request [''SET'', ''k'', ''v'']"
  defines "state \<equiv> after x (\<lambda>_. demo_world t) (demo_handler store_new) [v]"
  assumes "prefix f (encode v)"
  shows "log_of (state (Suc 0)) = log_of (state 0) @ encode v" "h_store (reopened f) = h_store (state 0)"
    "h_aof (reopened f) = Some \<lparr>aof_file = f, buffered = [], synced = 0, fsync_mode = Always\<rparr>"
    "buffered \<lparr>aof_file = f, buffered = [], synced = 0, fsync_mode = Always\<rparr> = []"
    "aof_file \<lparr>aof_file = f, buffered = [], synced = 0, fsync_mode = Always\<rparr> =
      take (length (log_of (state 0)) + length f) (log_of (state (length [v])))"
proof -
  have "state 0 = demo_handler store_new" "log_of (state 1) = encode v"
    using demo_session(1,2) [of x t] by (simp_all add: v_def state_def)
  moreover have "log_of (demo_handler store_new) = []" by (simp add: log_of_def demo_handler_def)
  ultimately show "log_of (state (Suc 0)) = log_of (state 0) @ encode v" "h_store (reopened f) = h_store (state 0)"
    "aof_file \<lparr>aof_file = f, buffered = [], synced = 0, fsync_mode = Always\<rparr> =
      take (length (log_of (state 0)) + length f) (log_of (state (length [v])))"
    using assms(3) by (auto simp: reopened_store demo_handler_store prefix_def)
qed (simp_all add: reopened_def)

lemma reopened_world: "\<forall>i. write_result (r_append (demo_world t)) = Written"
  by (simp add: demo_world_def)

lemma reopened_safe: "replay_safe (request [''SET'', ''k'', ''v''])"
  using demo_session(3) [of _ 0 0] by (simp add: good_session_def)

section \<open>Properties\<close>

text \<open>C26: a torn entry swallows the writes that follow it.  A crash cuts the append-only file between two
  elements of its last entry, which still lacks \<open>length ss - j\<close> arguments; the server restarts on the store of
  the complete entries and appends the writes \<open>rs\<close> of its next session behind the torn bytes.  The replay
  of that file takes the first \<open>length ss - j\<close> of them for the missing arguments and drops them without an
  error: the store it restores is the one of the first restart with the remaining writes only.\<close>

theorem torn_entry_swallows_writes:
  assumes "good_session x ws es st vs" "m < length vs" "vs ! m = request ss" "j < length ss"
    "log_of (after x ws st vs (Suc m)) = log_of (after x ws st vs m) @ encode (request ss)"
    "h_store st_re = h_store (after x ws st vs m)" "h_aof st_re = Some a" "buffered a = []"
    "aof_file a = take (length (log_of (after x ws st vs m)) + length (torn_entry ss j)) (log_of (after x ws st vs (length vs)))"
    "run_handler x ws' 0 (concat (map encode vs')) st_re = (Ret (Ok ()), st_end)" "\<forall>v \<in> set vs'. replay_safe v"
    "\<forall>i. write_result (r_append (ws' i)) = Written"
    "\<forall>n \<le> length vs'. within_limits (h_store (snd (run_handler x ws' 0 (concat (map encode (take n vs'))) st_re)))"
  shows "\<exists>rs i. log_of st_end = aof_file a @ concat (map encode rs) \<and> subseq rs vs' \<and>
    replay x es 0 (log_of st_end) store_new =
      replay x es i (concat (map encode (drop (length ss - j) rs))) (h_store st_re)"
proof -
  have p: "prefix (torn_entry ss j) (encode (request ss))" using assms(4) by (intro torn_entry_prefix) auto
  obtain rs i where rs: "log_of st_end = aof_file a @ concat (map encode rs)" "subseq rs vs'"
      "\<forall>v \<in> set rs. \<exists>ts. v = request ts \<and> ts \<noteq> []"
      "replay x es 0 (log_of st_end) store_new = replay x es i (torn_entry ss j @ concat (map encode rs)) (h_store st_re)"
    by (rule second_session [OF assms(1-3) p assms(5-13)])
  have "wf_resp (request ss)" using assms(1-3) by (metis good_session_def nth_mem replay_safe_def)
  moreover have "wf_resp v \<and> \<not> is_bulk v" if v: "v \<in> set rs" for v
  proof -
    obtain u where "u \<in> set vs'" "v = u" by (rule list_emb_set [OF rs(2) v])
    with assms(11) have "wf_resp v" by (auto simp: replay_safe_def)
    with rs(3) v show ?thesis by (auto simp: is_bulk_def request_def)
  qed
  ultimately show ?thesis using replay_torn_entry [OF _ assms(4)] rs(1,2,4) by metis
qed

theorem torn_entry_swallows_writes_witness:
  "let v = request [''SET'', ''k'', ''v'']
   in replay \<lparr>lazyfree_lazy_user_flush = False\<rparr> (\<lambda>_. demo_env 7 7) 0 (torn_entry [''SET'', ''k'', ''v''] 0 @ encode v) store_new =
      (Ret (Ok ()), store_new)"
proof -
  let ?ss = "[''SET'', ''k'', ''v'']" and ?x = "\<lparr>lazyfree_lazy_user_flush = False\<rparr>"
  let ?v = "request ?ss" and ?f = "torn_entry ?ss 0"
  obtain st_end where run: "run_handler ?x (\<lambda>_. demo_world 0) 0 (encode ?v) (reopened ?f) = (Ret (Ok ()), st_end)" "log_of st_end = ?f @ encode ?v"
    "\<forall>n \<le> 1. within_limits (h_store (snd (run_handler ?x (\<lambda>_. demo_world 0) 0 (concat (map encode (take n [?v]))) (reopened ?f))))"
    by (rule reopened_run)
  have "prefix ?f (encode ?v)" by (rule torn_entry_prefix) simp
  from torn_entry_swallows_writes [OF demo_session(3) [of ?x 0 7] _ _ _ reopened_crash [OF this] _ _ reopened_world [of 0],
      where vs' = "[?v]" and st_end = st_end] run reopened_safe
  have "\<exists>rs i. log_of st_end = ?f @ concat (map encode rs) \<and> subseq rs [?v] \<and>
      replay ?x (\<lambda>_. demo_env 7 7) 0 (log_of st_end) store_new =
        replay ?x (\<lambda>_. demo_env 7 7) i (concat (map encode (drop (length ?ss - 0) rs))) store_new"
    by (simp add: reopened_store)
  then obtain rs i where rs: "subseq rs [?v]" "replay ?x (\<lambda>_. demo_env 7 7) 0 (log_of st_end) store_new =
        replay ?x (\<lambda>_. demo_env 7 7) i (concat (map encode (drop (length ?ss - 0) rs))) store_new"
    by blast
  have "length rs \<le> 1" using list_emb_length [OF rs(1)] by simp
  with rs(2) run(2) show ?thesis by (simp add: Let_def replay_empty)
qed

text \<open>C27: after a crash inside the number of an entry's header line the server starts, and the first write
  it then logs makes the file unreadable: the next start fails with an invalid integer, and nothing that
  was acknowledged after the crash is restored.\<close>

theorem torn_count_bricks_log:
  assumes "good_session x ws es st vs" "m < length vs" "vs ! m = request ss" "0 < d" "d \<le> length (show_nat (length ss))"
    "log_of (after x ws st vs (Suc m)) = log_of (after x ws st vs m) @ encode (request ss)"
    "h_store st_re = h_store (after x ws st vs m)" "h_aof st_re = Some a" "buffered a = []"
    "aof_file a = take (length (log_of (after x ws st vs m)) + length (torn_count ss d)) (log_of (after x ws st vs (length vs)))"
    "run_handler x ws' 0 (concat (map encode vs')) st_re = (Ret (Ok ()), st_end)" "\<forall>v \<in> set vs'. replay_safe v"
    "\<forall>i. write_result (r_append (ws' i)) = Written"
    "\<forall>n \<le> length vs'. within_limits (h_store (snd (run_handler x ws' 0 (concat (map encode (take n vs'))) st_re)))"
  shows "replay x es 0 (aof_file a) store_new = (Ret (Ok ()), h_store st_re) \<and>
    (log_of st_end = aof_file a \<or>
     (\<exists>t. replay x es 0 (log_of st_end) store_new = (Ret (Err (io_error_of_resp (InvalidInteger t))), h_store st_re)))"
proof -
  have ss: "ss \<noteq> []" using after_step [OF assms(1,2)] assms(3,6) by (auto simp: request_def bulks_def)
  obtain rs i where rs: "log_of st_end = aof_file a @ concat (map encode rs)"
      "\<forall>v \<in> set rs. \<exists>ts. v = request ts \<and> ts \<noteq> []"
      "replay x es 0 (log_of st_end) store_new = replay x es i (torn_count ss d @ concat (map encode rs)) (h_store st_re)"
    by (rule second_session [OF assms(1-3) torn_count_prefix [OF ss] assms(6-14)])
  have len: "length (torn_count ss d) = Suc d" "Suc d < length (encode (request ss))" "\<not> bad_cut ss (Suc d)"
    using assms(4,5) ss by (auto simp: torn_count_def request_def bulks_def bad_cut_def header_cut_def)
  have "replay x es 0 (aof_file a) store_new = (Ret (Ok ()), h_store st_re)"
    using cut_log [OF assms(1), of m "length (log_of (after x ws st vs m)) + Suc d"] assms(2,3,6,7,10) len by auto
  moreover have "\<exists>t. replay x es 0 (log_of st_end) store_new = (Ret (Err (io_error_of_resp (InvalidInteger t))), h_store st_re)"
    if ne: "rs \<noteq> []"
  proof -
    obtain ts where "hd rs = request ts" "ts \<noteq> []" using rs(2) hd_in_set [OF ne] by blast
    from replay_torn_count [OF ne this] rs(3) show ?thesis by simp
  qed
  ultimately show ?thesis using rs(1) by (cases "rs = []") auto
qed

theorem torn_count_bricks_log_witness:
  "let v = request [''SET'', ''k'', ''v'']
   in \<exists>t. replay \<lparr>lazyfree_lazy_user_flush = False\<rparr> (\<lambda>_. demo_env 7 7) 0 (torn_count [''SET'', ''k'', ''v''] 1 @ encode v) store_new =
      (Ret (Err (io_error_of_resp (InvalidInteger t))), store_new)"
proof -
  let ?ss = "[''SET'', ''k'', ''v'']" and ?x = "\<lparr>lazyfree_lazy_user_flush = False\<rparr>"
  let ?v = "request ?ss" and ?f = "torn_count ?ss 1"
  obtain st_end where run: "run_handler ?x (\<lambda>_. demo_world 0) 0 (encode ?v) (reopened ?f) = (Ret (Ok ()), st_end)" "log_of st_end = ?f @ encode ?v"
    "\<forall>n \<le> 1. within_limits (h_store (snd (run_handler ?x (\<lambda>_. demo_world 0) 0 (concat (map encode (take n [?v]))) (reopened ?f))))"
    by (rule reopened_run)
  have "prefix ?f (encode ?v)" by (rule torn_count_prefix) simp
  note cut = reopened_crash [OF this]
  have "1 \<le> length (show_nat (length ?ss))" by (simp add: show_nat_def Suc_le_eq)
  from torn_count_bricks_log [OF demo_session(3) [of ?x 0 7] _ _ _ this cut _ _ reopened_world [of 0],
      where vs' = "[?v]" and st_end = st_end] run reopened_safe
  show ?thesis by (auto simp: reopened_store Let_def request_def)
qed

end
