(* ===== verification/Expiry_Log.thy ===== *)
theory Expiry_Log
  imports Replies
begin

text \<open>
  How relative expiries survive a restart.  \<open>EXPIRE\<close> and \<open>PEXPIRE\<close> are appended as \<open>PEXPIREAT\<close> with
  the wall clock of the append; at the next start the replay turns the absolute time back into an
  \<open>Instant\<close>.  Deadlines are compared on the wall clock, to which each run's \<open>Instant\<close> has a constant
  offset.
\<close>

section \<open>Relative expiries\<close>

text \<open>The key, the duration that \<open>execute\<close> adds to the clock, and the milliseconds that are logged.\<close>

fun relative_expiry :: "command \<Rightarrow> (string \<times> int \<times> nat) option" where
  "relative_expiry (Expire k n) = Some (k, from_secs n, saturating_mul_u64 n 1000)"
| "relative_expiry (PExpire k n) = Some (k, from_millis n, n)"
| "relative_expiry _ = None"

definition put_deadline :: "string \<Rightarrow> int \<Rightarrow> store \<Rightarrow> store" where
  "put_deadline k d s = s\<lparr>inner := (inner s)\<lparr>expiry_index := fmupd k d (expiry_index (inner s))\<rparr>\<rparr>"

lemma relative_execute:
  assumes "relative_expiry c = Some (k, d, ms)" "\<not> poisoned s" "fmlookup (data (inner s)) k \<noteq> None"
    "as_secs (now_at e 0 + d) \<le> i64_max"
  shows "execute x e c s = (Ret (Integer 1), put_deadline k (now_at e 0 + d) s)"
proof -
  have "store_set_ttl k t s = (Ret True, put_deadline k t s)" for t
    using assms(2,3) by (simp add: store_set_ttl_def op_simps put_deadline_def)
  with assms(1,4) show ?thesis
    by (cases c) (auto simp: exec_expire_def exec_pexpire_def instant_checked_add_def bind_op_def ret_op_def bool_reply_def)
qed

lemma relative_bytes:
  assumes "relative_expiry c = Some (k, d, ms)"
  shows "aof_bytes e (Ok c) v =
    (case u64_add (overflow_checks e) (unix_millis_or_default (unix_at e 2)) ms of
       Panic \<Rightarrow> Panic | Ret m \<Rightarrow> Ret (encode (pexpireat_frame k m)))"
  using assms by (cases c) (auto simp: aof_bytes_def expire_info_def convert_expire_to_pexpireat_def
      convert_pexpire_to_pexpireat_def)

lemma frame_request: "pexpireat_frame k m = request [''PEXPIREAT'', k, show_nat m]"
  by (simp add: pexpireat_frame_def request_def bulks_def)

lemma replay_frame:
  assumes "is_text k" "m \<le> u64_max"
  shows "replay x es j (encode (pexpireat_frame k m)) s =
    (case exec_pexpire_at (es j) k m s of (Panic, s') \<Rightarrow> (Panic, s') | (Ret _, s') \<Rightarrow> (Ret (Ok ()), s'))"
proof -
  have len: "length (show_nat m) \<le> Suc 19"
    unfolding show_nat_def by (rule show_radix_length) (use assms(2) in simp_all)
  have "wf_resp (pexpireat_frame k m)"
    using assms len by (auto simp: frame_request wf_request is_text_def vec_capacity_ok_def show_nat_utf8)
  moreover have "from_resp2 (pexpireat_frame k m) = Ret (Ok (PExpireAt k m))"
    using assms(2) by (simp add: frame_request from_resp2_request parse_command_def parse_expire_commands_def try_ok_def
        check_arity_def int_arg_def)
  ultimately show ?thesis
    using replay_entry [of "pexpireat_frame k m" "PExpireAt k m" x es j "[]" s]
    by (auto simp: replay_empty split: prod.splits outcome.splits)
qed

text \<open>The wall-clock arithmetic: \<open>a\<close> and \<open>b\<close> are the clock when the command ran and when it was
  appended, \<open>f\<close> and \<open>g\<close> the two readings of the replay.\<close>

lemma restored_close:
  fixes a b f g ms M :: int
  assumes "a \<le> b" "f \<le> g" "M = b div 1000000 + ms" "f div 1000000 < M"
  shows "\<bar>(g + max 0 (M - g div 1000000) * 1000000) - (a + ms * 1000000)\<bar> < 1000000 + (b - a) + (g - f)"
proof -
  have "b = b div 1000000 * 1000000 + b mod 1000000" "0 \<le> b mod 1000000" "b mod 1000000 < 1000000"
    "g = g div 1000000 * 1000000 + g mod 1000000" "0 \<le> g mod 1000000" "g mod 1000000 < 1000000"
    "f = f div 1000000 * 1000000 + f mod 1000000" "0 \<le> f mod 1000000" "f mod 1000000 < 1000000" by simp_all
  with assms show ?thesis by (simp add: max_def abs_less_iff split: if_splits) linarith
qed

lemma passed_close:
  fixes a b f ms M :: int
  assumes "a \<le> b" "M = b div 1000000 + ms" "M \<le> f div 1000000"
  shows "a + ms * 1000000 < f + 1000000"
proof -
  have "b = b div 1000000 * 1000000 + b mod 1000000" "b mod 1000000 < 1000000"
    "f = f div 1000000 * 1000000 + f mod 1000000" "0 \<le> f mod 1000000" by simp_all
  with assms show ?thesis by linarith
qed

section \<open>Logging and replaying\<close>

lemma relative_handled:
  assumes "from_resp2 v = Ret (Ok c)" "relative_expiry c = Some (k, d, ms)"
    "\<not> poisoned (h_store st)" "fmlookup (data (inner (h_store st))) k \<noteq> None" "h_aof st = Some a" "buffered a = []"
    "write_result (r_append w) = Written" "r_send w = Ok ()" "as_secs (now_at (r_env w) 0 + d) \<le> i64_max"
    "u64_add (overflow_checks (r_env w)) (unix_millis_or_default (unix_at (r_env w) 2)) ms = Ret m"
  shows "\<exists>st' a'. handle_request x w v st = (Ret (Ok ()), st') \<and> h_out st' = h_out st @ encode (Integer 1) \<and>
     h_store st' = put_deadline k (now_at (r_env w) 0 + d) (h_store st) \<and>
     h_aof st' = Some a' \<and> aof_file a' = aof_file a @ encode (pexpireat_frame k m)"
proof -
  have "is_write c" using assms(2) by (cases c) auto
  then have log: "is_logged (Ok c) (Integer 1)" by (simp add: is_logged_def is_write_cmd_def)
  from relative_execute [OF assms(2-4,9), of x] relative_bytes [OF assms(2), of "r_env w" v] log assms(1,5,8,10)
    append_written [OF assms(7,6), of "encode (pexpireat_frame k m)"]
  show ?thesis by (simp add: handle_request_def respond_def log_step_def send_response_def)
qed

lemma pexpire_at_view:
  assumes "\<not> poisoned s" "fmlookup (data (inner s)) k \<noteq> None" "0 \<le> unix_at e 0" "unix_at e 0 \<le> unix_at e 1"
    "as_millis (unix_at e 1) \<le> int u64_max" "as_secs (now_at e 1 + from_millis m) \<le> i64_max"
  shows "exec_pexpire_at e k m s =
    (if int m \<le> as_millis (unix_at e 0) then (Ret (Integer 0), s\<lparr>inner := inner_remove k (inner s)\<rparr>)
     else (Ret (Integer 1), put_deadline k
       (now_at e 1 + max 0 (int m - as_millis (unix_at e 1)) * 1000000) s))"
proof -
  have mono: "0 \<le> as_millis (unix_at e 0)" "as_millis (unix_at e 0) \<le> as_millis (unix_at e 1)"
    using assms(3,4) by (simp_all add: as_millis_def pos_imp_zdiv_nonneg_iff zdiv_mono1)
  have ms: "unix_ms (unix_at e 0) = Ret (nat (as_millis (unix_at e 0)))" "unix_ms (unix_at e 1) = Ret (nat (as_millis (unix_at e 1)))"
    using assms(3-5) mono by (simp_all add: unix_ms_def cast_simps)
  have dur: "from_millis (m - nat (as_millis (unix_at e 1))) = max 0 (int m - as_millis (unix_at e 1)) * 1000000"
    using mono by (simp add: from_millis_def max_def of_nat_diff)
  have "as_secs (now_at e 1 + from_millis (m - nat (as_millis (unix_at e 1)))) \<le> as_secs (now_at e 1 + from_millis m)"
    by (simp add: as_secs_def from_millis_def zdiv_mono1)
  then have inst: "unix_ms_to_instant e m = Ret (now_at e 1 + max 0 (int m - as_millis (unix_at e 1)) * 1000000)"
    using assms(6) dur by (simp add: unix_ms_to_instant_def ms instant_add_def instant_checked_add_def del: One_nat_def)
  have "store_set_ttl k t s = (Ret True, put_deadline k t s)" for t
    using assms(1,2) by (simp add: store_set_ttl_def op_simps put_deadline_def)
  with assms(1) mono show ?thesis
    by (simp add: exec_pexpire_at_def ms inst bind_op_def pure_op_def ret_op_def bool_reply_def store_delete_def
        with_write_def le_nat_iff nat_le_eq_zle)
qed

section \<open>Properties\<close>

text \<open>C28: an \<open>EXPIRE\<close> or \<open>PEXPIRE\<close> that is answered with one survives a restart.  The handler sets the
  deadline and appends a \<open>PEXPIREAT\<close>; replaying that entry at the next start either finds it passed and
  deletes the key, at most a millisecond before the deadline, or sets a deadline that on the wall clock
  differs from the original by less than a millisecond plus the time between the command and its append
  plus the time between the two clock readings of the replay.\<close>

theorem expire_survives_restart:
  assumes "from_resp2 v = Ret (Ok c)" "relative_expiry c = Some (k, d, ms)" "d = from_millis ms" "is_text k"
    "\<not> poisoned (h_store st)" "fmlookup (data (inner (h_store st))) k \<noteq> None" "h_aof st = Some a" "buffered a = []"
    "write_result (r_append w) = Written" "r_send w = Ok ()" "as_secs (now_at (r_env w) 0 + d) \<le> i64_max"
    "now_at (r_env w) 0 = unix_at (r_env w) 0 + off" "0 \<le> unix_at (r_env w) 0" "unix_at (r_env w) 0 \<le> unix_at (r_env w) 2"
    "as_millis (unix_at (r_env w) 2) + int ms \<le> int u64_max"
    "\<not> poisoned s" "fmlookup (data (inner s)) k \<noteq> None" "now_at (es 0) 1 = unix_at (es 0) 1 + off'"
    "0 \<le> unix_at (es 0) 0" "unix_at (es 0) 0 \<le> unix_at (es 0) 1" "as_millis (unix_at (es 0) 1) \<le> int u64_max"
    "as_secs (now_at (es 0) 1 + from_millis u64_max) \<le> i64_max"
  shows "\<exists>st' a' entry dl s'. handle_request x w v st = (Ret (Ok ()), st') \<and>
     fmlookup (expiry_index (inner (h_store st'))) k = Some dl \<and> h_aof st' = Some a' \<and>
     aof_file a' = aof_file a @ entry \<and> replay x es 0 entry s = (Ret (Ok ()), s') \<and>
     (fmlookup (data (inner s')) k = None \<and> dl - off < unix_at (es 0) 0 + 1000000 \<or>
      (\<exists>dl'. fmlookup (data (inner s')) k = fmlookup (data (inner s)) k \<and> fmlookup (expiry_index (inner s')) k = Some dl' \<and>
         \<bar>(dl' - off') - (dl - off)\<bar> <
           1000000 + (unix_at (r_env w) 2 - unix_at (r_env w) 0) + (unix_at (es 0) 1 - unix_at (es 0) 0)))"
proof -
  let ?b = "unix_at (r_env w) 2" and ?e = "es 0"
  define m where "m = nat (as_millis ?b) + ms"
  have b: "0 \<le> ?b" "0 \<le> as_millis ?b"
    using assms(13,14) by (simp_all add: as_millis_def pos_imp_zdiv_nonneg_iff)
  have m: "int m = ?b div 1000000 + int ms" "m \<le> u64_max" using assms(15) b by (auto simp: m_def as_millis_def)
  have add: "u64_add (overflow_checks (r_env w)) (unix_millis_or_default ?b) ms = Ret m"
    using m b assms(15) by (auto simp: u64_add_def unix_millis_or_default_def cast_simps m_def max_def)
  obtain st' a' where h: "handle_request x w v st = (Ret (Ok ()), st')"
    "h_store st' = put_deadline k (now_at (r_env w) 0 + d) (h_store st)" "h_aof st' = Some a'"
    "aof_file a' = aof_file a @ encode (pexpireat_frame k m)"
    using relative_handled [OF assms(1,2,5-11) add, of x] by blast
  have "as_secs (now_at ?e 1 + from_millis m) \<le> as_secs (now_at ?e 1 + from_millis u64_max)"
    using m(2) by (simp add: as_secs_def from_millis_def zdiv_mono1 del: of_nat_le_iff) 
  with assms(22) have rep: "as_secs (now_at ?e 1 + from_millis m) \<le> i64_max" by simp
  note view = pexpire_at_view [OF assms(16,17,19-21) rep]
  have dl: "now_at (r_env w) 0 + d - off = unix_at (r_env w) 0 + int ms * 1000000"
    using assms(3,12) by (simp add: from_millis_def)
  show ?thesis
  proof (cases "int m \<le> as_millis (unix_at ?e 0)")
    case True
    have "unix_at (r_env w) 0 + int ms * 1000000 < unix_at ?e 0 + 1000000"
      using True m(1) assms(14) by (intro passed_close) (auto simp: as_millis_def)
    with h dl True view replay_frame [OF assms(4) m(2), of x es 0 s] show ?thesis
      by (auto simp: put_deadline_def inner_remove_def)
  next
    case False
    then have "\<bar>(unix_at ?e 1 + max 0 (int m - unix_at ?e 1 div 1000000) * 1000000) - (unix_at (r_env w) 0 + int ms * 1000000)\<bar>
        < 1000000 + (?b - unix_at (r_env w) 0) + (unix_at ?e 1 - unix_at ?e 0)"
      using assms(14,20) m(1) by (intro restored_close) (auto simp: as_millis_def)
    with h dl False view replay_frame [OF assms(4) m(2), of x es 0 s] assms(18) show ?thesis
      by (auto simp: put_deadline_def as_millis_def)
  qed
qed

lemma demo_key_store:
  "\<not> poisoned (snd (store_set k v store_new))" "fmlookup (data (inner (snd (store_set k v store_new)))) k \<noteq> None"
  "fmlookup (data (inner (snd (store_set k v store_new)))) k = Some v"
  by (simp_all add: store_set_def op_simps store_new_def inner_put_def)

theorem expire_survives_restart_witness:
  "let s = snd (store_set ''k'' (Str ''v'') store_new)
   in \<exists>st' a' s' dl'. handle_request \<lparr>lazyfree_lazy_user_flush = False\<rparr> (demo_world 0) (request [''PEXPIRE'', ''k'', ''9'']) (demo_handler s) =
        (Ret (Ok ()), st') \<and> h_aof st' = Some a' \<and>
      replay \<lparr>lazyfree_lazy_user_flush = False\<rparr> (\<lambda>_. demo_env 3000000 3000000) 0 (aof_file a') s = (Ret (Ok ()), s') \<and>
      fmlookup (expiry_index (inner s')) ''k'' = Some dl' \<and> \<bar>dl' - 9000000\<bar> < 1000000"
proof -
  let ?s = "snd (store_set ''k'' (Str ''v'') store_new)" and ?v = "request [''PEXPIRE'', ''k'', ''9'']"
  let ?a = "\<lparr>aof_file = [], buffered = [], synced = 0, fsync_mode = Always\<rparr>" and ?x = "\<lparr>lazyfree_lazy_user_flush = False\<rparr>"
  let ?es = "\<lambda>_ :: nat. demo_env 3000000 3000000"
  have v: "from_resp2 ?v = Ret (Ok (PExpire ''k'' 9))"
    by (simp add: from_resp2_request parse_command_def parse_expire_commands_def try_ok_def check_arity_def int_arg_def
        parse_u64_def parse_unsigned_def digit_val_def strip_plus_def)
  have w: "h_aof (demo_handler ?s) = Some ?a" "r_env (demo_world 0) = demo_env 0 0"
    "write_result (r_append (demo_world 0)) = Written" "r_send (demo_world 0) = Ok ()"
    by (simp_all add: demo_handler_def demo_world_def)
  have k: "is_text ''k''" by (simp add: is_text_def vec_capacity_ok_def)
  from expire_survives_restart [OF v, of "''k''" "from_millis 9" 9 "demo_handler ?s" ?a "demo_world 0" 0 ?s ?es 0 ?x]
  obtain st' a' entry dl s' where "handle_request ?x (demo_world 0) ?v (demo_handler ?s) = (Ret (Ok ()), st')"
    "fmlookup (expiry_index (inner (h_store st'))) ''k'' = Some dl" "h_aof st' = Some a'" "aof_file a' = entry"
    "replay ?x ?es 0 entry ?s = (Ret (Ok ()), s')"
    "fmlookup (data (inner s')) ''k'' = None \<and> dl < 4000000 \<or>
     (\<exists>dl'. fmlookup (expiry_index (inner s')) ''k'' = Some dl' \<and> \<bar>dl' - dl\<bar> < 1000000)"
    using demo_key_store [of "''k''" "Str ''v''"] k
    by (auto simp: w demo_handler_store as_millis_def as_secs_def from_millis_def)
  moreover have "dl = 9000000"
  proof -
    have "execute ?x (demo_env 0 0) (PExpire ''k'' 9) ?s = (Ret (Integer 1), put_deadline ''k'' 9000000 ?s)"
      using relative_execute [of "PExpire ''k'' 9" "''k''" "from_millis 9" 9 ?s "demo_env 0 0" ?x]
        demo_key_store [of "''k''" "Str ''v''"] by (simp add: from_millis_def as_secs_def)
    then have "h_store st' = put_deadline ''k'' 9000000 ?s"
      using calculation(1) v by (auto simp: handle_request_def respond_def w demo_handler_store split: outcome.splits prod.splits)
    with calculation(2) show ?thesis by (simp add: put_deadline_def)
  qed
  ultimately show ?thesis unfolding Let_def by auto
qed

text \<open>C33: an expiry beyond the range of milliseconds loses its key at the next start.  In a build without
  overflow checks, when the milliseconds added to the wall clock exceed 64 bits, the server answers one and
  keeps the key with a deadline in the far future, but the time it appends has wrapped around into the
  past, and the replay at any later time deletes the key.\<close>

theorem overflowing_expire_deletes_key:
  assumes "from_resp2 v = Ret (Ok c)" "relative_expiry c = Some (k, d, ms)" "is_text k" "\<not> overflow_checks (r_env w)"
    "\<not> poisoned (h_store st)" "fmlookup (data (inner (h_store st))) k \<noteq> None" "h_aof st = Some a" "buffered a = []"
    "write_result (r_append w) = Written" "r_send w = Ok ()" "as_secs (now_at (r_env w) 0 + d) \<le> i64_max"
    "0 \<le> unix_at (r_env w) 2" "as_millis (unix_at (r_env w) 2) \<le> int u64_max" "ms \<le> u64_max"
    "int u64_max < as_millis (unix_at (r_env w) 2) + int ms"
    "\<not> poisoned s" "unix_at (r_env w) 2 \<le> unix_at (es 0) 0" "as_millis (unix_at (es 0) 0) \<le> int u64_max"
  shows "\<exists>st' a' entry s'. handle_request x w v st = (Ret (Ok ()), st') \<and> h_out st' = h_out st @ encode (Integer 1) \<and>
     h_store st' = put_deadline k (now_at (r_env w) 0 + d) (h_store st) \<and> h_aof st' = Some a' \<and>
     aof_file a' = aof_file a @ entry \<and> replay x es 0 entry s = (Ret (Ok ()), s') \<and>
     (\<forall>t. keyspace t (inner s') k = None)"
proof -
  let ?b = "as_millis (unix_at (r_env w) 2)" and ?u = "unix_at (es 0) 0"
  define m where "m = nat ?b + ms - Suc u64_max"
  have b: "0 \<le> ?b" using assms(12) by (simp add: as_millis_def pos_imp_zdiv_nonneg_iff)
  have m: "m \<le> u64_max" "int m < ?b" using assms(13-15) b by (auto simp: m_def)
  have over: "Suc u64_max \<le> nat ?b + ms" "nat ?b + ms - Suc u64_max < Suc u64_max"
    using assms(13-15) b by (auto simp: nat_add_distrib)
  then have "(nat ?b + ms) mod Suc u64_max = m" unfolding m_def by (metis le_mod_geq mod_less)
  then have add: "u64_add (overflow_checks (r_env w)) (unix_millis_or_default (unix_at (r_env w) 2)) ms = Ret m"
    using assms(4,12,13) b over(1) by (simp add: u64_add_def unix_millis_or_default_def cast_simps max_def)
  have u: "?b \<le> as_millis ?u" "0 \<le> ?u" using assms(12,17) by (simp_all add: as_millis_def zdiv_mono1)
  with m(2) have "m \<le> nat (as_millis ?u)" by linarith
  with u have "exec_pexpire_at (es 0) k m s = (Ret (Integer 0), s\<lparr>inner := inner_remove k (inner s)\<rparr>)"
    using m(2) assms(16,18) b
    by (simp add: exec_pexpire_at_def unix_ms_def cast_simps bind_op_def pure_op_def ret_op_def store_delete_def with_write_def)
  then have "replay x es 0 (encode (pexpireat_frame k m)) s = (Ret (Ok ()), s\<lparr>inner := inner_remove k (inner s)\<rparr>)"
    by (simp add: replay_frame [OF assms(3) m(1)])
  with relative_handled [OF assms(1,2,5-11) add, of x] show ?thesis by (force simp: keyspace_remove)
qed

theorem overflowing_expire_deletes_key_witness:
  "let s = snd (store_set ''k'' (Str ''v'') store_new)
   in \<exists>st' a' s'. handle_request \<lparr>lazyfree_lazy_user_flush = False\<rparr> (demo_world 5000000)
        (request (command_args (PExpire ''k'' u64_max))) (demo_handler s) = (Ret (Ok ()), st') \<and>
      h_out st' = encode (Integer 1) \<and> h_aof st' = Some a' \<and>
      replay \<lparr>lazyfree_lazy_user_flush = False\<rparr> (\<lambda>_. demo_env 6000000 6000000) 0 (aof_file a') s = (Ret (Ok ()), s') \<and>
      keyspace 6000000 (inner s') ''k'' = None"
proof -
  let ?s = "snd (store_set ''k'' (Str ''v'') store_new)" and ?c = "PExpire ''k'' u64_max"
  let ?a = "\<lparr>aof_file = [], buffered = [], synced = 0, fsync_mode = Always\<rparr>" and ?x = "\<lparr>lazyfree_lazy_user_flush = False\<rparr>"
  have v: "from_resp2 (request (command_args ?c)) = Ret (Ok ?c)"
    using parse_canonical [of ?c] from_resp2_request [of "hd (command_args ?c)" "tl (command_args ?c)"]
    by (simp flip: command_args_Cons)
  have w: "h_aof (demo_handler ?s) = Some ?a" "r_env (demo_world 5000000) = demo_env 5000000 5000000"
    "write_result (r_append (demo_world 5000000)) = Written" "r_send (demo_world 5000000) = Ok ()" "h_out (demo_handler ?s) = []"
    by (simp_all add: demo_handler_def demo_world_def)
  have k: "is_text ''k''" by (simp add: is_text_def vec_capacity_ok_def)
  show ?thesis
    unfolding Let_def
    using overflowing_expire_deletes_key [OF v, of "''k''" "from_millis u64_max" u64_max "demo_world 5000000" "demo_handler ?s" ?a ?s
        "\<lambda>_. demo_env 6000000 6000000" ?x] demo_key_store [of "''k''" "Str ''v''"] k
    by (simp add: w demo_handler_store as_millis_def as_secs_def from_millis_def) blast
qed

end
