(* ===== verification/Locality.thy ===== *)
theory Locality
  imports Executor
begin

text \<open>
  Which keys a command touches.  A store operation is local to a set of keys when it changes nothing
  outside them and neither its result nor what it does to them depends on anything else but the poison
  flag.  Every command that names its keys is local to them, at the level of store calls, so that
  commands on different keys commute.
\<close>

section \<open>Agreement\<close>

definition same_at :: "string \<Rightarrow> store_inner \<Rightarrow> store_inner \<Rightarrow> bool" where
  "same_at k g h \<longleftrightarrow> fmlookup (data g) k = fmlookup (data h) k \<and> fmlookup (expiry_index g) k = fmlookup (expiry_index h) k"

definition agree :: "string set \<Rightarrow> store \<Rightarrow> store \<Rightarrow> bool" where
  "agree K s t \<longleftrightarrow> poisoned s = poisoned t \<and> (\<forall>k \<in> K. same_at k (inner s) (inner t))"

lemma same_at_refl [simp]: "same_at k g g"
  by (simp add: same_at_def)

lemma same_at_sym: "same_at k g h \<Longrightarrow> same_at k h g"
  by (simp add: same_at_def)

lemma same_at_trans: "same_at k g h \<Longrightarrow> same_at k h i \<Longrightarrow> same_at k g i"
  by (simp add: same_at_def)

lemma agree_refl [simp]: "agree K s s"
  by (simp add: agree_def)

lemma agree_sym: "agree K s t \<Longrightarrow> agree K t s"
  by (auto simp: agree_def same_at_def)

lemma agree_trans: "agree K s t \<Longrightarrow> agree K t u \<Longrightarrow> agree K s u"
  by (auto simp: agree_def same_at_def)

lemma agree_mono: "agree K s t \<Longrightarrow> L \<subseteq> K \<Longrightarrow> agree L s t"
  by (auto simp: agree_def)

lemma agree_UNIV: "agree UNIV s t \<longleftrightarrow> s = t"
  by (auto simp: agree_def same_at_def intro!: store.equality store_inner.equality fmap_lookup_eqI)

section \<open>Local operations\<close>

text \<open>A function on the two maps, and a store operation.\<close>

definition local_inner :: "string set \<Rightarrow> (store_inner \<Rightarrow> 'a \<times> store_inner) \<Rightarrow> bool" where
  "local_inner K f \<longleftrightarrow> (\<forall>g. \<forall>k. k \<notin> K \<longrightarrow> same_at k g (snd (f g))) \<and>
     (\<forall>g h. (\<forall>k \<in> K. same_at k g h) \<longrightarrow> fst (f g) = fst (f h) \<and> (\<forall>k \<in> K. same_at k (snd (f g)) (snd (f h))))"

definition local_fun :: "string set \<Rightarrow> (store \<Rightarrow> 'a \<times> store) \<Rightarrow> bool" where
  "local_fun K f \<longleftrightarrow> (\<forall>s. \<forall>k. k \<notin> K \<longrightarrow> same_at k (inner s) (inner (snd (f s)))) \<and>
     (\<forall>s t. agree K s t \<longrightarrow> fst (f s) = fst (f t) \<and> agree K (snd (f s)) (snd (f t))) \<and>
     (\<forall>s. poisoned s \<longrightarrow> poisoned (snd (f s)))"

definition local_op :: "string set \<Rightarrow> 'a store_op \<Rightarrow> bool" where
  "local_op K m \<longleftrightarrow> local_fun K m \<and> (\<forall>s. fst (m s) \<noteq> Panic \<longrightarrow> poisoned (snd (m s)) = poisoned s)"

lemma local_funD:
  assumes "local_fun K f"
  shows "k \<notin> K \<Longrightarrow> same_at k (inner s) (inner (snd (f s)))"
    "agree K s t \<Longrightarrow> fst (f s) = fst (f t)" "agree K s t \<Longrightarrow> agree K (snd (f s)) (snd (f t))"
    "poisoned s \<Longrightarrow> poisoned (snd (f s))"
  using assms by (auto simp: local_fun_def)

lemma local_op_fun: "local_op K m \<Longrightarrow> local_fun K m"
  by (simp add: local_op_def)

lemmas local_opD = local_funD [OF local_op_fun]

lemma local_op_Ret: "local_op K m \<Longrightarrow> m s = (Ret r, s') \<Longrightarrow> poisoned s' = poisoned s"
  unfolding local_op_def by (metis fst_conv outcome.distinct(1) snd_conv)

lemma local_fun_mono:
  assumes "local_fun K f" "K \<subseteq> L"
  shows "local_fun L f"
proof -
  have frame: "same_at k (inner s) (inner (snd (f s)))" if "k \<notin> L" for s k
    using local_funD(1) [OF assms(1)] that assms(2) by blast
  have "fst (f s) = fst (f t) \<and> agree L (snd (f s)) (snd (f t))" if a: "agree L s t" for s t
  proof -
    have K: "agree K s t" using agree_mono [OF a assms(2)] .
    have "same_at k (inner (snd (f s))) (inner (snd (f t)))" if "k \<in> L" for k
    proof (cases "k \<in> K")
      case True
      then show ?thesis using local_funD(3) [OF assms(1) K] by (simp add: agree_def)
    next
      case False
      have "same_at k (inner u) (inner (snd (f u)))" for u using local_funD(1) [OF assms(1) False] .
      from this [of s] this [of t] a that show ?thesis by (simp add: agree_def same_at_def)
    qed
    with local_funD(2,3) [OF assms(1) K] show ?thesis by (simp add: agree_def)
  qed
  with frame assms(1) show ?thesis unfolding local_fun_def by blast
qed

lemma local_op_mono: "local_op K m \<Longrightarrow> K \<subseteq> L \<Longrightarrow> local_op L m"
  using local_fun_mono by (auto simp: local_op_def)

lemma local_ret: "local_op K (ret_op x)" "local_op K (pure_op p)"
  by (auto simp: local_op_def local_fun_def ret_op_def pure_op_def)

lemma local_bind:
  assumes "local_op K m" "\<And>x. local_op K (f x)"
  shows "local_op K (bind_op m f)"
proof -
  have "same_at k (inner s) (inner (snd (bind_op m f s)))" if "k \<notin> K" for k s
    using local_opD(1) [OF assms(1) that, of s] local_opD(1) [OF assms(2) that]
    by (auto simp: bind_op_def split: prod.splits outcome.splits) (metis same_at_trans snd_conv)
  moreover have "fst (bind_op m f s) = fst (bind_op m f t) \<and> agree K (snd (bind_op m f s)) (snd (bind_op m f t))"
    if a: "agree K s t" for s t
  proof -
    obtain r s' t' where "m s = (r, s')" "m t = (r, t')" "agree K s' t'"
      using local_opD(2,3) [OF assms(1) a] by (metis prod.exhaust_sel)
    then show ?thesis using local_opD(2,3) [OF assms(2)] by (cases r) (auto simp: bind_op_def)
  qed
  moreover have "poisoned (snd (bind_op m f s))" if "poisoned s" for s
    using local_opD(4) [OF assms(1) that] local_opD(4) [OF assms(2)]
    by (auto simp: bind_op_def split: prod.splits outcome.splits)
  moreover have "poisoned (snd (bind_op m f s)) = poisoned s" if np: "fst (bind_op m f s) \<noteq> Panic" for s
  proof -
    obtain y s1 where m: "m s = (Ret y, s1)" using np by (auto simp: bind_op_def split: prod.splits outcome.splits)
    with np have "fst (f y s1) \<noteq> Panic" by (simp add: bind_op_def)
    with assms(2) have "poisoned (snd (f y s1)) = poisoned s1" by (simp add: local_op_def)
    with m local_op_Ret [OF assms(1) m] show ?thesis by (simp add: bind_op_def)
  qed
  ultimately show ?thesis by (auto simp: local_op_def local_fun_def)
qed

lemma local_reply: "local_op K m \<Longrightarrow> local_op K (reply f m)"
  unfolding reply_def by (intro local_bind local_ret)

lemma local_guard: "local_op K m \<Longrightarrow> local_op K (\<lambda>s. if b then (Panic, s) else m s)"
  by (simp add: local_op_def local_fun_def)

lemma local_read: "(\<And>g h. \<forall>k \<in> K. same_at k g h \<Longrightarrow> f g = f h) \<Longrightarrow> local_op K (with_read f)"
  by (auto simp: local_op_def local_fun_def with_read_def agree_def)

lemma local_write:
  assumes "local_inner K f"
  shows "local_op K (with_write f)"
proof -
  have "same_at k (inner s) (inner (snd (with_write f s)))" if "k \<notin> K" for k s
    using assms that by (auto simp: with_write_def local_inner_def split: prod.splits outcome.splits) (metis snd_conv)+
  moreover have "fst (with_write f s) = fst (with_write f t) \<and> agree K (snd (with_write f s)) (snd (with_write f t))"
    if "agree K s t" for s t
  proof -
    have "\<forall>k \<in> K. same_at k (inner s) (inner t)" using that by (simp add: agree_def)
    with assms obtain r g h where "f (inner s) = (r, g)" "f (inner t) = (r, h)" "\<forall>k \<in> K. same_at k g h"
      unfolding local_inner_def by (metis prod.exhaust_sel)
    with that show ?thesis by (cases r) (auto simp: with_write_def agree_def)
  qed
  moreover have "poisoned (snd (with_write f s)) = poisoned s" if "fst (with_write f s) \<noteq> Panic" for s
    using that by (auto simp: with_write_def split: prod.splits outcome.splits if_splits)
  moreover have "poisoned (snd (with_write f s))" if "poisoned s" for s
    using that by (simp add: with_write_def)
  ultimately show ?thesis by (auto simp: local_op_def local_fun_def)
qed

text \<open>A write to one key: what it does there depends on that key only.\<close>

lemma local_inner_single:
  assumes "\<And>g j. j \<noteq> k \<Longrightarrow> same_at j g (snd (f g))"
    "\<And>g h. same_at k g h \<Longrightarrow> fst (f g) = fst (f h) \<and> same_at k (snd (f g)) (snd (f h))"
  shows "local_inner {k} f"
  using assms by (auto simp: local_inner_def)

lemma same_at_get: "same_at k g h \<Longrightarrow> inner_get t k g = inner_get t k h"
  "same_at k g h \<Longrightarrow> inner_get_mut t k g = inner_get_mut t k h"
  by (simp_all add: same_at_def inner_get_def inner_get_mut_def)

lemma same_at_update:
  "same_at j (inner_put k v g) (inner_put k v h) \<longleftrightarrow> j = k \<or> same_at j g h"
  "same_at j (inner_remove k g) (inner_remove k h) \<longleftrightarrow> j = k \<or> same_at j g h"
  "j \<noteq> k \<Longrightarrow> same_at j g (inner_put k v h) \<longleftrightarrow> same_at j g h"
  "j \<noteq> k \<Longrightarrow> same_at j g (inner_remove k h) \<longleftrightarrow> same_at j g h"
  by (auto simp: same_at_def inner_put_def inner_remove_def)

section \<open>The store calls\<close>

lemma fold_frame: "(\<And>x g. x \<in> set xs \<Longrightarrow> same_at j g (u x g)) \<Longrightarrow> same_at j g (fold u xs g)"
proof (induction xs arbitrary: g)
  case (Cons x xs)
  have "same_at j g (u x g)" "same_at j (u x g) (fold u xs (u x g))" using Cons by simp_all
  then show ?case by (auto intro: same_at_trans)
qed simp

lemma fold_same: "(\<And>x g h. same_at j g h \<Longrightarrow> same_at j (u x g) (u x h)) \<Longrightarrow> same_at j g h \<Longrightarrow>
    same_at j (fold u xs g) (fold u xs h)"
  by (induction xs arbitrary: g h) simp_all

lemma local_reads:
  "local_op {k} (store_get t k)" "local_op {k} (store_exists t k)" "local_op {k} (store_get_ttl k)"
  "local_op {k} (store_llen t k)" "local_op {k} (store_lindex t k i)" "local_op {k} (store_lrange t k a b)"
  "local_op {k} (store_smembers e t k)" "local_op {k} (store_smismember t k ms)"
  "local_op {k} (store_srandmember e t k c r)" "local_op {k} (store_scard t k)"
  unfolding store_get_def store_exists_def store_get_ttl_def store_llen_def store_lindex_def store_lrange_def
    store_smembers_def store_smismember_def store_srandmember_def store_scard_def
  by (rule local_read, simp add: same_at_def inner_get_def)+

lemma local_mget: "set ks \<subseteq> K \<Longrightarrow> local_op K (store_mget now ks)"
proof -
  have "mget_loop now i ks g = mget_loop now i ks h" if "set ks \<subseteq> K" "\<forall>k \<in> K. same_at k g h" for i g h
    using that by (induction ks arbitrary: i) (auto simp: same_at_def inner_get_def)
  then show "set ks \<subseteq> K \<Longrightarrow> ?thesis" unfolding store_mget_def by (intro local_read) auto
qed

lemma local_writes_whole:
  "local_op {k} (store_set k v)" "local_op {k} (store_delete k)" "local_op {k} (store_get_del t k)"
  "local_op {k} (store_set_ttl k d)" "local_op {k} (store_persist k)"
  unfolding store_set_def store_delete_def store_get_del_def store_set_ttl_def store_persist_def
  by (rule local_write, rule local_inner_single; auto simp: same_at_def inner_put_def inner_remove_def)+

lemma local_updates:
  "local_inner K (\<lambda>g. (r, g))"
  "k \<in> K \<Longrightarrow> local_inner K (\<lambda>g. (r, inner_put k v g))" "k \<in> K \<Longrightarrow> local_inner K (\<lambda>g. (r, inner_remove k g))"
  "k \<in> K \<Longrightarrow> local_inner K (\<lambda>g. (r, g\<lparr>data := fmupd k v (data g)\<rparr>))"
  "k \<in> K \<Longrightarrow> local_inner K (\<lambda>g. (r, g\<lparr>data := fmdrop k (data g)\<rparr>))"
  "k \<in> K \<Longrightarrow> local_inner K (\<lambda>g. (r, if b then inner_remove k g else g\<lparr>data := fmupd k v (data g)\<rparr>))"
  by (auto simp: local_inner_def same_at_def inner_put_def inner_remove_def)

lemma local_inner_if: "local_inner K f \<Longrightarrow> local_inner K h \<Longrightarrow> local_inner K (\<lambda>g. if b then f g else h g)"
  by (cases b) simp_all

lemma local_inner_prod: "(\<And>x y. local_inner K (f x y)) \<Longrightarrow> local_inner K (\<lambda>g. case p of (x, y) \<Rightarrow> f x y g)"
  by (cases p) simp

lemma local_inner_result:
  "(\<And>e. local_inner K (fe e)) \<Longrightarrow> (\<And>x. local_inner K (fo x)) \<Longrightarrow>
     local_inner K (\<lambda>g. case r of Ok x \<Rightarrow> fo x g | Err e \<Rightarrow> fe e g)"
  by (cases r) simp_all

lemma local_inner_outcome:
  "local_inner K f \<Longrightarrow> (\<And>x. local_inner K (h x)) \<Longrightarrow> local_inner K (\<lambda>g. case r of Panic \<Rightarrow> f g | Ret x \<Rightarrow> h x g)"
  by (cases r) simp_all

lemma local_inner_seq:
  assumes "local_inner K f" "\<And>x. local_inner K (h x)"
  shows "local_inner K (\<lambda>g. case f g of (Panic, g') \<Rightarrow> (Panic, g') | (Ret x, g') \<Rightarrow> h x g')" (is "local_inner K ?s")
  unfolding local_inner_def
proof (intro conjI allI impI)
  show "same_at k g (snd (?s g))" if "k \<notin> K" for k g
    using assms that by (auto simp: local_inner_def split: prod.split outcome.split) (metis same_at_trans snd_conv)+
  fix g g2 assume "\<forall>k \<in> K. same_at k g g2"
  with assms(1) obtain r g' g2' where "f g = (r, g')" "f g2 = (r, g2')" "\<forall>k \<in> K. same_at k g' g2'"
    unfolding local_inner_def by (metis prod.exhaust_sel)
  with assms(2) show "fst (?s g) = fst (?s g2)" "\<forall>k \<in> K. same_at k (snd (?s g)) (snd (?s g2))"
    by (auto simp: local_inner_def split: outcome.split)
qed

text \<open>A function that looks at a key through \<open>get\<close> or \<open>get_mut\<close> first.\<close>

lemma local_inner_get:
  assumes "k \<in> K" "local_inner K fn" "\<And>s. local_inner K (fs s)" "\<And>l. local_inner K (fl l)" "\<And>u. local_inner K (fu u)"
  shows "local_inner K (\<lambda>g. case inner_get t k g of
     None \<Rightarrow> fn g | Some v \<Rightarrow> (case v of Str s \<Rightarrow> fs s g | ListVal l \<Rightarrow> fl l g | SetVal u \<Rightarrow> fu u g))"
    (is "local_inner K ?f")
  unfolding local_inner_def
proof (intro conjI allI impI)
  show "same_at j g (snd (?f g))" if "j \<notin> K" for j g
    using assms that by (auto simp: local_inner_def split: option.split store_value.split)
  fix g h assume s: "\<forall>k \<in> K. same_at k g h"
  then have "inner_get t k g = inner_get t k h" using assms(1) same_at_get(1) by blast
  with assms s show "fst (?f g) = fst (?f h)" "\<forall>k \<in> K. same_at k (snd (?f g)) (snd (?f h))"
    by (auto simp: local_inner_def split: option.split store_value.split)
qed

lemma get_mut_is_get: "inner_get_mut = inner_get"
  by (simp add: fun_eq_iff inner_get_mut_def inner_get_def)

lemmas local_inner_rules = local_inner_get local_inner_if local_inner_prod local_inner_result local_inner_outcome local_inner_seq
  local_updates

lemma local_writes:
  "local_op {k} (store_push_inner t k y c push)" "local_op {k} (store_lset t k i y)"
  "local_op {k} (store_sadd t k ms)" "local_op {k} (store_srem t k ms)" "local_op {k} (store_spop e t k n)"
  "local_op {k} (store_pop_inner t k m pop)"
  unfolding store_push_inner_def store_lset_def store_sadd_def store_srem_def store_spop_def store_pop_inner_def Let_def get_mut_is_get
  by (intro local_write local_guard local_inner_rules singletonI)+

lemma local_mset: "fst ` set kvs \<subseteq> K \<Longrightarrow> local_op K (store_mset kvs)"
  unfolding store_mset_def
proof (rule local_write)
  assume sub: "fst ` set kvs \<subseteq> K"
  let ?u = "\<lambda>(key, value). inner_put key (Str value)"
  have "same_at k g (fold ?u kvs g)" if "k \<notin> K" for k g
  proof (rule fold_frame)
    fix p h assume "p \<in> set kvs"
    with sub that have "k \<noteq> fst p" by auto
    then show "same_at k h (?u p h)" by (cases p) (simp add: same_at_update)
  qed
  moreover have "same_at k (fold ?u kvs g) (fold ?u kvs h)" if "same_at k g h" for k g h
    using that by (rule fold_same [rotated]) (auto simp: same_at_update)
  ultimately show "local_inner K (\<lambda>g. (Ret (), fold ?u kvs g))" by (simp add: local_inner_def)
qed

lemma local_smove: "local_op {a, b} (store_smove t1 t2 t3 t4 a b m)"
  unfolding store_smove_def smove_take_def smove_put_def Let_def get_mut_is_get
  by (intro local_write local_inner_rules) simp_all

section \<open>The commands\<close>

text \<open>The keys a command names; none for the commands that work on the whole database.\<close>

definition footprint :: "command \<Rightarrow> string set option" where
  "footprint c =
     (case c of
        Ping _ \<Rightarrow> Some {} | Select _ \<Rightarrow> Some {}
      | Keys _ \<Rightarrow> None | DbSize \<Rightarrow> None | FlushDb _ \<Rightarrow> None
      | Delete ks \<Rightarrow> Some (set ks) | Exists ks \<Rightarrow> Some (set ks) | MGet ks \<Rightarrow> Some (set ks)
      | MSet kvs \<Rightarrow> Some (fst ` set kvs)
      | SMove a b _ \<Rightarrow> Some {a, b}
      | Get k \<Rightarrow> Some {k} | Set k _ _ _ _ \<Rightarrow> Some {k} | GetDel k \<Rightarrow> Some {k} | StrLen k \<Rightarrow> Some {k}
      | LPush k _ \<Rightarrow> Some {k} | RPush k _ \<Rightarrow> Some {k} | LPushX k _ \<Rightarrow> Some {k} | RPushX k _ \<Rightarrow> Some {k}
      | LPop k _ \<Rightarrow> Some {k} | RPop k _ \<Rightarrow> Some {k} | LSet k _ _ \<Rightarrow> Some {k} | LLen k \<Rightarrow> Some {k}
      | LIndex k _ \<Rightarrow> Some {k} | LRange k _ _ \<Rightarrow> Some {k}
      | SAdd k _ \<Rightarrow> Some {k} | SMembers k \<Rightarrow> Some {k} | SIsMember k _ \<Rightarrow> Some {k} | SMIsMember k _ \<Rightarrow> Some {k}
      | SRandMember k _ \<Rightarrow> Some {k} | SCard k \<Rightarrow> Some {k} | SPop k _ \<Rightarrow> Some {k} | SRem k _ \<Rightarrow> Some {k}
      | Ttl k \<Rightarrow> Some {k} | PTtl k \<Rightarrow> Some {k} | ExpireTime k \<Rightarrow> Some {k} | PExpireTime k \<Rightarrow> Some {k}
      | Persist k \<Rightarrow> Some {k} | Expire k _ \<Rightarrow> Some {k} | PExpire k _ \<Rightarrow> Some {k}
      | ExpireAt k _ \<Rightarrow> Some {k} | PExpireAt k _ \<Rightarrow> Some {k} | Digest k \<Rightarrow> Some {k})"

lemma local_count: "(\<And>i k. local_op {k} (f i k)) \<Longrightarrow> set ks \<subseteq> K \<Longrightarrow> local_op K (count_loop f i ks n)"
proof (induction ks arbitrary: i n)
  case (Cons k ks)
  have "local_op K (f i k)" using Cons.prems(2) by (intro local_op_mono [OF Cons.prems(1)]) simp
  moreover have "set ks \<subseteq> K" using Cons.prems(2) by simp
  ultimately show ?case unfolding count_loop.simps by (intro local_bind Cons.IH Cons.prems(1))
qed (simp add: local_ret)

lemma local_if: "local_op K m \<Longrightarrow> local_op K n \<Longrightarrow> local_op K (if b then m else n)"
  by simp

lemma local_case_option: "local_op K m \<Longrightarrow> (\<And>x. local_op K (f x)) \<Longrightarrow> local_op K (case r of None \<Rightarrow> m | Some x \<Rightarrow> f x)"
  by (cases r) simp_all

lemma local_case_result: "(\<And>x. local_op K (f x)) \<Longrightarrow> (\<And>x. local_op K (g x)) \<Longrightarrow> local_op K (case r of Ok x \<Rightarrow> f x | Err x \<Rightarrow> g x)"
  by (cases r) simp_all

lemma local_push: "(\<And>i y. local_op {k} (f i k y)) \<Longrightarrow> local_op {k} (push_loop now f k i xs n)"
proof (induction xs arbitrary: i n)
  case (Cons y xs)
  show ?case unfolding push_loop.simps by (intro local_bind local_case_result local_ret Cons)
qed (simp add: local_ret)

lemmas local_rules = local_ret local_bind local_reply local_if local_case_option local_case_result
  local_reads local_writes_whole local_writes

lemma local_expiry_step: "local_op {k} (set_expiry_step e k y pt)"
  unfolding set_expiry_step_def by (cases y) (auto intro!: local_rules split: set_expiry.split)

lemma local_set_finish: "local_op {k} (set_finish e k v c y get r)"
  unfolding set_finish_def set_write_def store_set_string_def Let_def by (intro local_rules local_expiry_step)

lemma local_get_string: "local_op {k} (store_get_string t k)" "local_op {k} (store_get_del_string t k)"
  unfolding store_get_string_def store_get_del_string_def by (intro local_rules)+

lemma local_resolve: "local_op {k} (resolve_expiry e k f)"
  unfolding resolve_expiry_def by (intro local_rules)

lemma local_sismember: "local_op {k} (store_sismember e t k m)"
  unfolding store_sismember_def by (intro local_rules)

lemma execute_local: "footprint c = Some K \<Longrightarrow> local_op K (execute x e c)"
  by (cases c) (auto simp: footprint_def exec_ping_def exec_get_def exec_set_def exec_delete_def exec_get_del_def exec_exists_def
      exec_mget_def exec_mset_def exec_strlen_def exec_lpush_def exec_rpush_def exec_lpushx_def exec_rpushx_def
      exec_push_inner_def exec_lpop_def exec_rpop_def exec_pop_inner_def exec_lset_def exec_llen_def exec_lindex_def
      exec_lrange_def exec_sadd_def exec_smembers_def exec_sismember_def exec_smismember_def exec_srandmember_def
      exec_scard_def exec_smove_def exec_spop_def exec_srem_def exec_ttl_def exec_pttl_def exec_expire_time_def
      exec_pexpire_time_def exec_persist_def exec_expire_def exec_pexpire_def exec_expire_at_def exec_pexpire_at_def
      exec_digest_def exec_select_def store_lpush_def store_rpush_def store_lpushx_def store_rpushx_def store_lpop_def
      store_rpop_def Let_def intro!: local_rules local_count local_push local_mget local_mset local_smove local_set_finish
      local_get_string local_resolve local_sismember)

section \<open>Commutation\<close>

text \<open>Two operations on different keys, both returning, can be exchanged.\<close>

lemma local_ops_commute:
  assumes "local_op K m" "local_op L n" "K \<inter> L = {}" "m s = (Ret a, s1)" "n s1 = (Ret b, s2)"
  shows "\<exists>t. n s = (Ret b, t) \<and> m t = (Ret a, s2)"
proof -
  note M = local_opD [OF assms(1)] and N = local_opD [OF assms(2)]
  have p1: "poisoned s1 = poisoned s" "poisoned s2 = poisoned s"
    using local_op_Ret [OF assms(1,4)] local_op_Ret [OF assms(2,5)] by simp_all
  have "agree L s s1" using M(1) [of _ s] assms(3,4) p1 by (auto simp: agree_def)
  then obtain t where t: "n s = (Ret b, t)" "agree L t s2"
    using N(2,3) [of s s1] assms(5) by (metis fst_conv prod.collapse snd_conv)
  have pt: "poisoned t = poisoned s" using local_op_Ret [OF assms(2) t(1)] .
  have "agree K s t" using N(1) [of _ s] assms(3) t(1) pt by (auto simp: agree_def)
  then obtain u where u: "m t = (Ret a, u)" "agree K s1 u"
    using M(2,3) [of s t] assms(4) by (metis fst_conv prod.collapse snd_conv)
  have "same_at k (inner u) (inner s2)" for k
  proof -
    consider "k \<in> K" "k \<notin> L" | "k \<in> L" "k \<notin> K" | "k \<notin> K" "k \<notin> L" using assms(3) by blast
    then show ?thesis
    proof cases
      case 1
      then have "same_at k (inner s1) (inner u)" "same_at k (inner s1) (inner s2)"
        using u(2) N(1) [of k s1] assms(5) by (simp_all add: agree_def)
      then show ?thesis by (simp add: same_at_def)
    next
      case 2
      then have "same_at k (inner t) (inner s2)" "same_at k (inner t) (inner u)"
        using t(2) M(1) [of k t] u(1) by (simp_all add: agree_def)
      then show ?thesis by (simp add: same_at_def)
    next
      case 3
      then have "same_at k (inner s) (inner s1)" "same_at k (inner s1) (inner s2)" "same_at k (inner s) (inner t)"
        "same_at k (inner t) (inner u)"
        using M(1) [of k s] N(1) [of k s1] N(1) [of k s] M(1) [of k t] assms(4,5) t(1) u(1) by simp_all
      then show ?thesis by (simp add: same_at_def)
    qed
  qed
  moreover have "poisoned u = poisoned s2" using local_op_Ret [OF assms(1) u(1)] pt p1 by simp
  ultimately have "u = s2" using agree_UNIV by (auto simp: agree_def)
  with t(1) u(1) show ?thesis by blast
qed

section \<open>Properties\<close>

text \<open>C18: a command touches only the keys it names.  Whatever it answers and whether it returns or panics,
  every other key keeps its value and its deadline, and on two stores that agree on its keys and on the
  state of the lock it answers the same and leaves stores that agree there.\<close>

theorem execute_touches_footprint:
  assumes "footprint c = Some K"
  shows "(\<forall>k. k \<notin> K \<longrightarrow> same_at k (inner s) (inner (snd (execute x e c s)))) \<and>
    (agree K s t \<longrightarrow> fst (execute x e c s) = fst (execute x e c t) \<and>
       agree K (snd (execute x e c s)) (snd (execute x e c t)))"
  using local_opD [OF execute_local [OF assms]] by blast

theorem execute_touches_footprint_witness:
  "same_at ''b'' (inner store_new) (inner (snd (execute \<lparr>lazyfree_lazy_user_flush = False\<rparr> (demo_env 0 0)
     (RPush ''a'' [''x'', ''y'']) store_new)))"
  using execute_touches_footprint [of "RPush ''a'' [''x'', ''y'']" "{''a''}" store_new] by (simp add: footprint_def)

text \<open>Commands on different keys commute: when one returns and then the other, they return the same in
  the other order and leave the same store.\<close>

theorem disjoint_commands_commute:
  assumes "footprint c = Some K" "footprint d = Some L" "K \<inter> L = {}"
    "execute x e c s = (Ret a, s1)" "execute x f d s1 = (Ret b, s2)"
  shows "\<exists>t. execute x f d s = (Ret b, t) \<and> execute x e c t = (Ret a, s2)"
  using local_ops_commute [OF execute_local [OF assms(1)] execute_local [OF assms(2)] assms(3-5)] .

theorem disjoint_commands_commute_witness:
  "\<exists>t s2. execute \<lparr>lazyfree_lazy_user_flush = False\<rparr> (demo_env 0 0) (MSet [(''b'', ''2'')]) store_new = (Ret ok_reply, t) \<and>
     execute \<lparr>lazyfree_lazy_user_flush = False\<rparr> (demo_env 0 0) (MSet [(''a'', ''1'')]) t = (Ret ok_reply, s2)"
proof -
  let ?x = "\<lparr>lazyfree_lazy_user_flush = False\<rparr>"
  have one: "\<exists>u. execute ?x (demo_env 0 0) (MSet [(k, v)]) s = (Ret ok_reply, u) \<and> \<not> poisoned u" if "\<not> poisoned s" for s k v
    using that by (simp add: exec_mset_def store_mset_def op_simps)
  obtain u where u: "execute ?x (demo_env 0 0) (MSet [(''a'', ''1'')]) store_new = (Ret ok_reply, u)" "\<not> poisoned u"
    using one [of store_new] by (auto simp: store_new_def)
  obtain s2 where "execute ?x (demo_env 0 0) (MSet [(''b'', ''2'')]) u = (Ret ok_reply, s2)" using one [OF u(2)] by blast
  with disjoint_commands_commute [OF _ _ _ u(1) this, of "{''a''}" "{''b''}"] show ?thesis by (auto simp: footprint_def)
qed

end
