(* ===== verification/Visibility.thy ===== *)
theory Visibility
  imports Ttl Locality
begin

text \<open>
  The eviction daemon cannot be observed.  A key that has expired is as good as absent to every keyed
  read, so what such a command answers does not depend on whether the daemon has come by.
\<close>

section \<open>Stores that differ in expired keys\<close>

definition stale :: "int \<Rightarrow> store_inner \<Rightarrow> store_inner \<Rightarrow> bool" where
  "stale t g h \<longleftrightarrow> (\<forall>k. same_at k g h \<or>
     expired t k g \<and> fmlookup (data h) k = None \<and> fmlookup (expiry_index h) k = None)"

lemma staleE:
  assumes "stale t g h"
  obtains (same) "same_at k g h"
  | (gone) d where "fmlookup (expiry_index g) k = Some d" "d \<le> t" "fmlookup (data h) k = None" "fmlookup (expiry_index h) k = None"
  using assms by (auto simp: stale_def expired_def split: option.splits)

lemma stale_get:
  assumes "stale t g h" "t \<le> u"
  shows "inner_get u k g = inner_get u k h"
  using assms(1)
proof (cases rule: staleE [where k = k])
  case same
  then show ?thesis by (rule same_at_get(1))
qed (use assms(2) in \<open>simp add: inner_get_def\<close>)

text \<open>An operation that reads, and reads the same in both.\<close>

definition blind :: "int \<Rightarrow> 'a store_op \<Rightarrow> bool" where
  "blind t m \<longleftrightarrow> (\<forall>s s'. poisoned s = poisoned s' \<longrightarrow> stale t (inner s) (inner s') \<longrightarrow>
     fst (m s) = fst (m s') \<and> snd (m s) = s \<and> snd (m s') = s')"

lemma blind_read: "(\<And>g h. stale t g h \<Longrightarrow> f g = f h) \<Longrightarrow> blind t (with_read f)"
  by (auto simp: blind_def with_read_def)

lemma blind_ret: "blind t (ret_op y)" "blind t (pure_op p)"
  by (simp_all add: blind_def ret_op_def pure_op_def)

lemma blind_bind:
  assumes "blind t m" "\<And>y. blind t (f y)"
  shows "blind t (bind_op m f)"
  unfolding blind_def
proof (intro allI impI)
  fix s s' :: store assume s: "poisoned s = poisoned s'" "stale t (inner s) (inner s')"
  then obtain r where "m s = (r, s)" "m s' = (r, s')" using assms(1) unfolding blind_def by (metis prod.collapse)
  with s assms(2) show "fst (bind_op m f s) = fst (bind_op m f s') \<and> snd (bind_op m f s) = s \<and> snd (bind_op m f s') = s'"
    by (cases r) (simp_all add: bind_op_def blind_def)
qed

lemma blind_reply: "blind t m \<Longrightarrow> blind t (reply f m)"
  unfolding reply_def by (intro blind_bind blind_ret)

lemma blind_if: "blind t m \<Longrightarrow> blind t n \<Longrightarrow> blind t (if b then m else n)"
  by simp

lemma blind_option: "blind t m \<Longrightarrow> (\<And>y. blind t (f y)) \<Longrightarrow> blind t (case r of None \<Rightarrow> m | Some y \<Rightarrow> f y)"
  by (cases r) simp_all

lemma blind_result: "(\<And>y. blind t (f y)) \<Longrightarrow> (\<And>y. blind t (g y)) \<Longrightarrow> blind t (case r of Ok y \<Rightarrow> f y | Err y \<Rightarrow> g y)"
  by (cases r) simp_all

section \<open>The reads\<close>

lemma blind_store_exists: "t \<le> u \<Longrightarrow> blind t (store_exists u k)"
  unfolding store_exists_def
proof (rule blind_read)
  fix g h assume "t \<le> u" "stale t g h"
  then show "Ret (fmlookup (data g) k \<noteq> None \<and> (case fmlookup (expiry_index g) k of None \<Rightarrow> True | Some v \<Rightarrow> u < v)) =
      Ret (fmlookup (data h) k \<noteq> None \<and> (case fmlookup (expiry_index h) k of None \<Rightarrow> True | Some v \<Rightarrow> u < v))"
    by (elim staleE [where k = k]) (auto simp: same_at_def)
qed

lemma blind_store_get: "t \<le> u \<Longrightarrow> blind t (store_get u k)"
  unfolding store_get_def
proof (rule blind_read)
  fix g h assume "t \<le> u" "stale t g h"
  then show "Ret (if (case fmlookup (expiry_index g) k of None \<Rightarrow> True | Some v \<Rightarrow> u < v) then fmlookup (data g) k else None) =
      Ret (if (case fmlookup (expiry_index h) k of None \<Rightarrow> True | Some v \<Rightarrow> u < v) then fmlookup (data h) k else None)"
    by (elim staleE [where k = k]) (auto simp: same_at_def)
qed

lemma blind_reads:
  assumes "t \<le> u"
  shows "blind t (store_llen u k)" "blind t (store_lindex u k i)" "blind t (store_lrange u k a b)"
    "blind t (store_smembers e u k)" "blind t (store_smismember u k ms)"
    "blind t (store_srandmember e u k c r)" "blind t (store_scard u k)"
  unfolding store_llen_def store_lindex_def store_lrange_def store_smembers_def store_smismember_def
    store_srandmember_def store_scard_def
  by (rule blind_read, simp add: stale_get [OF _ assms])+

lemma blind_mget: "(\<And>i. t \<le> now i) \<Longrightarrow> blind t (store_mget now ks)"
proof -
  assume t: "\<And>i. t \<le> now i"
  have "mget_loop now i ks g = mget_loop now i ks h" if "stale t g h" for i g h
    using that by (induction ks arbitrary: i) (simp_all add: stale_get [OF _ t])
  then show ?thesis unfolding store_mget_def by (intro blind_read) auto
qed

text \<open>A remaining time: at the instant of its deadline a key that is still there answers zero, so the clock
  has to have moved on.\<close>

lemma blind_resolve:
  assumes "t < now_at e 0"
  shows "blind t (resolve_expiry e k f)"
  unfolding blind_def
proof (intro allI impI)
  fix s s' :: store assume s: "poisoned s = poisoned s'" "stale t (inner s) (inner s')"
  from s(2) show "fst (resolve_expiry e k f s) = fst (resolve_expiry e k f s') \<and>
      snd (resolve_expiry e k f s) = s \<and> snd (resolve_expiry e k f s') = s'"
  proof (cases rule: staleE [where k = k])
    case same
    with s(1) show ?thesis
      by (simp add: resolve_expiry_def bind_op_def store_get_ttl_def store_exists_def with_read_def same_at_def pure_op_def
          ret_op_def split: option.splits outcome.splits)
  next
    case (gone d)
    with s(1) assms show ?thesis
      by (simp add: resolve_expiry_def bind_op_def store_get_ttl_def store_exists_def with_read_def ret_op_def
          checked_duration_since_def)
  qed
qed

lemma blind_count: "(\<And>i k. blind t (f i k)) \<Longrightarrow> blind t (count_loop f i ks n)"
  by (induction ks arbitrary: i n) (auto intro!: blind_bind blind_ret)

definition keyed_read :: "command \<Rightarrow> bool" where
  "keyed_read c \<longleftrightarrow> \<not> is_write c \<and> (\<forall>k i y. c \<noteq> LSet k i y) \<and> footprint c \<noteq> None"

lemma blind_execute:
  assumes "keyed_read c" "\<And>i. t < now_at e i"
  shows "blind t (execute x e c)"
proof -
  have le: "t \<le> now_at e i" for i using assms(2) less_imp_le by blast
  show ?thesis using assms(1)
    by (cases c) (auto simp: keyed_read_def footprint_def exec_ping_def exec_get_def exec_exists_def exec_mget_def exec_strlen_def
      exec_llen_def exec_lindex_def exec_lrange_def exec_smembers_def exec_sismember_def exec_smismember_def
      exec_srandmember_def exec_scard_def exec_ttl_def exec_pttl_def exec_expire_time_def exec_pexpire_time_def
      exec_digest_def exec_select_def store_get_string_def store_sismember_def Let_def
      intro!: blind_ret blind_bind blind_reply blind_if blind_option blind_result blind_count blind_mget blind_reads blind_store_get
        blind_store_exists blind_resolve le assms(2))
qed

lemma stale_removed:
  assumes "\<And>k. k \<in> set ks \<Longrightarrow> expired t k g"
  shows "stale t g (fold inner_remove ks g)"
proof -
  have "fmlookup (data (fold inner_remove ks h)) k = (if k \<in> set ks then None else fmlookup (data h) k) \<and>
      fmlookup (expiry_index (fold inner_remove ks h)) k = (if k \<in> set ks then None else fmlookup (expiry_index h) k)" for k h
    by (induction ks arbitrary: h) (auto simp: inner_remove_def)
  with assms show ?thesis by (auto simp: stale_def same_at_def)
qed

section \<open>Properties\<close>

text \<open>C19: eviction is invisible.  Whatever the daemon's tick samples and removes, every command that reads
  keys it names (\<open>DBSIZE\<close> and \<open>KEYS\<close> walk the whole database) answers afterwards what it would have
  answered without the tick, on clocks that have moved past the tick's.\<close>

theorem eviction_invisible_to_reads:
  assumes "keyed_read c" "\<forall>i. now_at d 0 < now_at e i" "hash_order_ok d" "sample_ok d" "\<not> poisoned s"
  shows "fst (execute x e c (snd (evict_expired d s))) = fst (execute x e c s)"
proof -
  obtain ps where ps: "pick d 16 N (index_entries d (inner s)) = Ret ps" using tick_sample [OF assms(4)] .
  have "stale (now_at d 0) (inner s) (inner (snd (evict_expired d s)))"
    using stale_removed [of "expired_sample (now_at d 0) ps"] expired_sample_expired [OF assms(3,4) ps]
    by (simp add: evict_view [OF assms(5) ps])
  moreover have "poisoned s = poisoned (snd (evict_expired d s))" using evict_returns [OF assms(5,4)] assms(5) by simp
  ultimately show ?thesis using blind_execute [OF assms(1), of "now_at d 0" e x] assms(2) unfolding blind_def by metis
qed

theorem eviction_invisible_to_reads_witness:
  "let s = snd (store_set_ttl ''a'' 5 (snd (store_set ''a'' (Str ''x'') store_new)));
       x = \<lparr>lazyfree_lazy_user_flush = False\<rparr>
   in expired 9 ''a'' (inner s) \<and>
      fst (execute x (demo_env 10 0) (MGet [''a'', ''b'']) (snd (evict_expired (demo_env 9 0) s))) =
      fst (execute x (demo_env 10 0) (MGet [''a'', ''b'']) s)"
proof -
  let ?s = "snd (store_set_ttl ''a'' 5 (snd (store_set ''a'' (Str ''x'') store_new)))"
  have "\<not> poisoned ?s" "expired 9 ''a'' (inner ?s)"
    by (simp_all add: store_set_ttl_def store_set_def op_simps store_new_def inner_put_def expired_def)
  with eviction_invisible_to_reads [of "MGet [''a'', ''b'']" "demo_env 9 0" "demo_env 10 0" ?s "\<lparr>lazyfree_lazy_user_flush = False\<rparr>"]
  show ?thesis by (simp add: Let_def keyed_read_def footprint_def)
qed

end
