(* ===== verification/Progress.thy ===== *)
theory Progress
  imports Races
begin

text \<open>
  No request takes the lock without end.  Every command takes it at most a number of times that its text
  fixes, whatever the others do in between.
\<close>

section \<open>The length of a task\<close>

inductive within :: "nat \<Rightarrow> 'a task \<Rightarrow> bool" where
  ended: "within n (Done r)"
| critical: "(\<And>s. within n (fst (f s))) \<Longrightarrow> within (Suc n) (Section f)"

inductive_cases within_SectionE: "within n (Section f)"

lemma within_mono: "within n t \<Longrightarrow> n \<le> m \<Longrightarrow> within m t"
proof (induction arbitrary: m rule: within.induct)
  case (critical n f)
  then show ?case by (cases m) (auto intro: within.critical)
qed (rule within.ended)

lemma within_atomic: "within 1 (atomic m)"
  using within.critical [of 0 "\<lambda>s. case m s of (r, s') \<Rightarrow> (Done r, s')"]
  by (simp add: atomic_def within.ended split: prod.splits)

lemma within_bind:
  assumes "within n t" "\<And>y. within m (g y)"
  shows "within (n + m) (bind_task t g)"
  using assms(1)
proof (induction rule: within.induct)
  case (ended n r)
  with within_mono [OF assms(2)] show ?case by (cases r) (simp_all add: within.ended)
next
  case (critical n f)
  then show ?case by (auto intro!: within.critical)
qed

lemma within_bindI: "within m t \<Longrightarrow> (\<And>y. within k (g y)) \<Longrightarrow> m + k \<le> n \<Longrightarrow> within n (bind_task t g)"
  by (rule within_mono [OF within_bind])

lemma within_if: "within n t \<Longrightarrow> within n u \<Longrightarrow> within n (if b then t else u)"
  by simp

lemma within_option: "within n t \<Longrightarrow> (\<And>y. within n (f y)) \<Longrightarrow> within n (case r of None \<Rightarrow> t | Some y \<Rightarrow> f y)"
  by (cases r) simp_all

lemma within_result: "(\<And>y. within n (f y)) \<Longrightarrow> (\<And>y. within n (g y)) \<Longrightarrow> within n (case r of Ok y \<Rightarrow> f y | Err y \<Rightarrow> g y)"
  by (cases r) simp_all

lemmas within_rules = within.ended within_if within_option within_result

lemma within_count: "within (length ks) (count_task f i ks n)"
proof (induction ks arbitrary: i n)
  case (Cons k ks)
  show ?case unfolding count_task.simps by (rule within_bindI [OF within_atomic, of "length ks"]) (auto intro: Cons)
qed (simp add: within.ended)

lemma within_push: "within (length xs) (push_task now f k i xs n)"
proof (induction xs arbitrary: i n)
  case (Cons y xs)
  show ?case unfolding push_task.simps
    by (rule within_bindI [OF within_atomic, of "length xs"]) (auto intro: within_rules Cons)
qed (simp add: within.ended)

lemma within_resolve: "within 2 (resolve_expiry_task e k f)"
  unfolding resolve_expiry_task_def
  by (rule within_bindI [OF within_atomic, of 1];
    (intro within_rules within_bindI [OF within_atomic, of 0 _ 1] within_bindI [OF within.ended [of 0], of 1 _ 1])?) simp_all

lemma within_set: "within 4 (set_task e k v c y g)"
proof -
  have wr: "within 3 (set_write_task e k v y)"
    unfolding set_write_task_def
    by (rule within_bindI [of 1 _ 2] within_bindI [OF within_atomic, of 1 _ 2] within_if within_atomic within.ended)+ simp_all
  have "within 3 (set_finish_task e k v c y g r)" for r
    unfolding set_finish_task_def Let_def
    by (rule within_result within_bindI [of 3 _ 0] within_if within_option within.ended wr)+ (simp_all add: within.ended)
  then show ?thesis unfolding set_task_def by (intro within_bindI [OF within_atomic, of 3 _ 4]) simp_all
qed

section \<open>The length of a command\<close>

text \<open>How many times a command takes the lock, at most.\<close>

fun lock_count :: "command \<Rightarrow> nat" where
  "lock_count (Set _ _ _ _ _) = 4"
| "lock_count (Delete ks) = length ks"
| "lock_count (Exists ks) = length ks"
| "lock_count (LPush _ xs) = length xs"
| "lock_count (RPush _ xs) = length xs"
| "lock_count (LPushX _ xs) = length xs"
| "lock_count (RPushX _ xs) = length xs"
| "lock_count (Ttl _) = 2"
| "lock_count (PTtl _) = 2"
| "lock_count (ExpireTime _) = 2"
| "lock_count (PExpireTime _) = 2"
| "lock_count _ = 1"

definition request_locks :: "(command, handler_error) result \<Rightarrow> nat" where
  "request_locks cmd = (case cmd of Ok c \<Rightarrow> lock_count c | Err _ \<Rightarrow> 1)"

lemma within_respond: "within (request_locks cmd) (respond_task x e cmd)"
proof (cases cmd)
  case (Ok c)
  have "within (lock_count c) (exec_task x e c)"
    by (cases c) (simp_all add: exec_task_def within_set within_count within_push within_resolve within_atomic [simplified])
  with Ok show ?thesis by (simp add: respond_task_def request_locks_def)
next
  case (Err h)
  then show ?thesis using within_atomic by (simp add: respond_task_def request_locks_def)
qed

section \<open>The server\<close>

text \<open>The times the handler of a connection has taken the lock, and what its requests allow.\<close>

definition locks_taken :: "nat \<Rightarrow> label list \<Rightarrow> nat" where
  "locks_taken i ls = length (of_client i (sections ls))"

definition locks_allowed :: "nat \<Rightarrow> label list \<Rightarrow> nat" where
  "locks_allowed i ls = sum_list (map (\<lambda>(w, v, cmd). request_locks cmd) (arrived i ls))"

lemma locks_snoc:
  "locks_taken i (ls @ [l]) = locks_taken i ls + (case l of Ran j w cmd \<Rightarrow> if j = i then 1 else 0 | _ \<Rightarrow> 0)"
  "locks_allowed i (ls @ [l]) = locks_allowed i ls + (case l of
     Received j w v \<Rightarrow> (case from_resp2 v of Ret cmd \<Rightarrow> if j = i then request_locks cmd else 0 | Panic \<Rightarrow> 0) | _ \<Rightarrow> 0)"
  by (auto simp: locks_taken_def locks_allowed_def run_labels arrived_snoc split: label.split outcome.split)

fun conn_locks :: "nat \<Rightarrow> nat \<Rightarrow> conn \<Rightarrow> bool" where
  "conn_locks taken allowed (Busy w v cmd t) \<longleftrightarrow> (\<exists>n. within n t \<and> taken + n \<le> allowed)"
| "conn_locks taken allowed _ \<longleftrightarrow> taken \<le> allowed"

lemma conn_locks_le: "conn_locks taken allowed c \<Longrightarrow> taken \<le> allowed"
  by (cases c) auto

lemma locks_step:
  assumes "sys_step x st l st'" "\<forall>i. conn_locks (locks_taken i ls) (locks_allowed i ls) (conns st i)"
  shows "conn_locks (locks_taken i (ls @ [l])) (locks_allowed i (ls @ [l])) (conns st' i)"
proof -
  note own = assms(2) [rule_format, of i] and le = conn_locks_le [OF assms(2) [rule_format, of i]]
  from assms(1) show ?thesis
  proof cases
    case (receive j v cmd w)
    with own le within_respond [of cmd x "r_env w"] show ?thesis by (auto simp: locks_snoc)
  next
    case (critical j w v cmd f t s')
    show ?thesis
    proof (cases "j = i")
      case True
      with own critical(3) obtain n where n: "within n (Section f)" "locks_taken i ls + n \<le> locks_allowed i ls" by auto
      from n(1) obtain m where m: "n = Suc m" "within m t"
        using critical(4) by (auto elim!: within_SectionE) (metis fst_conv)
      with True n(2) critical(1,2) show ?thesis by (auto simp: locks_snoc intro!: exI [of _ m])
    qed (use critical own in \<open>simp add: locks_snoc\<close>)
  qed (use own le in \<open>auto simp: locks_snoc\<close>)
qed

section \<open>Properties\<close>

text \<open>C20: no handler loops.  In every run, whatever the clients send and however the handlers and the
  daemon interleave, the handler of a connection has taken the lock at most as often as its requests
  allow: once for most commands, once for each key or element of the commands that go through a list,
  twice for a remaining time, four times for \<open>SET\<close>.\<close>

theorem lock_sections_bounded:
  assumes "sys_run x (sys_init s aof) ls st"
  shows "length (of_client i (sections ls)) \<le> sum_list (map (\<lambda>(w, v, cmd). request_locks cmd) (arrived i ls))"
proof -
  have "\<forall>i. conn_locks (locks_taken i ls) (locks_allowed i ls) (conns st i)"
    using assms
  proof (induction "sys_init s aof" ls st rule: sys_run.induct)
    case stay
    show ?case by (simp add: locks_taken_def sections_def List.map_filter_def sys_init_def)
  next
    case (move ls st' l st'')
    with locks_step [OF move.hyps(3)] show ?case by blast
  qed
  then show ?thesis using conn_locks_le unfolding locks_taken_def locks_allowed_def by blast
qed

theorem lock_sections_bounded_witness:
  "\<exists>ls st. sys_run \<lparr>lazyfree_lazy_user_flush = False\<rparr> (sys_init store_new None) ls st \<and>
     of_client 1 (sections ls) = [(demo_world 0, Ok (MSet [(''k'', ''v'')]))] \<and>
     length (of_client 1 (sections ls)) \<le> request_locks (Ok (MSet [(''k'', ''v'')]))"
proof -
  let ?x = "\<lparr>lazyfree_lazy_user_flush = False\<rparr>" and ?v = "request [''MSET'', ''k'', ''v'']"
  let ?ls = "[Received 0 (demo_world 0) ?v, Received 1 (demo_world 0) ?v, Ran 1 (demo_world 0) (Ok (MSet [(''k'', ''v'')]))]"
  obtain st where run: "sys_run ?x (sys_init store_new None) ?ls st" using demo_schedule by blast
  have "of_client 1 (sections ?ls) = [(demo_world 0, Ok (MSet [(''k'', ''v'')]))]"
    "arrived 1 ?ls = [(demo_world 0, ?v, Ok (MSet [(''k'', ''v'')]))]"
    by (simp_all add: sections_def arrived_def List.map_filter_def demo_mset)
  with lock_sections_bounded [OF run, of 1] run show ?thesis by (intro exI [of _ ?ls] exI [of _ st]) simp
qed

end
