(* ===== verification/Reference.thy ===== *)
theory Reference
  imports Locality
begin

text \<open>
  The commands as functions on a database: a map from keys to a value and a deadline, without expired
  entries, lock or hash tables.  The executor refines it.
\<close>

section \<open>The reference\<close>

type_synonym entry = "store_value \<times> int option"
type_synonym database = "string \<rightharpoonup> entry"

text \<open>An entry read as a value of one type.\<close>

fun string_at :: "entry option \<Rightarrow> (string option, store_error) result" where
  "string_at None = Ok None"
| "string_at (Some (Str s, d)) = Ok (Some s)"
| "string_at (Some (v, d)) = Err WrongType"

fun list_at :: "entry option \<Rightarrow> (string list option, store_error) result" where
  "list_at None = Ok None"
| "list_at (Some (ListVal l, d)) = Ok (Some l)"
| "list_at (Some (v, d)) = Err WrongType"

fun set_at :: "entry option \<Rightarrow> (string fset option, store_error) result" where
  "set_at None = Ok None"
| "set_at (Some (SetVal s, d)) = Ok (Some s)"
| "set_at (Some (v, d)) = Err WrongType"

text \<open>The updates: a new value under the old deadline, and a deadline on an existing key; a key whose
  deadline has come is gone.\<close>

definition put_in :: "string \<Rightarrow> store_value \<Rightarrow> database \<Rightarrow> database" where
  "put_in k v db = db(k \<mapsto> (v, case db k of Some (_, d) \<Rightarrow> d | None \<Rightarrow> None))"

definition expire_in :: "int \<Rightarrow> string \<Rightarrow> int \<Rightarrow> database \<Rightarrow> database" where
  "expire_in t k d db = (case db k of None \<Rightarrow> db | Some (v, _) \<Rightarrow> db(k := if d \<le> t then None else Some (v, Some d)))"

text \<open>A typed read, and a typed update that gives the reply and the new database.\<close>

definition reading :: "('a, store_error) result \<Rightarrow> ('a \<Rightarrow> resp_value) \<Rightarrow> database \<Rightarrow> resp_value outcome \<times> database" where
  "reading r f db = (Ret (case r of Ok x \<Rightarrow> f x | Err e \<Rightarrow> error_reply e), db)"

definition writing :: "('a, store_error) result \<Rightarrow> ('a \<Rightarrow> resp_value \<times> database) \<Rightarrow> database \<Rightarrow> resp_value outcome \<times> database" where
  "writing r f db = (case r of Ok x \<Rightarrow> map_prod Ret id (f x) | Err e \<Rightarrow> (Ret (error_reply e), db))"

definition ref_set :: "env \<Rightarrow> string \<Rightarrow> string \<Rightarrow> set_condition option \<Rightarrow> set_expiry option \<Rightarrow> bool \<Rightarrow> database
    \<Rightarrow> resp_value outcome \<times> database" where
  "ref_set e k v c x get db = (case string_at (db k) of
       Err err \<Rightarrow> (Ret (error_reply err), db)
     | Ok prev \<Rightarrow>
         if \<not> may_set (xxh3 e) c prev then (Ret (BulkString (if get then prev else None)), db)
         else let written = db(k \<mapsto> (Str v, None)) in
           case set_deadline e x (case db k of Some (_, d) \<Rightarrow> d | None \<Rightarrow> None) of
             Panic \<Rightarrow> (Panic, written)
           | Ret (Err r) \<Rightarrow> (Ret r, written)
           | Ret (Ok d) \<Rightarrow> (Ret (if get then BulkString prev else ok_reply),
               case d of None \<Rightarrow> written | Some d \<Rightarrow> expire_in (now_at e 0) k d written))"

definition ref_push :: "(string list \<Rightarrow> string list) \<Rightarrow> bool \<Rightarrow> string \<Rightarrow> string list \<Rightarrow> database \<Rightarrow> resp_value outcome \<times> database" where
  "ref_push join create k xs db =
     (if xs = [] then (Ret (Integer 0), db)
      else writing (list_at (db k)) (\<lambda>l. case l of
          None \<Rightarrow> if create then (len_reply (length xs), db(k \<mapsto> (ListVal (join []), None))) else (Integer 0, db)
        | Some l \<Rightarrow> (len_reply (length l + length xs), put_in k (ListVal (join l)) db)) db)"

definition ref_pop :: "(nat \<Rightarrow> string list \<Rightarrow> string list \<times> string list) \<Rightarrow> string \<Rightarrow> nat option \<Rightarrow> database
    \<Rightarrow> resp_value outcome \<times> database" where
  "ref_pop part k count db =
     (let n = (case count of None \<Rightarrow> 1 | Some n \<Rightarrow> n) in
      if \<not> vec_capacity_ok 24 n then (Panic, db)
      else writing (list_at (db k)) (\<lambda>l. case l of
          None \<Rightarrow> (BulkString None, db)
        | Some l \<Rightarrow> (case part n l of (popped, rest) \<Rightarrow>
            (pop_reply (count \<noteq> None) (Some popped), if rest = [] then db(k := None) else put_in k (ListVal rest) db))) db)"

definition ref_expiry :: "env \<Rightarrow> string \<Rightarrow> (int \<Rightarrow> int outcome) \<Rightarrow> database \<Rightarrow> resp_value outcome \<times> database" where
  "ref_expiry e k f db =
     ((case db k of
         None \<Rightarrow> Ret (Integer (- 2))
       | Some (_, None) \<Rightarrow> Ret (Integer (- 1))
       | Some (_, Some d) \<Rightarrow> (case f (d - now_at e 0) of Ret n \<Rightarrow> Ret (Integer n) | Panic \<Rightarrow> Panic)), db)"

definition ref_expire :: "env \<Rightarrow> string \<Rightarrow> int option \<Rightarrow> database \<Rightarrow> resp_value outcome \<times> database" where
  "ref_expire e k deadline db = (case deadline of
       None \<Rightarrow> (Ret invalid_expire, db)
     | Some d \<Rightarrow> (Ret (bool_reply (db k \<noteq> None)), expire_in (now_at e 0) k d db))"

definition ref_expire_at :: "env \<Rightarrow> string \<Rightarrow> nat \<Rightarrow> nat outcome \<Rightarrow> int outcome \<Rightarrow> database \<Rightarrow> resp_value outcome \<times> database" where
  "ref_expire_at e k n now deadline db = (case now of
       Panic \<Rightarrow> (Panic, db)
     | Ret m \<Rightarrow>
         if n \<le> m then (Ret (Integer 0), db(k := None))
         else (case deadline of Panic \<Rightarrow> (Panic, db) | Ret d \<Rightarrow> (Ret (bool_reply (db k \<noteq> None)), expire_in (now_at e 0) k d db)))"

definition ref_smove :: "string \<Rightarrow> string \<Rightarrow> string \<Rightarrow> database \<Rightarrow> resp_value outcome \<times> database" where
  "ref_smove a b m db = writing (set_at (db a)) (\<lambda>s. case s of
       None \<Rightarrow> (bool_reply False, db)
     | Some s \<Rightarrow> (case set_at (db b) of
           Err err \<Rightarrow> (error_reply err, db)
         | Ok u \<Rightarrow>
             if m |\<notin>| s then (bool_reply False, db)
             else let taken = (if s |-| {|m|} = {||} then db(a := None) else put_in a (SetVal (s |-| {|m|})) db)
               in (bool_reply True, case set_at (taken b) of
                    Ok (Some u) \<Rightarrow> put_in b (SetVal (finsert m u)) taken
                  | _ \<Rightarrow> taken(b \<mapsto> (SetVal {|m|}, None))))) db"

text \<open>The reference leaves open what depends on the order of a hash table beyond \<open>SMEMBERS\<close>
  (\<open>KEYS\<close>, \<open>SRANDMEMBER\<close>, \<open>SPOP\<close>), and the bounds arithmetic on a list whose length is not an \<open>i64\<close>.\<close>

fun ref :: "env \<Rightarrow> command \<Rightarrow> database \<Rightarrow> (resp_value outcome \<times> database) option" where
  "ref e (Ping m) db = Some (Ret (case m of None \<Rightarrow> SimpleString ''PONG'' | Some msg \<Rightarrow> BulkString (Some msg)), db)"
| "ref e (Get k) db = Some (reading (string_at (db k)) BulkString db)"
| "ref e (Set k v c x get) db = Some (ref_set e k v c x get db)"
| "ref e (Delete ks) db = Some (Ret (Integer (int (card (set ks \<inter> dom db)))), db |` (- set ks))"
| "ref e (GetDel k) db = Some (case reading (string_at (db k)) BulkString db of (r, _) \<Rightarrow> (r, db(k := None)))"
| "ref e (Exists ks) db = Some (Ret (Integer (int (length (filter (\<lambda>k. k \<in> dom db) ks)))), db)"
| "ref e (MGet ks) db = Some (Ret (Array (Some (map (\<lambda>k. BulkString
     (case string_at (db k) of Ok v \<Rightarrow> v | Err _ \<Rightarrow> None)) ks))), db)"
| "ref e (MSet items) db = Some (Ret ok_reply, db ++ (map_option (\<lambda>v. (Str v, None)) \<circ> map_of (rev items)))"
| "ref e (StrLen k) db = Some (reading (string_at (db k)) (\<lambda>v. case v of Some s \<Rightarrow> len_reply (length s) | None \<Rightarrow> Integer 0) db)"
| "ref e (LPush k xs) db = Some (ref_push (\<lambda>l. rev xs @ l) True k xs db)"
| "ref e (RPush k xs) db = Some (ref_push (\<lambda>l. l @ xs) True k xs db)"
| "ref e (LPushX k xs) db = Some (ref_push (\<lambda>l. rev xs @ l) False k xs db)"
| "ref e (RPushX k xs) db = Some (ref_push (\<lambda>l. l @ xs) False k xs db)"
| "ref e (LPop k count) db = Some (ref_pop (\<lambda>n l. (take n l, drop n l)) k count db)"
| "ref e (RPop k count) db = Some (ref_pop (\<lambda>n l. (take n (rev l), take (length l - n) l)) k count db)"
| "ref e (LSet k i x) db = Some (writing (list_at (db k)) (\<lambda>l. case l of
       None \<Rightarrow> (error_reply NoSuchKey, db)
     | Some l \<Rightarrow>
         if 0 \<le> resolve_index i (length l) \<and> resolve_index i (length l) < int (length l)
         then (ok_reply, put_in k (ListVal (l[nat (resolve_index i (length l)) := x])) db)
         else (error_reply OutOfIndex, db)) db)"
| "ref e (LLen k) db = Some (reading (list_at (db k)) (\<lambda>l. case l of None \<Rightarrow> len_reply 0 | Some l \<Rightarrow> len_reply (length l)) db)"
| "ref e (LIndex k i) db = Some (reading (list_at (db k)) (\<lambda>l. BulkString (case l of
       None \<Rightarrow> None
     | Some l \<Rightarrow>
         if 0 \<le> resolve_index i (length l) \<and> resolve_index i (length l) < int (length l)
         then Some (l ! nat (resolve_index i (length l))) else None)) db)"
| "ref e (LRange k a b) db = (case list_at (db k) of
       Ok (Some l) \<Rightarrow>
         if int (length l) \<le> i64_max
         then Some (Ret (bulk_array (map ((!) l) (filter (\<lambda>j. resolve_index a (length l) \<le> int j \<and>
             int j \<le> resolve_index b (length l)) [0..<length l]))), db)
         else None
     | r \<Rightarrow> Some (reading r (\<lambda>_. bulk_array []) db))"
| "ref e (SAdd k ms) db = Some (writing (set_at (db k)) (\<lambda>s. case s of
       None \<Rightarrow> (len_reply (fcard (fset_of_list ms)), db(k \<mapsto> (SetVal (fset_of_list ms), None)))
     | Some s \<Rightarrow> (len_reply (fcard (fset_of_list ms |-| s)), put_in k (SetVal (s |\<union>| fset_of_list ms)) db)) db)"
| "ref e (SMembers k) db = Some (reading (set_at (db k)) (\<lambda>s. bulk_array (case s of None \<Rightarrow> [] | Some s \<Rightarrow> hash_order e s)) db)"
| "ref e (SIsMember k m) db = Some (reading (set_at (db k)) (\<lambda>s. bool_reply (case s of None \<Rightarrow> False | Some s \<Rightarrow> m |\<in>| s)) db)"
| "ref e (SMIsMember k ms) db = Some (reading (set_at (db k)) (\<lambda>s. Array (Some (map (\<lambda>m. bool_reply
     (case s of None \<Rightarrow> False | Some s \<Rightarrow> m |\<in>| s)) ms))) db)"
| "ref e (SCard k) db = Some (reading (set_at (db k)) (\<lambda>s. len_reply (case s of None \<Rightarrow> 0 | Some s \<Rightarrow> fcard s)) db)"
| "ref e (SMove a b m) db = Some (ref_smove a b m db)"
| "ref e (SRem k ms) db = Some (writing (set_at (db k)) (\<lambda>s. case s of
       None \<Rightarrow> (len_reply 0, db)
     | Some s \<Rightarrow> (len_reply (fcard (s |\<inter>| fset_of_list ms)), put_in k (SetVal (s |-| fset_of_list ms)) db)) db)"
| "ref e (Ttl k) db = Some (ref_expiry e k (\<lambda>r. Ret (as_i64 (as_secs r))) db)"
| "ref e (PTtl k) db = Some (ref_expiry e k (\<lambda>r. Ret (as_i64 (as_millis r))) db)"
| "ref e (ExpireTime k) db = Some (ref_expiry e k (\<lambda>r. if unix_at e 0 < 0 then Panic
     else i64_add (overflow_checks e) (as_i64 (as_secs (unix_at e 0))) (as_i64 (as_secs r))) db)"
| "ref e (PExpireTime k) db = Some (ref_expiry e k (\<lambda>r. if unix_at e 0 < 0 then Panic
     else i64_add (overflow_checks e) (as_i64 (as_millis (unix_at e 0))) (as_i64 (as_millis r))) db)"
| "ref e (Persist k) db = Some (case db k of
       Some (v, Some d) \<Rightarrow> (Ret (bool_reply True), db(k \<mapsto> (v, None)))
     | _ \<Rightarrow> (Ret (bool_reply False), db))"
| "ref e (Expire k n) db = Some (ref_expire e k (instant_checked_add (now_at e 0) (from_secs n)) db)"
| "ref e (PExpire k n) db = Some (ref_expire e k (instant_checked_add (now_at e 0) (from_millis n)) db)"
| "ref e (ExpireAt k n) db = Some (ref_expire_at e k n (unix_secs (unix_at e 0)) (unix_secs_to_instant e n) db)"
| "ref e (PExpireAt k n) db = Some (ref_expire_at e k n (unix_ms (unix_at e 0)) (unix_ms_to_instant e n) db)"
| "ref e (Digest k) db = Some (reading (string_at (db k)) (\<lambda>v. BulkString (map_option (\<lambda>s. show_hex16 (xxh3 e s)) v)) db)"
| "ref e (Select n) db = Some (Ret (if n = 0 then ok_reply else SimpleError ''ERR DB index is out of range''), db)"
| "ref e DbSize db = Some (Ret (len_reply (card (dom db))), db)"
| "ref e (FlushDb m) db = Some (Ret ok_reply, Map.empty)"
| "ref e (Keys p) db = None"
| "ref e (SRandMember k n) db = None"
| "ref e (SPop k n) db = None"


section \<open>Stores without leftovers\<close>

text \<open>The keys a command names hold no expired value and no deadline without a value.  (Expired values
  are left until the daemon comes, and a list that is popped empty leaves its deadline.)\<close>

definition tidy :: "int \<Rightarrow> store_inner \<Rightarrow> string \<Rightarrow> bool" where
  "tidy t g k \<longleftrightarrow> (case fmlookup (expiry_index g) k of None \<Rightarrow> True | Some d \<Rightarrow> t < d \<and> fmlookup (data g) k \<noteq> None)"

definition tidy_for :: "int \<Rightarrow> command \<Rightarrow> store_inner \<Rightarrow> bool" where
  "tidy_for t c g \<longleftrightarrow> (case footprint c of Some L \<Rightarrow> \<forall>k \<in> L. tidy t g k | None \<Rightarrow> \<forall>k. tidy t g k)"

lemma tidy_lookup:
  assumes "tidy t g k"
  shows "fmlookup (data g) k = map_option fst (keyspace t g k)"
    "fmlookup (expiry_index g) k = (case keyspace t g k of Some (_, d) \<Rightarrow> d | None \<Rightarrow> None)" "\<not> expired t k g"
  using assms by (auto simp: tidy_def keyspace_def expired_def option.map_comp comp_def option.map_ident split: option.splits)

section \<open>Refinement\<close>

definition refines :: "int \<Rightarrow> 'a outcome \<times> store \<Rightarrow> 'a outcome \<times> database \<Rightarrow> bool" where
  "refines t m r \<longleftrightarrow> fst m = fst r \<and> keyspace t (inner (snd m)) = snd r"

lemma string_at_get: "string_at (keyspace t g k) = (case inner_get t k g of
    None \<Rightarrow> Ok None | Some (Str s) \<Rightarrow> Ok (Some s) | Some _ \<Rightarrow> Err WrongType)"
  by (cases "keyspace t g k" rule: string_at.cases) (auto simp: inner_get_keyspace)

lemma list_at_get: "list_at (keyspace t g k) = (case inner_get t k g of
    None \<Rightarrow> Ok None | Some (ListVal l) \<Rightarrow> Ok (Some l) | Some _ \<Rightarrow> Err WrongType)"
  by (cases "keyspace t g k" rule: list_at.cases) (auto simp: inner_get_keyspace)

lemma set_at_get: "set_at (keyspace t g k) = (case inner_get t k g of
    None \<Rightarrow> Ok None | Some (SetVal s) \<Rightarrow> Ok (Some s) | Some _ \<Rightarrow> Err WrongType)"
  by (cases "keyspace t g k" rule: set_at.cases) (auto simp: inner_get_keyspace)

lemma keyspace_put_in:
  assumes "inner_get t k g = Some v"
  shows "keyspace t (g\<lparr>data := fmupd k w (data g)\<rparr>) = put_in k w (keyspace t g)"
proof -
  obtain d where "keyspace t g k = Some (v, d)" using assms by (auto simp: inner_get_keyspace)
  with keyspace_SomeD [OF this] show ?thesis by (simp add: put_in_def keyspace_update_data)
qed

lemma keyspace_expire_in:
  assumes "fmlookup (data g) k \<noteq> None" "\<not> expired t k g"
  shows "keyspace t (g\<lparr>expiry_index := fmupd k d (expiry_index g)\<rparr>) = expire_in t k d (keyspace t g)"
  using assms by (auto simp: expire_in_def keyspace_def expired_def fun_eq_iff split: option.splits)

text \<open>Reads.\<close>

lemma refines_get: "\<not> poisoned s \<Longrightarrow>
    refines t (reply f (store_get_string t k) s) (reading (string_at (keyspace t (inner s) k)) f (keyspace t (inner s)))"
  by (auto simp: refines_def reading_def reply_def bind_op_def ret_op_def store_get_string_view string_at_get
      split: option.splits store_value.splits)

lemma refines_read:
  assumes "\<not> poisoned s" "r = (case f (inner s) of Ret (Ok y) \<Rightarrow> Ret (h y) | Ret (Err err) \<Rightarrow> Ret (error_reply err) | Panic \<Rightarrow> Panic)"
  shows "refines t (reply h (with_read f) s) (r, keyspace t (inner s))"
  using assms by (auto simp: refines_def op_simps split: outcome.splits result.splits)

lemma refines_list_reads:
  assumes "\<not> poisoned s"
  shows "ref e c (keyspace t (inner s)) = Some r \<Longrightarrow> (\<And>i. now_at e i = t) \<Longrightarrow>
    c \<in> {LLen k, LIndex k i, LRange k a b} \<Longrightarrow> refines t (execute x e c s) r"
  using assms
  by (auto simp: exec_llen_def exec_lindex_def exec_lrange_def store_llen_def store_lindex_def store_lrange_def
      reading_def list_at_get calculate_index_resolve lrange_list_between nat_less_iff
      split: option.splits store_value.splits if_splits intro!: refines_read)

lemma refines_set_reads:
  assumes "\<not> poisoned s" "hash_order_ok e"
  shows "ref e c (keyspace t (inner s)) = Some r \<Longrightarrow> (\<And>i. now_at e i = t) \<Longrightarrow>
    c \<in> {SMembers k, SIsMember k m, SMIsMember k ms, SCard k} \<Longrightarrow> refines t (execute x e c s) r"
proof -
  have mem: "m \<in> set (hash_order e u) \<longleftrightarrow> m |\<in>| u" for u m
    using assms(2) by (auto simp: hash_order_ok_def)
  show "ref e c (keyspace t (inner s)) = Some r \<Longrightarrow> (\<And>i. now_at e i = t) \<Longrightarrow>
    c \<in> {SMembers k, SIsMember k m, SMIsMember k ms, SCard k} \<Longrightarrow> refines t (execute x e c s) r"
  using assms(1)
  by (auto simp: exec_smembers_def exec_sismember_def exec_smismember_def exec_scard_def store_smembers_def
      store_sismember_def store_smismember_def store_scard_def refines_def op_simps
      reading_def set_at_get mem map_replicate_const comp_def split: option.splits store_value.splits)
qed


text \<open>Strings and whole keys.\<close>

lemma refines_set:
  assumes "\<not> poisoned s" "\<And>i. now_at e i = t" "tidy t (inner s) k"
  shows "refines t (exec_set e k v c x get s) (ref_set e k v c x get (keyspace t (inner s)))"
  using assms(2,3)
  by (auto simp: refines_def exec_set_spec [OF assms(1)] set_spec_def ref_set_def Let_def string_at_get tidy_lookup(2)
      keyspace_put keyspace_with_deadline expire_in_def
      split: option.splits store_value.splits outcome.splits result.splits prod.splits)

lemma refines_get_del:
  assumes "\<not> poisoned s"
  shows "refines t (reply BulkString (store_get_del_string t k) s)
    (case reading (string_at (keyspace t (inner s) k)) BulkString (keyspace t (inner s)) of (r, _) \<Rightarrow> (r, (keyspace t (inner s))(k := None)))"
  using store_get_del_view [OF assms, of t k]
  by (cases "store_get_del t k s"; cases "keyspace t (inner s) k" rule: string_at.cases)
    (auto simp: refines_def store_get_del_string_def reply_def bind_op_def ret_op_def reading_def)

lemma mget_ref:
  "mget_loop (\<lambda>_. t) i ks g = map (\<lambda>k. case string_at (keyspace t g k) of Ok v \<Rightarrow> v | Err _ \<Rightarrow> None) ks"
  by (induction ks arbitrary: i) (auto simp: string_at_get split: option.splits store_value.splits)

lemma refines_delete:
  assumes "\<not> poisoned s" "\<forall>k \<in> set ks. tidy t (inner s) k"
  shows "refines t (count_loop (\<lambda>_. store_delete) i ks n s)
    (Ret (Integer (n + int (card (set ks \<inter> dom (keyspace t (inner s)))))), keyspace t (inner s) |` (- set ks))"
  using assms
proof (induction ks arbitrary: i n s)
  case (Cons k ks)
  let ?db = "keyspace t (inner s)" and ?s = "s\<lparr>inner := inner_remove k (inner s)\<rparr>"
  have "fmlookup (data (inner s)) k \<noteq> None \<longleftrightarrow> k \<in> dom ?db" using Cons.prems(2) tidy_lookup(1) by fastforce
  then have step: "count_loop (\<lambda>_. store_delete) i (k # ks) n s =
      count_loop (\<lambda>_. store_delete) (Suc i) ks (n + (if k \<in> dom ?db then 1 else 0)) ?s"
    using Cons.prems(1) by (simp add: store_delete_def op_simps)
  have ks: "keyspace t (inner ?s) = ?db(k := None)" by (simp add: keyspace_remove)
  have "\<not> poisoned ?s" "\<forall>j \<in> set ks. tidy t (inner ?s) j"
    using Cons.prems by (auto simp: tidy_def inner_remove_def split: option.splits)
  then have IH: "refines t (count_loop (\<lambda>_. store_delete) (Suc i) ks (n + (if k \<in> dom ?db then 1 else 0)) ?s)
    (Ret (Integer (n + (if k \<in> dom ?db then 1 else 0) + int (card (set ks \<inter> dom (?db(k := None)))))), (?db(k := None)) |` (- set ks))"
    by (rule Cons.IH [of ?s, unfolded ks])
  have "card (set (k # ks) \<inter> dom ?db) = (if k \<in> dom ?db then 1 else 0) + card (set ks \<inter> dom (?db(k := None)))"
  proof -
    have "set (k # ks) \<inter> dom ?db = (if k \<in> dom ?db then {k} else {}) \<union> (set ks \<inter> dom (?db(k := None)))" by auto
    then show ?thesis by (simp add: card_Un_disjoint)
  qed
  moreover have "(?db(k := None)) |` (- set ks) = ?db |` (- set (k # ks))" by (auto simp: restrict_map_def)
  ultimately have "(Ret (Integer (n + int (card (set (k # ks) \<inter> dom ?db)))), ?db |` (- set (k # ks))) =
      (Ret (Integer (n + (if k \<in> dom ?db then 1 else 0) + int (card (set ks \<inter> dom (?db(k := None)))))), (?db(k := None)) |` (- set ks))"
    by simp
  with IH show ?case unfolding step by (simp only:)
qed (simp add: refines_def ret_op_def restrict_map_def)

lemma exists_ref:
  assumes "\<not> poisoned s"
  shows "count_loop (\<lambda>_. store_exists t) i ks n s =
    (Ret (Integer (n + int (length (filter (\<lambda>k. k \<in> dom (keyspace t (inner s))) ks)))), s)"
proof (induction ks arbitrary: i n)
  case (Cons k ks)
  have "store_exists t k s = (Ret (k \<in> dom (keyspace t (inner s))), s)"
    using assms by (auto simp: store_exists_def op_simps keyspace_def not_expired_iff split: if_splits)
  with Cons show ?case by (simp add: bind_op_def)
qed (simp add: ret_op_def)

text \<open>Lists.\<close>

lemma refines_push:
  assumes op: "push_operation op push create" and len: "\<And>l. foldl push l xs = join l" and s: "\<not> poisoned s"
  shows "refines t (push_loop (\<lambda>_. t) op k 0 xs 0 s) (ref_push join create k xs (keyspace t (inner s)))"
proof (cases "xs = []")
  case True
  then show ?thesis by (simp add: refines_def ret_op_def ref_push_def len_reply_def cast_simps)
next
  case False
  from push_operation.push_batch [OF op s refl False, of t k 0 0] False len show ?thesis
    by (cases "keyspace t (inner s) k" rule: list_at.cases)
      (auto simp: refines_def ref_push_def writing_def put_in_def len_reply_def cast_simps split: if_splits)
qed

lemma refines_pop:
  assumes "\<not> poisoned s" "\<And>l. pop_loop pop (case count of None \<Rightarrow> 1 | Some n \<Rightarrow> n) l = part (case count of None \<Rightarrow> 1 | Some n \<Rightarrow> n) l"
  shows "refines t (reply (pop_reply (count \<noteq> None)) (store_pop_inner t k (case count of None \<Rightarrow> 1 | Some n \<Rightarrow> n) pop) s)
    (ref_pop part k count (keyspace t (inner s)))"
  using assms
  by (auto simp: refines_def store_pop_inner_def op_simps ref_pop_def Let_def writing_def list_at_get pop_reply_def
      keyspace_drop_data keyspace_put_in split: option.splits store_value.splits prod.splits)


lemma refines_lset:
  assumes "\<not> poisoned s" "\<And>i. now_at e i = t" "ref e (LSet k i y) (keyspace t (inner s)) = Some r"
  shows "refines t (exec_lset e k i y s) r"
  using assms
  by (auto simp: exec_lset_def refines_def store_lset_def op_simps writing_def list_at_get calculate_index_resolve
      keyspace_put_in swap_remove_push nat_less_iff split: option.splits store_value.splits if_splits)

text \<open>Sets.\<close>

lemma refines_sadd:
  assumes "\<not> poisoned s" "\<And>i. now_at e i = t" "ref e (SAdd k ms) (keyspace t (inner s)) = Some r"
  shows "refines t (exec_sadd e k ms s) r"
  using assms
  by (auto simp: exec_sadd_def refines_def store_sadd_def op_simps writing_def set_at_get Let_def insert_count_eq
      keyspace_put keyspace_put_in split: option.splits store_value.splits)

lemma refines_srem:
  assumes "\<not> poisoned s" "\<And>i. now_at e i = t" "ref e (SRem k ms) (keyspace t (inner s)) = Some r"
  shows "refines t (exec_srem e k ms s) r"
  using assms
  by (auto simp: exec_srem_def refines_def store_srem_def op_simps writing_def set_at_get remove_count_eq
      keyspace_put_in split: option.splits store_value.splits)

lemma smove_take_ref:
  assumes "inner_get t a g = Some (SetVal u)"
  shows "\<exists>g'. smove_take t a m g = (Ret (), g') \<and> keyspace t g' =
    (if u |-| {|m|} = {||} then (keyspace t g)(a := None) else put_in a (SetVal (u |-| {|m|})) (keyspace t g))"
  using assms by (auto simp: smove_take_def Let_def keyspace_remove keyspace_put_in)

lemma smove_put_ref:
  assumes "set_at (keyspace t g b) = Ok w"
  shows "\<exists>g'. smove_put t b m g = (Ret (Ok True), g') \<and> keyspace t g' = (case set_at (keyspace t g b) of
      Ok (Some u) \<Rightarrow> put_in b (SetVal (finsert m u)) (keyspace t g) | _ \<Rightarrow> (keyspace t g)(b \<mapsto> (SetVal {|m|}, None)))"
  using assms by (auto simp: smove_put_def set_at_get keyspace_put keyspace_put_in split: option.splits store_value.splits)

lemma refines_smove:
  assumes "\<not> poisoned s" "\<And>i. now_at e i = t"
  shows "refines t (exec_smove e a b m s) (ref_smove a b m (keyspace t (inner s)))"
proof -
  let ?db = "keyspace t (inner s)"
  consider (other) "\<forall>u w. set_at (?db a) = Ok (Some u) \<longrightarrow> set_at (?db b) = Ok w \<longrightarrow> m |\<notin>| u"
    | (moves) u w where "set_at (?db a) = Ok (Some u)" "set_at (?db b) = Ok w" "m |\<in>| u" by blast
  then show ?thesis
  proof cases
    case other
    then show ?thesis using assms
      by (auto simp: exec_smove_def refines_def store_smove_def op_simps ref_smove_def writing_def set_at_get Let_def
          split: option.splits store_value.splits if_splits)
  next
    case moves
    have ga: "inner_get t a (inner s) = Some (SetVal u)"
      using moves(1) by (auto simp: set_at_get split: option.splits store_value.splits)
    obtain g1 where g1: "smove_take t a m (inner s) = (Ret (), g1)" "keyspace t g1 =
        (if u |-| {|m|} = {||} then ?db(a := None) else put_in a (SetVal (u |-| {|m|})) ?db)"
      using smove_take_ref [OF ga] by blast
    have "\<exists>w. set_at (keyspace t g1 b) = Ok w" using moves(2) unfolding g1(2) by (auto simp: put_in_def split: option.splits)
    then obtain g2 where g2: "smove_put t b m g1 = (Ret (Ok True), g2)" "keyspace t g2 = (case set_at (keyspace t g1 b) of
        Ok (Some u) \<Rightarrow> put_in b (SetVal (finsert m u)) (keyspace t g1) | _ \<Rightarrow> (keyspace t g1)(b \<mapsto> (SetVal {|m|}, None)))"
      using smove_put_ref by blast
    have "inner_get t b (inner s) = None \<or> (\<exists>z. inner_get t b (inner s) = Some (SetVal z))"
      using moves(2) by (auto simp: set_at_get split: option.splits store_value.splits)
    then have "store_smove t t t t a b m s = (Ret (Ok True), s\<lparr>inner := g2\<rparr>)"
      using assms(1) ga moves(3) g1(1) g2(1) by (auto simp: store_smove_def op_simps Let_def)
    moreover have "ref_smove a b m ?db = (Ret (bool_reply True), keyspace t g2)"
      unfolding g2(2) g1(2) using moves by (simp add: ref_smove_def writing_def Let_def)
    ultimately show ?thesis
      using assms(2) by (simp add: exec_smove_def refines_def reply_def bind_op_def ret_op_def)
  qed
qed

text \<open>Deadlines.\<close>

lemma refines_expiry:
  assumes "\<not> poisoned s" "\<And>i. now_at e i = t" "tidy t (inner s) k"
  shows "refines t (resolve_expiry e k f s) (ref_expiry e k f (keyspace t (inner s)))"
  using assms
  by (auto simp: refines_def resolve_expiry_def op_simps store_get_ttl_def store_exists_def ref_expiry_def tidy_def
      keyspace_def expired_def checked_duration_since_def split: option.splits outcome.splits)

lemma refines_set_ttl:
  assumes "\<not> poisoned s" "tidy t (inner s) k"
  shows "refines t (bind_op (store_set_ttl k d) (\<lambda>b. ret_op (bool_reply b)) s)
    (Ret (bool_reply (keyspace t (inner s) k \<noteq> None)), expire_in t k d (keyspace t (inner s)))"
  using assms(1) tidy_lookup [OF assms(2)]
  by (auto simp: refines_def store_set_ttl_def op_simps keyspace_expire_in) (auto simp: expire_in_def split: option.splits)

lemma refines_expire:
  assumes "\<not> poisoned s" "\<And>i. now_at e i = t" "tidy t (inner s) k"
  shows "refines t ((case d of None \<Rightarrow> ret_op invalid_expire
      | Some d \<Rightarrow> bind_op (store_set_ttl k d) (\<lambda>b. ret_op (bool_reply b))) s) (ref_expire e k d (keyspace t (inner s)))"
  using refines_set_ttl [OF assms(1,3)] assms(2) by (cases d) (simp_all add: ref_expire_def refines_def ret_op_def)

lemma refines_expire_at:
  assumes "\<not> poisoned s" "\<And>i. now_at e i = t" "tidy t (inner s) k"
  shows "refines t (bind_op (pure_op now) (\<lambda>m. if n \<le> m then bind_op (store_delete k) (\<lambda>_. ret_op (Integer 0))
      else bind_op (pure_op deadline) (\<lambda>d. bind_op (store_set_ttl k d) (\<lambda>b. ret_op (bool_reply b)))) s)
    (ref_expire_at e k n now deadline (keyspace t (inner s)))"
  using refines_set_ttl [OF assms(1,3)] assms(1,2)
  by (cases now; cases deadline)
    (auto simp: ref_expire_at_def refines_def store_delete_def op_simps keyspace_remove)

lemma refines_persist:
  assumes "\<not> poisoned s" "tidy t (inner s) k" "ref e (Persist k) (keyspace t (inner s)) = Some r"
  shows "refines t (exec_persist k s) r"
proof -
  have "keyspace t ((inner s)\<lparr>expiry_index := fmdrop k (expiry_index (inner s))\<rparr>) =
      (case keyspace t (inner s) k of Some (v, Some d) \<Rightarrow> (keyspace t (inner s))(k \<mapsto> (v, None)) | _ \<Rightarrow> keyspace t (inner s))"
    using assms(2) by (auto simp: tidy_def keyspace_def expired_def fun_eq_iff split: option.splits)
  with assms show ?thesis
    by (auto simp: exec_persist_def refines_def store_persist_def op_simps tidy_lookup(2) split: option.splits prod.splits)
qed

text \<open>The whole database.\<close>

lemma dbsize_ref:
  assumes "\<not> poisoned s" "\<forall>k. tidy t (inner s) k"
  shows "exec_db_size s = (Ret (len_reply (card (dom (keyspace t (inner s))))), s)"
proof -
  have "fset (fmdom (data (inner s))) = dom (keyspace t (inner s))"
    using tidy_lookup(1) [OF assms(2) [rule_format]] by (auto simp: fmlookup_dom_iff dom_def)
  then have "fcard (fmdom (data (inner s))) = card (dom (keyspace t (inner s)))" by (simp add: fcard.rep_eq)
  with assms(1) show ?thesis by (simp add: exec_db_size_def store_size_def op_simps)
qed


section \<open>The dispatch\<close>

lemma now_frozen: "(\<And>i. now_at e i = t) \<Longrightarrow> now_at e = (\<lambda>_. t)"
  by auto

text \<open>The commands in groups.\<close>

lemma refines_ends:
  assumes "\<not> poisoned s" "\<And>i. now_at e i = t" "tidy_for t c (inner s)" "ref e c (keyspace t (inner s)) = Some r"
    "c \<in> {LPush k xs, RPush k xs, LPushX k xs, RPushX k xs, LPop k n, RPop k n}"
  shows "refines t (execute x e c s) r"
proof -
  note push = refines_push [OF op_lpush.push_operation_axioms foldl_push(1) assms(1)]
    refines_push [OF op_rpush.push_operation_axioms foldl_push(2) assms(1)]
    refines_push [OF op_lpushx.push_operation_axioms foldl_push(1) assms(1)]
    refines_push [OF op_rpushx.push_operation_axioms foldl_push(2) assms(1)]
  note pop = refines_pop [where part = "\<lambda>n l. (take n l, drop n l)", OF assms(1) pop_front_loop]
    refines_pop [where part = "\<lambda>n l. (take n (rev l), take (length l - n) l)", OF assms(1) pop_back_loop]
  from assms(4,5) push pop show ?thesis
    by (auto simp: now_frozen [OF assms(2)] exec_lpush_def exec_rpush_def exec_lpushx_def exec_rpushx_def exec_push_inner_def
        exec_lpop_def exec_rpop_def exec_pop_inner_def store_lpop_def store_rpop_def)
qed

lemma refines_keys:
  assumes "\<not> poisoned s" "\<And>i. now_at e i = t" "tidy_for t c (inner s)" "ref e c (keyspace t (inner s)) = Some r"
    "c \<in> {Ping m, Select n, Exists ks, Delete ks, MGet ks, MSet items, DbSize, FlushDb f}"
  shows "refines t (execute x e c s) r"
proof -
  note tidy = assms(3) [unfolded tidy_for_def footprint_def]
  from assms(5) consider "c \<in> {Ping m, Select n}" | "c = Exists ks" | "c = Delete ks" | "c = MGet ks" | "c = MSet items" | "c = DbSize"
    | "c = FlushDb f" by blast
  then show ?thesis
  proof cases
    case 2
    with assms exists_ref [OF assms(1), of t 0 ks 0] show ?thesis
      by (auto simp: exec_exists_def now_frozen [OF assms(2)] refines_def ret_op_def)
  next
    case 3
    with assms(4) refines_delete [OF assms(1), of ks t 0 0] tidy show ?thesis by (auto simp: exec_delete_def)
  next
    case 4
    with assms show ?thesis by (auto simp: exec_mget_def now_frozen [OF assms(2)] store_mget_def op_simps refines_def mget_ref)
  next
    case 5
    with assms show ?thesis
      by (auto simp: exec_mset_def store_mset_def op_simps refines_def keyspace_mset map_add_def fun_eq_iff split: option.splits)
  next
    case 6
    with assms(4) dbsize_ref [OF assms(1)] tidy show ?thesis by (auto simp: refines_def)
  next
    case 7
    with assms show ?thesis
      by (auto simp: exec_flush_db_def store_clear_def store_clear_async_def op_simps refines_def keyspace_def fun_eq_iff
          split: option.splits flush_mode.splits)
  qed (use assms(4) in \<open>auto simp: refines_def ret_op_def exec_ping_def exec_select_def\<close>)
qed

lemma refines_values:
  assumes "\<not> poisoned s" "\<And>i. now_at e i = t" "tidy_for t c (inner s)" "ref e c (keyspace t (inner s)) = Some r"
    "c \<in> {Get k, Set k v cond y get, GetDel k, StrLen k, Digest k, LSet k i z, SAdd k ms, SRem k ms, SMove k b m}"
  shows "refines t (execute x e c s) r"
  using assms(4,5) assms(3) [unfolded tidy_for_def footprint_def] assms(1,2)
  by (auto simp: exec_get_def exec_strlen_def exec_digest_def digest_value_def exec_get_del_def
      intro!: refines_get refines_set refines_get_del refines_lset refines_sadd refines_srem refines_smove)

lemma refines_deadlines:
  assumes "\<not> poisoned s" "\<And>i. now_at e i = t" "tidy_for t c (inner s)" "ref e c (keyspace t (inner s)) = Some r"
    "c \<in> {Ttl k, PTtl k, ExpireTime k, PExpireTime k, Persist k, Expire k n, PExpire k n, ExpireAt k n, PExpireAt k n}"
  shows "refines t (execute x e c s) r"
  using assms(4,5) assms(3) [unfolded tidy_for_def footprint_def] assms(1,2)
  by (auto simp: exec_ttl_def exec_pttl_def exec_expire_time_def exec_pexpire_time_def exec_expire_def exec_pexpire_def
      exec_expire_at_def exec_pexpire_at_def Let_def cong: if_cong
      intro!: refines_expiry refines_expire refines_expire_at refines_persist)

lemma command_groups:
  "(\<exists>k xs n. c \<in> {LPush k xs, RPush k xs, LPushX k xs, RPushX k xs, LPop k n, RPop k n}) \<or>
   (\<exists>m n ks items f. c \<in> {Ping m, Select n, Exists ks, Delete ks, MGet ks, MSet items, DbSize, FlushDb f}) \<or>
   (\<exists>k v cond y get i z ms b m. c \<in> {Get k, Set k v cond y get, GetDel k, StrLen k, Digest k, LSet k i z, SAdd k ms, SRem k ms, SMove k b m}) \<or>
   (\<exists>k n. c \<in> {Ttl k, PTtl k, ExpireTime k, PExpireTime k, Persist k, Expire k n, PExpire k n, ExpireAt k n, PExpireAt k n}) \<or>
   (\<exists>k i a b. c \<in> {LLen k, LIndex k i, LRange k a b}) \<or> (\<exists>k m ms. c \<in> {SMembers k, SIsMember k m, SMIsMember k ms, SCard k}) \<or>
   (\<exists>p k n m. c \<in> {Keys p, SRandMember k n, SPop k m})"
  by (cases c) simp_all

lemma execute_refines:
  assumes "\<not> poisoned s" "\<And>i. now_at e i = t" "hash_order_ok e" "tidy_for t c (inner s)"
    "ref e c (keyspace t (inner s)) = Some r"
  shows "refines t (execute x e c s) r"
proof -
  note groups = refines_ends [OF assms(1,2,4,5)] refines_keys [OF assms(1,2,4,5)] refines_values [OF assms(1,2,4,5)]
    refines_deadlines [OF assms(1,2,4,5)] refines_list_reads [OF assms(1,5,2)] refines_set_reads [OF assms(1,3,5,2)]
  have "\<not> (\<exists>p k n m. c \<in> {Keys p, SRandMember k n, SPop k m})" using assms(5) by auto
  with command_groups [of c] show ?thesis by (elim disjE exE) (erule groups | blast)+
qed

section \<open>Properties\<close>

text \<open>C12: the executor is the reference database.  Let the clock stand still and the keys that the command
  names hold no leftovers; then for every command the reference settles, on every store, the reply, the
  error or the panic of the executor is the one of the reference, and the live keys, with their values and
  deadlines, change as in the reference.\<close>

theorem execute_refines_reference:
  assumes "\<not> poisoned s" "\<And>i. now_at e i = t" "hash_order_ok e" "tidy_for t c (inner s)"
    "ref e c (keyspace t (inner s)) = Some (r, db)"
  shows "\<exists>s'. execute x e c s = (r, s') \<and> keyspace t (inner s') = db"
  using execute_refines [OF assms, of x] by (cases "execute x e c s") (auto simp: refines_def)

theorem execute_refines_reference_witness:
  "\<exists>s'. execute \<lparr>lazyfree_lazy_user_flush = False\<rparr> (demo_env 3 0) (LPop ''l'' (Some 2))
       (store_new\<lparr>inner := inner_put ''l'' (ListVal [''a'', ''b'', ''c'']) (inner store_new)\<rparr>) =
       (Ret (bulk_array [''a'', ''b'']), s') \<and> keyspace 3 (inner s') = [''l'' \<mapsto> (ListVal [''c''], None)]"
proof (rule execute_refines_reference)
  let ?g = "inner_put ''l'' (ListVal [''a'', ''b'', ''c'']) (inner store_new)"
  have ks: "keyspace 3 ?g = [''l'' \<mapsto> (ListVal [''a'', ''b'', ''c''], None)]"
    by (simp add: keyspace_put keyspace_new fun_eq_iff)
  show "\<not> poisoned (store_new\<lparr>inner := ?g\<rparr>)" by (simp add: store_new_def)
  show "now_at (demo_env 3 0) i = 3" for i by simp
  show "hash_order_ok (demo_env 3 0)" by simp
  show "tidy_for 3 (LPop ''l'' (Some 2)) (inner (store_new\<lparr>inner := ?g\<rparr>))"
    by (simp add: tidy_for_def footprint_def tidy_def inner_put_def)
  show "ref (demo_env 3 0) (LPop ''l'' (Some 2)) (keyspace 3 (inner (store_new\<lparr>inner := ?g\<rparr>))) =
      Some (Ret (bulk_array [''a'', ''b'']), [''l'' \<mapsto> (ListVal [''c''], None)])"
    unfolding store_inner_sel ks
    by (simp add: ref_pop_def writing_def put_in_def vec_capacity_ok_def pop_reply_def numeral_2_eq_2)
qed

end
