(* ===== verification/Reference_Session.thy ===== *)
theory Reference_Session
  imports Reference Persistence
begin

text \<open>
  A whole session against the reference: requests that set no deadlines, sent to a store without
  deadlines.  What the client receives is then a function of what it sends, whatever the clocks show.
\<close>

section \<open>Commands that no clock touches\<close>

fun timeless :: "command \<Rightarrow> bool" where
  "timeless (Set _ _ _ x _) \<longleftrightarrow> x = None"
| "timeless (Expire _ _) \<longleftrightarrow> False"
| "timeless (PExpire _ _) \<longleftrightarrow> False"
| "timeless (ExpireAt _ _) \<longleftrightarrow> False"
| "timeless (PExpireAt _ _) \<longleftrightarrow> False"
| "timeless (Keys _) \<longleftrightarrow> False"
| "timeless (SRandMember _ _) \<longleftrightarrow> False"
| "timeless (SPop _ _) \<longleftrightarrow> False"
| "timeless _ \<longleftrightarrow> True"

lemma reads_same_calm:
  "same_calm (store_exists t k) (store_exists t' k)" "same_calm (store_get_ttl k) (store_get_ttl k)"
  "same_calm store_size store_size" "same_calm (store_llen t k) (store_llen t' k)"
  "same_calm (store_lindex t k i) (store_lindex t' k i)" "same_calm (store_lrange t k a b) (store_lrange t' k a b)"
  "hash_order e = hash_order e' \<Longrightarrow> same_calm (store_smembers e t k) (store_smembers e' t' k)"
  "same_calm (store_smismember t k ms) (store_smismember t' k ms)" "same_calm (store_scard t k) (store_scard t' k)"
  unfolding store_exists_def store_get_ttl_def store_size_def store_llen_def store_lindex_def store_lrange_def
    store_smembers_def store_smismember_def store_scard_def
  by (rule same_calm_read; simp split: option.split store_value.split)+

lemma mget_same_calm: "same_calm (store_mget now ks) (store_mget now' ks)"
proof -
  have "mget_loop now i ks g = mget_loop now' j ks g" if "expiry_index g = fmempty" for i j g
    using that by (induction ks arbitrary: i j) auto
  then show ?thesis unfolding store_mget_def by (intro same_calm_read) simp
qed

lemma get_del_same_calm: "same_calm (store_get_del_string t k) (store_get_del_string t' k)"
proof -
  have "same_calm (store_get_del t k) (store_get_del t' k)"
    unfolding store_get_del_def by (rule same_calm_write) simp
  then show ?thesis unfolding store_get_del_string_def by (intro same_calm_bind same_calm_ret)
qed

lemma lset_same_calm: "same_calm (store_lset t k i y) (store_lset t' k i y)"
  unfolding store_lset_def by (rule same_calm_write) (simp split: option.splits store_value.splits result.splits)

lemma expiry_same_calm: "same_calm (resolve_expiry e k f) (resolve_expiry e' k f')"
  unfolding same_calm_def
  by (auto simp: calm_def resolve_expiry_def store_get_ttl_def store_exists_def op_simps)

lemma sismember_same_calm: "hash_order e = hash_order e' \<Longrightarrow> same_calm (store_sismember e t k m) (store_sismember e' t' k m)"
  unfolding store_sismember_def by (intro same_calm_bind reads_same_calm(7)) (auto split: result.splits)

text \<open>Two worlds with the same hashes.\<close>

lemma timeless_same_calm:
  assumes "timeless c" "xxh3 e = xxh3 e'" "hash_order e = hash_order e'"
  shows "same_calm (execute x e c) (execute x e' c)"
proof (cases "replayable c")
  case True
  from execute_same_calm [OF this assms(2)] show ?thesis .
next
  case False
  with assms(1) show ?thesis
    by (cases c)
      (auto simp: exec_ping_def exec_get_def exec_get_del_def exec_exists_def exec_mget_def exec_strlen_def exec_lset_def
        exec_llen_def exec_lindex_def exec_lrange_def exec_smembers_def exec_sismember_def exec_smismember_def exec_scard_def
        exec_ttl_def exec_pttl_def exec_expire_time_def exec_pexpire_time_def exec_digest_def digest_value_def assms(2)
        exec_select_def exec_db_size_def
        intro!: same_calm_bind same_calm_reply get_string_same_calm get_del_same_calm mget_same_calm lset_same_calm
          expiry_same_calm count_loop_same_calm reads_same_calm assms(3) sismember_same_calm)
qed

text \<open>Nor does a clock touch the reference, on a database without deadlines.\<close>

definition no_deadlines :: "database \<Rightarrow> bool" where
  "no_deadlines db \<longleftrightarrow> (\<forall>k v d. db k = Some (v, d) \<longrightarrow> d = None)"

lemma ref_timeless:
  assumes "timeless c" "xxh3 e = xxh3 e'" "hash_order e = hash_order e'" "no_deadlines db"
  shows "ref e c db = ref e' c db"
proof -
  have expiry: "ref_expiry e k f db = ref_expiry e' k f' db" for k f f'
    using assms(4) by (auto simp: ref_expiry_def no_deadlines_def split: option.splits)
  have set: "ref_set e k v d None get db = ref_set e' k v d None get db" for k v d get
    by (auto simp: ref_set_def assms(2) set_deadline_def Let_def split: result.splits option.splits)
  from assms(1) show ?thesis
    by (cases c) (auto simp: assms(2,3) set intro: expiry cong: option.case_cong)
qed

text \<open>One command on a store without deadlines.\<close>

definition contents :: "store \<Rightarrow> database" where
  "contents s = (\<lambda>k. map_option (\<lambda>v. (v, None)) (fmlookup (data (inner s)) k))"

lemma contents_calm: "calm s \<Longrightarrow> keyspace t (inner s) = contents s"
  by (simp add: contents_def calm_def keyspace_calm fun_eq_iff)

lemma execute_timeless:
  assumes "calm s" "\<not> poisoned s" "timeless c" "hash_order_ok e" "ref e c (contents s) = Some (r, db)"
  shows "\<exists>s'. execute x e c s = (r, s') \<and> calm s' \<and> contents s' = db"
proof -
  let ?e = "e\<lparr>now_at := \<lambda>_. 0\<rparr>"
  have same: "execute x e c s = execute x ?e c s" "calm (snd (execute x e c s))"
    using same_calmD [OF timeless_same_calm [OF assms(3), of e ?e x] assms(1)] by auto
  have "no_deadlines (contents s)" by (auto simp: no_deadlines_def contents_def)
  then have ref: "ref ?e c (keyspace 0 (inner s)) = Some (r, db)"
    using ref_timeless [OF assms(3), of ?e e] assms(5) contents_calm [OF assms(1)] by simp
  have "tidy_for 0 c (inner s)"
    using assms(1) by (simp add: tidy_for_def tidy_def calm_def split: option.split)
  moreover have "hash_order_ok ?e" using assms(4) by (simp add: hash_order_ok_def)
  ultimately have "refines 0 (execute x e c s) (r, db)"
    unfolding same(1) by (intro execute_refines [OF assms(2) _ _ _ ref]) simp_all
  then have "execute x e c s = (r, snd (execute x e c s))" "keyspace 0 (inner (snd (execute x e c s))) = db"
    by (simp_all add: refines_def prod_eq_iff)
  with contents_calm [OF same(2), of 0] same(2) show ?thesis by metis
qed

section \<open>Sessions\<close>

text \<open>The reference of a request, parse errors included, and of a session: the replies in order and the
  database they leave.\<close>

definition ref_respond :: "env \<Rightarrow> (command, handler_error) result \<Rightarrow> database \<Rightarrow> (resp_value outcome \<times> database) option" where
  "ref_respond e cmd db = (case cmd of
       Ok c \<Rightarrow> if timeless c then ref e c db else None
     | Err (UnknownCommand s) \<Rightarrow> Some (Ret (SimpleError (''ERR unknown command '' @ [CHR 0x27] @ s @ [CHR 0x27])), db)
     | Err err \<Rightarrow> Some (Ret (SimpleError (display_handler_error e err)), db))"

fun ref_session :: "(nat \<Rightarrow> env) \<Rightarrow> nat \<Rightarrow> resp_value list \<Rightarrow> database \<Rightarrow> (resp_value list \<times> database) option" where
  "ref_session es i [] db = Some ([], db)"
| "ref_session es i (v # vs) db =
     (case from_resp2 v of
        Ret cmd \<Rightarrow>
          (case ref_respond (es i) cmd db of
             Some (Ret r, db') \<Rightarrow> map_option (\<lambda>(rs, db''). (r # rs, db'')) (ref_session es (Suc i) vs db')
           | _ \<Rightarrow> None)
      | Panic \<Rightarrow> None)"

lemma respond_ref:
  assumes "calm s" "\<not> poisoned s" "hash_order_ok e" "ref_respond e cmd (contents s) = Some (Ret r, db)"
  shows "\<exists>s'. respond x e cmd s = (Ret r, s') \<and> calm s' \<and> \<not> poisoned s' \<and> contents s' = db"
proof (cases cmd)
  case (Ok c)
  with assms(4) have "timeless c" "ref e c (contents s) = Some (Ret r, db)" by (auto simp: ref_respond_def split: if_splits)
  from execute_timeless [OF assms(1,2) this(1) assms(3) this(2)] Ok execute_Ret_healthy assms(2) show ?thesis
    by (fastforce simp: respond_def)
next
  case (Err h)
  with assms show ?thesis by (cases h) (auto simp: ref_respond_def respond_def ret_op_def)
qed

lemma log_timeless: "cmd = Ok c \<Longrightarrow> timeless c \<Longrightarrow> \<exists>a'. log_step w cmd v r a = Ret a'"
  "cmd = Err h \<Longrightarrow> \<exists>a'. log_step w cmd v r a = Ret a'"
  by (cases c; auto simp: log_step_def aof_bytes_def expire_info_def split: option.splits)
    (auto simp: log_step_def is_logged_def is_write_cmd_def split: option.splits)

lemma session_ref:
  assumes "\<forall>v \<in> set vs. wf_resp v" "\<forall>j. r_send (ws j) = Ok () \<and> hash_order_ok (r_env (ws j))"
    "calm (h_store st)" "\<not> poisoned (h_store st)"
    "ref_session (\<lambda>j. r_env (ws j)) i vs (contents (h_store st)) = Some (rs, db)"
  shows "\<exists>st'. run_handler x ws i (concat (map encode vs)) st = (Ret (Ok ()), st') \<and> calm (h_store st') \<and>
    h_out st' = h_out st @ concat (map encode rs) \<and> contents (h_store st') = db"
  using assms(1,3-5)
proof (induction vs arbitrary: i st rs)
  case Nil
  then show ?case by (simp add: run_handler_empty)
next
  case (Cons v vs)
  obtain cmd r db' rs' where r: "from_resp2 v = Ret cmd" "ref_respond (r_env (ws i)) cmd (contents (h_store st)) = Some (Ret r, db')"
    "ref_session (\<lambda>j. r_env (ws j)) (Suc i) vs db' = Some (rs', db)" "rs = r # rs'"
    using Cons.prems(4) by (auto split: outcome.splits option.splits)
  obtain s' where s': "respond x (r_env (ws i)) cmd (h_store st) = (Ret r, s')" "calm s'" "\<not> poisoned s'" "contents s' = db'"
    using respond_ref [OF Cons.prems(2,3) _ r(2)] assms(2) by blast
  have "\<exists>a'. log_step (ws i) cmd v r (h_aof st) = Ret a'"
    using r(2) log_timeless by (cases cmd) (auto simp: ref_respond_def split: if_splits)
  then obtain a' where a': "log_step (ws i) cmd v r (h_aof st) = Ret a'" ..
  let ?st = "st\<lparr>h_store := s', h_aof := a', h_out := h_out st @ encode r\<rparr>"
  have "handle_request x (ws i) v st = (Ret (Ok ()), ?st)"
    using r(1) s'(1) a' assms(2) by (simp add: handle_request_def send_response_def)
  then have "run_handler x ws i (concat (map encode (v # vs))) st = run_handler x ws (Suc i) (concat (map encode vs)) ?st"
    using run_handler_request Cons.prems(1) by simp
  with Cons.IH [of ?st "Suc i" rs'] Cons.prems(1) s' r(3,4) show ?case by auto
qed


section \<open>Properties\<close>



end
