(* ===== verification/Isolation.thy ===== *)
theory Isolation
  imports Races Locality
begin

text \<open>
  Clients that use different keys.  Every critical section of a keyed command is local to the keys the
  command names, so the sections of such clients commute, and each client is served as if it were alone:
  for commands of any number of sections and every interleaving.
\<close>

section \<open>Local tasks\<close>

inductive local_task :: "string set \<Rightarrow> 'a task \<Rightarrow> bool" for K where
  ended: "local_task K (Done r)"
| critical: "local_fun K f \<Longrightarrow> (\<And>s. local_task K (fst (f s))) \<Longrightarrow> local_task K (Section f)"

inductive_cases local_task_SectionE: "local_task K (Section f)"

lemma local_task_mono: "local_task K t \<Longrightarrow> K \<subseteq> L \<Longrightarrow> local_task L t"
  by (induction rule: local_task.induct) (auto intro: local_task.intros local_fun_mono)

lemma local_task_atomic:
  assumes "local_op K m"
  shows "local_task K (atomic m)"
proof -
  have "(\<lambda>s. case m s of (r, s') \<Rightarrow> (Done r, s')) = map_prod Done id \<circ> m" by (auto split: prod.splits)
  moreover have "local_fun K (map_prod Done id \<circ> m)"
    using local_op_fun [OF assms] by (auto simp: local_fun_def)
  ultimately show ?thesis unfolding atomic_def by (auto intro!: local_task.intros)
qed

lemma local_task_bind:
  assumes "local_task K t" "\<And>y. local_task K (g y)"
  shows "local_task K (bind_task t g)"
  using assms(1)
proof (induction rule: local_task.induct)
  case (ended r)
  then show ?case by (cases r) (simp_all add: assms(2) local_task.ended)
next
  case (critical f)
  then show ?case by (auto intro!: local_task.critical simp: local_fun_def)
qed

lemmas local_task_rules = local_task.ended local_task_atomic local_task_bind

lemma local_task_option:
  "local_task K t \<Longrightarrow> (\<And>y. local_task K (f y)) \<Longrightarrow> local_task K (case r of None \<Rightarrow> t | Some y \<Rightarrow> f y)"
  by (cases r) simp_all

lemma local_task_result:
  "(\<And>y. local_task K (f y)) \<Longrightarrow> (\<And>y. local_task K (g y)) \<Longrightarrow> local_task K (case r of Ok y \<Rightarrow> f y | Err y \<Rightarrow> g y)"
  by (cases r) simp_all

lemma local_task_if: "local_task K t \<Longrightarrow> local_task K u \<Longrightarrow> local_task K (if b then t else u)"
  by simp

lemmas local_task_cases = local_task_option local_task_result local_task_if

lemma local_count_task:
  "(\<And>i k. local_op {k} (f i k)) \<Longrightarrow> set ks \<subseteq> K \<Longrightarrow> local_task K (count_task f i ks n)"
proof (induction ks arbitrary: i n)
  case (Cons k ks)
  have "local_op K (f i k)" using Cons.prems(2) by (intro local_op_mono [OF Cons.prems(1)]) simp
  moreover have "set ks \<subseteq> K" using Cons.prems(2) by simp
  ultimately show ?case unfolding count_task.simps by (intro local_task_rules Cons.IH Cons.prems(1))
qed (simp add: local_task.ended)

lemma local_push_task: "(\<And>i y. local_op {k} (f i k y)) \<Longrightarrow> local_task {k} (push_task now f k i xs n)"
proof (induction xs arbitrary: i n)
  case (Cons y xs)
  show ?case unfolding push_task.simps by (intro local_task_rules local_task_cases Cons)
qed (simp add: local_task.ended)

lemma local_set_task: "local_task {k} (set_task e k v c x get)"
  unfolding set_task_def set_finish_task_def set_write_task_def store_set_string_def Let_def
  by (intro local_task_rules local_task_cases local_get_string local_expiry_step local_reads local_writes_whole)

lemma local_resolve_task: "local_task {k} (resolve_expiry_task e k f)"
  unfolding resolve_expiry_task_def
  by (intro local_task_rules local_task_cases local_reads)

lemma local_count_calls: "local_op {k} (store_delete k)" "local_op {k} (store_exists t k)"
  "local_op {k} (store_lpush t k y)" "local_op {k} (store_rpush t k y)"
  "local_op {k} (store_lpushx t k y)" "local_op {k} (store_rpushx t k y)"
  unfolding store_lpush_def store_rpush_def store_lpushx_def store_rpushx_def
  by (rule local_writes_whole local_reads local_writes)+

text \<open>The commands that are not one section.\<close>

lemma exec_task_cases:
  obtains (one) "exec_task x e c = atomic (execute x e c)"
  | (set) k v b y g where "c = Set k v b y g"
  | (delete) ks where "c = Delete ks"
  | (exists) ks where "c = Exists ks"
  | (push) k xs f where "c \<in> {LPush k xs, RPush k xs, LPushX k xs, RPushX k xs}"
      "exec_task x e c = push_task (now_at e) f k 0 xs 0" "\<And>t y. local_op {k} (f t k y)"
  | (expiry) k f where "c \<in> {Ttl k, PTtl k, ExpireTime k, PExpireTime k}" "exec_task x e c = resolve_expiry_task e k f"
proof (cases c)
  case (LPush k xs)
  then show ?thesis using local_count_calls by (intro push [of k xs store_lpush]) (simp_all add: exec_task_def)
next
  case (RPush k xs)
  then show ?thesis using local_count_calls by (intro push [of k xs store_rpush]) (simp_all add: exec_task_def)
next
  case (LPushX k xs)
  then show ?thesis using local_count_calls by (intro push [of k xs store_lpushx]) (simp_all add: exec_task_def)
next
  case (RPushX k xs)
  then show ?thesis using local_count_calls by (intro push [of k xs store_rpushx]) (simp_all add: exec_task_def)
next
  case (Ttl k)
  show ?thesis by (rule expiry [of k]) (simp_all add: Ttl exec_task_def)
next
  case (PTtl k)
  show ?thesis by (rule expiry [of k]) (simp_all add: PTtl exec_task_def)
next
  case (ExpireTime k)
  show ?thesis by (rule expiry [of k]) (simp_all add: ExpireTime exec_task_def)
next
  case (PExpireTime k)
  show ?thesis by (rule expiry [of k]) (simp_all add: PExpireTime exec_task_def)
qed (auto simp: exec_task_def intro: one set delete exists)

lemma exec_task_local:
  assumes "footprint c = Some K"
  shows "local_task K (exec_task x e c)"
proof (cases x e c rule: exec_task_cases)
  case one
  then show ?thesis using local_task_atomic [OF execute_local [OF assms]] by simp
next
  case (set k v b y g)
  with assms local_set_task show ?thesis by (auto simp: exec_task_def footprint_def)
next
  case (delete ks)
  with assms local_count_task [of "\<lambda>_. store_delete", OF local_count_calls(1)] show ?thesis
    by (auto simp: exec_task_def footprint_def)
next
  case (exists ks)
  with assms local_count_task [of "\<lambda>i. store_exists (now_at e i)", OF local_count_calls(2)] show ?thesis
    by (auto simp: exec_task_def footprint_def)
next
  case (push k xs f)
  then have "K = {k}" using assms by (auto simp: footprint_def)
  with push local_push_task show ?thesis by metis
next
  case (expiry k f)
  then have "K = {k}" using assms by (auto simp: footprint_def)
  with expiry(2) local_resolve_task show ?thesis by metis
qed

lemma respond_task_local:
  assumes "\<And>c. cmd = Ok c \<Longrightarrow> \<exists>L. footprint c = Some L \<and> L \<subseteq> K"
  shows "local_task K (respond_task x e cmd)"
proof (cases cmd)
  case (Ok c)
  with assms obtain L where L: "footprint c = Some L" "L \<subseteq> K" by blast
  show ?thesis unfolding respond_task_def Ok result.case by (rule local_task_mono [OF exec_task_local [OF L(1)] L(2)])
next
  case (Err h)
  have "\<exists>r. respond x e (Err h) = ret_op r" by (cases h) (auto simp: respond_def)
  with Err local_ret(1) show ?thesis by (auto simp: respond_task_def intro!: local_task_atomic)
qed

section \<open>A client among others\<close>

text \<open>The requests of a connection, in the form \<open>serial\<close> runs them, and what they do when they run alone.\<close>

definition received :: "nat \<Rightarrow> label list \<Rightarrow> (nat \<times> request_world \<times> (command, handler_error) result) list" where
  "received i ls = map (\<lambda>(w, v, cmd). (i, w, cmd)) (arrived i ls)"

lemma received_snoc: "received i (ls @ [l]) = received i ls @ (case l of
    Received j w v \<Rightarrow> (case from_resp2 v of Ret cmd \<Rightarrow> if j = i then [(i, w, cmd)] else [] | Panic \<Rightarrow> []) | _ \<Rightarrow> [])"
  by (auto simp: received_def arrived_snoc split: label.splits outcome.splits)

definition solo :: "executor \<Rightarrow> (nat \<times> request_world \<times> (command, handler_error) result) list \<Rightarrow> store \<Rightarrow> resp_value outcome list \<times> store" where
  "solo x reqs s = (map snd (fst (serial x reqs s)), snd (serial x reqs s))"

lemma solo_snoc:
  "solo x [] s = ([], s)"
  "solo x (reqs @ [(i, w, cmd)]) s =
     (case solo x reqs s of (ans, u) \<Rightarrow> (case respond x (r_env w) cmd u of (r, u') \<Rightarrow> (ans @ [r], u')))"
  by (auto simp: solo_def serial_snoc split: prod.splits)

text \<open>How a connection stands to that: what it was sent, and the part of the store it uses.\<close>

fun alone :: "executor \<Rightarrow> string set \<Rightarrow> store \<Rightarrow> (nat \<times> request_world \<times> (command, handler_error) result) list
    \<Rightarrow> resp_value outcome list \<Rightarrow> store \<Rightarrow> conn \<Rightarrow> bool" where
  "alone x K s0 reqs sent s Idle \<longleftrightarrow> sent = fst (solo x reqs s0) \<and> agree K s (snd (solo x reqs s0))"
| "alone x K s0 reqs sent s (Busy w v cmd t) \<longleftrightarrow>
     (\<exists>i prev u. reqs = prev @ [(i, w, cmd)] \<and> sent = fst (solo x prev s0) \<and> agree K s u \<and>
        run_task t u = respond x (r_env w) cmd (snd (solo x prev s0)))"
| "alone x K s0 reqs sent s (Answering w r) \<longleftrightarrow>
     fst (solo x reqs s0) = sent @ [Ret r] \<and> agree K s (snd (solo x reqs s0))"
| "alone x K s0 reqs sent s Closed \<longleftrightarrow>
     (sent = fst (solo x reqs s0) \<or> (\<exists>r. fst (solo x reqs s0) = sent @ [r])) \<and> agree K s (snd (solo x reqs s0))"

lemma alone_frame:
  assumes "alone x K s0 reqs sent s c" "agree K s s'"
  shows "alone x K s0 reqs sent s' c"
proof -
  have t: "agree K s u \<Longrightarrow> agree K s' u" for u using agree_trans [OF agree_sym [OF assms(2)]] .
  show ?thesis
  proof (cases c)
    case (Busy w v cmd t)
    with assms(1) obtain i prev u where "reqs = prev @ [(i, w, cmd)]" "sent = fst (solo x prev s0)"
      "agree K s u" "run_task t u = respond x (r_env w) cmd (snd (solo x prev s0))" by auto
    with t Busy show ?thesis by auto
  qed (use assms(1) t in auto)
qed

lemma alone_lag: "alone x K s0 reqs sent s c \<Longrightarrow> prefix sent (fst (solo x reqs s0)) \<and> length (fst (solo x reqs s0)) \<le> Suc (length sent)"
  by (cases c) (auto simp: solo_snoc split: prod.splits)

lemma alone_quiet: "alone x K s0 reqs sent s c \<Longrightarrow> \<forall>w v cmd t. c \<noteq> Busy w v cmd t \<Longrightarrow> agree K s (snd (solo x reqs s0))"
  by (cases c) auto

text \<open>The last section of a task, and those before it.\<close>

lemma alone_done:
  assumes "alone x K s0 reqs sent s (Busy w v cmd (Done r))"
  shows "fst (solo x reqs s0) = sent @ [r]" "agree K s (snd (solo x reqs s0))"
  using assms by (auto simp: solo_snoc pure_op_def split: prod.splits)

lemma alone_section:
  assumes "alone x K s0 reqs sent s (Busy w v cmd (Section f))" "local_fun K f" "f s = (t, s')"
  shows "alone x K s0 reqs sent s' (Busy w v cmd t)"
proof -
  obtain i prev u where u: "reqs = prev @ [(i, w, cmd)]" "sent = fst (solo x prev s0)" "agree K s u"
    "run_task (Section f) u = respond x (r_env w) cmd (snd (solo x prev s0))" using assms(1) by auto
  obtain u' where "f u = (t, u')" "agree K s' u'"
    using local_funD(2,3) [OF assms(2) u(3)] assms(3) by (metis fst_conv prod.collapse snd_conv)
  with u show ?thesis by auto
qed

section \<open>The server\<close>

definition isolated_at :: "executor \<Rightarrow> (nat \<Rightarrow> string set) \<Rightarrow> store \<Rightarrow> label list \<Rightarrow> system \<Rightarrow> bool" where
  "isolated_at x K s0 ls st \<longleftrightarrow> evictor st = ret_task () \<and>
     (\<forall>i w v cmd t. conns st i = Busy w v cmd t \<longrightarrow> local_task (K i) t) \<and>
     (\<not> poisoned (sys_store st) \<longrightarrow>
        (\<forall>k. (\<forall>i. k \<notin> K i) \<longrightarrow> same_at k (inner s0) (inner (sys_store st))) \<and>
        (\<forall>i. alone x (K i) s0 (received i ls) (map Ret (replies i ls)) (sys_store st) (conns st i)))"

text \<open>A step that runs no section only has to keep its own connection in line.\<close>

lemma isolated_silent:
  assumes "isolated_at x K s0 ls st" "sys_store st' = sys_store st" "evictor st' = evictor st"
    "\<And>j. conns st' j = conns st j \<and> received j (ls @ [l]) = received j ls \<and> replies j (ls @ [l]) = replies j ls \<or>
      (\<forall>w v cmd t. conns st' j = Busy w v cmd t \<longrightarrow> local_task (K j) t) \<and>
      (\<not> poisoned (sys_store st) \<longrightarrow>
         alone x (K j) s0 (received j (ls @ [l])) (map Ret (replies j (ls @ [l]))) (sys_store st) (conns st' j))"
  shows "isolated_at x K s0 (ls @ [l]) st'"
  unfolding isolated_at_def using assms(1-3) assms(4) by (simp add: isolated_at_def) metis

lemma isolated_conn:
  "isolated_at x K s0 ls st \<Longrightarrow> \<not> poisoned (sys_store st) \<Longrightarrow> conns st i = c \<Longrightarrow>
     alone x (K i) s0 (received i ls) (map Ret (replies i ls)) (sys_store st) c"
  "isolated_at x K s0 ls st \<Longrightarrow> conns st i = Busy w v cmd t \<Longrightarrow> local_task (K i) t"
  by (auto simp: isolated_at_def)

lemma alone_Closed:
  assumes "alone x K s0 reqs sent s c" "\<And>w v cmd f. c \<noteq> Busy w v cmd (Section f)"
  shows "alone x K s0 reqs sent s Closed"
proof (cases c)
  case (Busy w v cmd t)
  with assms(2) obtain r where "t = Done r" by (cases t) auto
  with alone_done [of x K s0 reqs sent s w v cmd r] assms(1) Busy show ?thesis by auto
qed (use assms(1) in auto)

lemma isolated_close:
  assumes "isolated_at x K s0 ls st" "\<And>w v cmd f. conns st i \<noteq> Busy w v cmd (Section f)" "sys_store st' = sys_store st"
    "evictor st' = evictor st" "conns st' = (conns st)(i := Closed)"
  shows "isolated_at x K s0 (ls @ [Ended i]) st'"
proof (rule isolated_silent [OF assms(1,3,4)])
  fix j
  show "conns st' j = conns st j \<and> received j (ls @ [Ended i]) = received j ls \<and> replies j (ls @ [Ended i]) = replies j ls \<or>
      (\<forall>w v cmd t. conns st' j = Busy w v cmd t \<longrightarrow> local_task (K j) t) \<and>
      (\<not> poisoned (sys_store st) \<longrightarrow>
         alone x (K j) s0 (received j (ls @ [Ended i])) (map Ret (replies j (ls @ [Ended i]))) (sys_store st) (conns st' j))"
  proof (cases "j = i")
    case True
    have "alone x (K i) s0 (received i ls) (map Ret (replies i ls)) (sys_store st) Closed" if "\<not> poisoned (sys_store st)"
      by (rule alone_Closed [OF isolated_conn(1) [OF assms(1) that refl] assms(2)])
    with True assms(5) show ?thesis by (auto simp: run_labels received_snoc)
  qed (use assms(5) in \<open>auto simp: run_labels received_snoc\<close>)
qed

lemma isolated_step:
  assumes "sys_step x st l st'" "isolated_at x K s0 ls st" "\<And>e. l \<noteq> Ticked e"
    "\<And>i w v c. l = Received i w v \<Longrightarrow> from_resp2 v = Ret (Ok c) \<Longrightarrow> \<exists>L. footprint c = Some L \<and> L \<subseteq> K i"
    "\<And>i j. i \<noteq> j \<Longrightarrow> K i \<inter> K j = {}"
  shows "isolated_at x K s0 (ls @ [l]) st'"
  using assms(1)
proof cases
  case (receive i v cmd w)
  have "local_task (K i) (respond_task x (r_env w) cmd)"
    by (rule respond_task_local) (use receive assms(4) in blast)
  moreover have "alone x (K i) s0 (received i (ls @ [l])) (map Ret (replies i (ls @ [l]))) (sys_store st)
      (Busy w v cmd (respond_task x (r_env w) cmd))" if "\<not> poisoned (sys_store st)"
    using isolated_conn(1) [OF assms(2) that receive(3)] receive(1,4)
    by (auto simp: run_labels received_snoc run_respond_task intro!: exI)
  ultimately show ?thesis
    using receive by (intro isolated_silent [OF assms(2)]) (auto simp: run_labels received_snoc)
next
  case (critical i w v cmd f t s')
  have loc: "local_fun (K i) f" "local_task (K i) t"
    using isolated_conn(2) [OF assms(2) critical(3)] critical(4) by (auto elim!: local_task_SectionE) (metis fst_conv)
  have labels: "received j (ls @ [l]) = received j ls" "replies j (ls @ [l]) = replies j ls" for j
    using critical(1) by (simp_all add: run_labels received_snoc)
  have out: "same_at k (inner (sys_store st)) (inner s')" if "k \<notin> K i" for k
    using local_funD(1) [OF loc(1) that, of "sys_store st"] critical(4) by simp
  have pois: "\<not> poisoned (sys_store st)" if "\<not> poisoned s'"
    using local_funD(4) [OF loc(1), of "sys_store st"] critical(4) that by auto
  have "alone x (K j) s0 (received j ls) (map Ret (replies j ls)) s' (conns st' j)" if np: "\<not> poisoned s'" for j
  proof (cases "j = i")
    case True
    with alone_section [OF isolated_conn(1) [OF assms(2) pois [OF np] critical(3)] loc(1) critical(4)] critical(2)
    show ?thesis by simp
  next
    case False
    with assms(5) have "\<And>k. k \<in> K j \<Longrightarrow> k \<notin> K i" by blast
    with out np pois [OF np] have "agree (K j) (sys_store st) s'" by (simp add: agree_def)
    with alone_frame [OF isolated_conn(1) [OF assms(2) pois [OF np] refl]] False critical(2) show ?thesis by simp
  qed
  moreover have "same_at k (inner s0) (inner s')" if "\<not> poisoned s'" "\<forall>i. k \<notin> K i" for k
    using assms(2) pois that out [of k] same_at_trans by (auto simp: isolated_at_def)
  moreover have "local_task (K j) u" if "conns st' j = Busy w' v' cmd' u" for j w' v' cmd' u
    using that loc(2) isolated_conn(2) [OF assms(2)] critical(2) by (cases "j = i") auto
  ultimately show ?thesis using critical(2) assms(2) by (auto simp: isolated_at_def labels)
next
  case (send i w r out)
  have "alone x (K i) s0 (received i (ls @ [l])) (map Ret (replies i (ls @ [l]))) (sys_store st) Idle"
    if "\<not> poisoned (sys_store st)"
    using isolated_conn(1) [OF assms(2) that send(3)] send(1) by (simp add: run_labels received_snoc)
  then show ?thesis using send by (intro isolated_silent [OF assms(2)]) (auto simp: run_labels received_snoc)
next
  case (evict f t s')
  then show ?thesis using assms(2) by (simp add: isolated_at_def)
next
  case (log i w v cmd r aof)
  have "alone x (K i) s0 (received i (ls @ [l])) (map Ret (replies i (ls @ [l]))) (sys_store st) (Answering w r)"
    if "\<not> poisoned (sys_store st)"
    using alone_done [OF isolated_conn(1) [OF assms(2) that log(3)]] log(1) by (simp add: run_labels received_snoc)
  then show ?thesis using log by (intro isolated_silent [OF assms(2)]) (auto simp: run_labels received_snoc)
next
  case (fsync a r)
  then show ?thesis by (intro isolated_silent [OF assms(2)]) (auto simp: run_labels received_snoc)
qed (use assms(2,3) in \<open>auto intro!: isolated_close [OF assms(2)]\<close>)

lemma isolated_poison:
  assumes "sys_step x st l st'" "isolated_at x K s0 ls st" "poisoned (sys_store st)"
  shows "poisoned (sys_store st')"
  using assms(1)
proof cases
  case (critical i w v cmd f t s')
  have "local_fun (K i) f" using isolated_conn(2) [OF assms(2) critical(3)] by (auto elim!: local_task_SectionE)
  from local_funD(4) [OF this assms(3)] critical show ?thesis by simp
qed (use assms(2,3) in \<open>auto simp: isolated_at_def\<close>)

lemma isolated_run:
  assumes "sys_run x (sys_init s aof) ls st" "\<forall>e. Ticked e \<notin> set ls"
    "\<forall>i w v c. Received i w v \<in> set ls \<longrightarrow> from_resp2 v = Ret (Ok c) \<longrightarrow> (\<exists>L. footprint c = Some L \<and> L \<subseteq> K i)"
    "\<forall>i j. i \<noteq> j \<longrightarrow> K i \<inter> K j = {}"
  shows "isolated_at x K s ls st"
  using assms
proof (induction "sys_init s aof" ls st rule: sys_run.induct)
  case stay
  show ?case by (simp add: isolated_at_def sys_init_def received_def arrived_def replies_def List.map_filter_def solo_snoc)
next
  case (move ls st' l st'')
  show ?case by (rule isolated_step [OF move.hyps(3)]) (use move in auto)
qed

text \<open>When nobody is between two sections, what the clients have done alone determines the store.\<close>

lemma quiet_agree:
  assumes "isolated_at x K s ls st" "\<not> poisoned (sys_store st)" "\<forall>i w v cmd t. conns st i \<noteq> Busy w v cmd t"
  shows "agree (K i) (sys_store st) (snd (solo x (received i ls) s))"
  using alone_quiet [OF isolated_conn(1) [OF assms(1,2) refl]] assms(3) by blast

lemma quiet_store:
  assumes "isolated_at x K s ls st" "\<not> poisoned (sys_store st)" "\<forall>i w v cmd t. conns st i \<noteq> Busy w v cmd t"
    "\<forall>i. agree (K i) (snd (solo x (received i ls) s)) t" "\<forall>k. (\<forall>i. k \<notin> K i) \<longrightarrow> same_at k (inner s) (inner t)"
  shows "sys_store st = t"
proof -
  have a: "agree (K i) (sys_store st) t" for i using agree_trans [OF quiet_agree [OF assms(1-3)]] assms(4) by blast
  have "same_at k (inner (sys_store st)) (inner t)" for k
  proof (cases "\<exists>i. k \<in> K i")
    case False
    with assms(1,2) have "same_at k (inner s) (inner (sys_store st))" by (auto simp: isolated_at_def)
    with False assms(5) show ?thesis by (simp add: same_at_def)
  qed (use a in \<open>auto simp: agree_def\<close>)
  with a [of 0] have "agree UNIV (sys_store st) t" by (simp add: agree_def)
  then show ?thesis by (simp only: agree_UNIV)
qed

section \<open>Two clients\<close>

text \<open>A client pushes two elements and another stores a key between the two pushes; they append in the
  other order.\<close>

abbreviation two_clients :: "request_world \<Rightarrow> string \<Rightarrow> string \<Rightarrow> string \<Rightarrow> string \<Rightarrow> string \<Rightarrow> label list" where
  "two_clients w q a b k v \<equiv>
     [Received 0 w (request [''RPUSH'', q, a, b]), Received 1 w (request [''MSET'', k, v]), Ran 0 w (Ok (RPush q [a, b])),
      Ran 1 w (Ok (MSet [(k, v)])), Ran 0 w (Ok (RPush q [a, b])), Appended 1, Appended 0, Sent 0 (len_reply 2),
      Sent 1 ok_reply]"

lemma two_clients_logged: "is_logged (Ok (RPush q xs)) (len_reply 2)" "aof_bytes e (Ok (RPush q xs)) u = Ret (encode u)"
  by (simp_all add: is_logged_def is_write_cmd_def len_reply_def aof_bytes_def expire_info_def cast_simps)

lemma two_clients_run:
  fixes w :: request_world
  assumes "r_send w = Ok ()" "k \<noteq> q"
  shows "\<exists>st. sys_run x (sys_init store_new (Some aof)) (two_clients w q a b k v) st \<and> (\<forall>i. conns st i = Idle) \<and>
     sys_store st = store_new\<lparr>inner := inner_put q (ListVal [a, b]) (inner_put k (Str v) (inner_put q (ListVal [a]) (inner store_new)))\<rparr>"
proof -
  have new: "\<not> poisoned store_new" "inner_get t j (inner store_new) = None" for t j
    by (simp_all add: store_new_def inner_get_def)
  let ?s = "store_new\<lparr>inner := inner_put k (Str v) (inner_put q (ListVal [a]) (inner store_new))\<rparr>"
  have "store_rpush t q b ?s = (Ret (Ok 2), ?s\<lparr>inner := inner_put q (ListVal [a, b]) (inner ?s)\<rparr>)" for t
    using new assms(2)
    by (simp add: store_rpush_def store_push_inner_def op_simps push_back_def inner_put_def inner_get_def store_new_def
      fmdrop_fmupd)
  then obtain st where "schedule x (two_clients w q a b k v) (sys_init store_new (Some aof)) = Some st \<and>
      (\<forall>i. conns st i = Idle) \<and> sys_store st = ?s\<lparr>inner := inner_put q (ListVal [a, b]) (inner ?s)\<rparr>"
    using assms store_rpush_absent [OF new] new
    by (simp add: fire_simps(1) fire_bind fire_append fire_send push_request push_sections fire_atomic exec_mset_one
        sys_init_def demo_mset mset_task mset_logged two_clients_logged)
  then show ?thesis using schedule_run by fastforce
qed

lemma two_clients_keys:
  assumes "Received i w u \<in> set (two_clients w' q a b k v)" "from_resp2 u = Ret (Ok c)"
  shows "\<exists>L. footprint c = Some L \<and> L \<subseteq> (if i = 0 then {q} else if i = 1 then {k} else {})"
  using assms by (auto simp: push_request demo_mset footprint_def)

lemma two_clients_received:
  "received i (two_clients w q a b k v) =
     (if i = 0 then [(0, w, Ok (RPush q [a, b]))] else if i = 1 then [(1, w, Ok (MSet [(k, v)]))] else [])"
  by (simp add: received_def arrived_def List.map_filter_def push_request demo_mset)

section \<open>Properties\<close>

text \<open>C7: clients that use different keys do not notice each other.  Give each connection a set of keys, no
  two sharing one, and let every request name keys of its connection only, in commands of any number of
  critical sections.  In every run without eviction ticks that does not poison the lock, each client has
  received, up to the answer still on its way, exactly what it would have received alone on the initial
  store; the part of the store under its keys is, whenever it has no request under way, the one it would
  have left alone, whoever panicked or hung up; and nobody touches any other key.\<close>

theorem disjoint_clients_isolated:
  assumes "sys_run x (sys_init s aof) ls st" "\<forall>e. Ticked e \<notin> set ls"
    "\<forall>i w v c. Received i w v \<in> set ls \<longrightarrow> from_resp2 v = Ret (Ok c) \<longrightarrow> (\<exists>L. footprint c = Some L \<and> L \<subseteq> K i)"
    "\<forall>i j. i \<noteq> j \<longrightarrow> K i \<inter> K j = {}" "\<not> poisoned (sys_store st)"
  shows "prefix (map Ret (replies i ls)) (fst (solo x (received i ls) s)) \<and>
    length (fst (solo x (received i ls) s)) \<le> Suc (length (replies i ls)) \<and>
    ((\<forall>w v cmd t. conns st i \<noteq> Busy w v cmd t) \<longrightarrow> agree (K i) (sys_store st) (snd (solo x (received i ls) s))) \<and>
    ((\<forall>i. k \<notin> K i) \<longrightarrow> same_at k (inner s) (inner (sys_store st)))"
proof -
  have inv: "isolated_at x K s ls st" by (rule isolated_run [OF assms(1-4)])
  note c = isolated_conn(1) [OF inv assms(5) refl, of i]
  show ?thesis using alone_lag [OF c] alone_quiet [OF c] inv assms(5) by (auto simp: isolated_at_def)
qed

theorem disjoint_clients_isolated_witness:
  "\<exists>ls st. sys_run \<lparr>lazyfree_lazy_user_flush = False\<rparr> (sys_init store_new (h_aof (demo_handler store_new))) ls st \<and>
     replies 0 ls = [len_reply 2] \<and>
     prefix [Ret (len_reply 2)] (fst (solo \<lparr>lazyfree_lazy_user_flush = False\<rparr>
       [(0, demo_world 0, Ok (RPush ''q'' [''a'', ''b'']))] store_new)) \<and>
     agree {''q''} (sys_store st) (snd (solo \<lparr>lazyfree_lazy_user_flush = False\<rparr>
       [(0, demo_world 0, Ok (RPush ''q'' [''a'', ''b'']))] store_new))"
proof -
  let ?x = "\<lparr>lazyfree_lazy_user_flush = False\<rparr>" and ?ls = "two_clients (demo_world 0) ''q'' ''a'' ''b'' ''k'' ''v''"
  let ?K = "\<lambda>i :: nat. if i = 0 then {''q''} else if i = 1 then {''k''} else {}"
  obtain st where run: "sys_run ?x (sys_init store_new (h_aof (demo_handler store_new))) ?ls st"
    and st: "\<not> poisoned (sys_store st)" "conns st 0 = Idle"
    using two_clients_run [of "demo_world 0" "''k''" "''q''" ?x] by (fastforce simp: demo_world_def demo_handler_def store_new_def)
  have rep: "replies 0 ?ls = [len_reply 2]" by (simp add: replies_Cons)
  have foot: "\<forall>i w v c. Received i w v \<in> set ?ls \<longrightarrow> from_resp2 v = Ret (Ok c) \<longrightarrow> (\<exists>L. footprint c = Some L \<and> L \<subseteq> ?K i)"
    using two_clients_keys by blast
  from disjoint_clients_isolated [OF run _ foot _ st(1), of 0] st(2) rep two_clients_received [of 0] run show ?thesis
    by (intro exI [of _ ?ls] exI [of _ st]) auto
qed

end
