(* ===== verification/Quiet_Ticks.thy ===== *)
theory Quiet_Ticks
  imports Isolation
begin

text \<open>
  The eviction daemon of a server whose clients set no deadlines: its ticks find nothing, and a run with
  them is a run without them.
\<close>

section \<open>Stores without deadlines\<close>

fun sets_deadline :: "command \<Rightarrow> bool" where
  "sets_deadline (Set _ _ _ x _) \<longleftrightarrow> x \<noteq> None"
| "sets_deadline (Expire _ _) \<longleftrightarrow> True"
| "sets_deadline (PExpire _ _) \<longleftrightarrow> True"
| "sets_deadline (ExpireAt _ _) \<longleftrightarrow> True"
| "sets_deadline (PExpireAt _ _) \<longleftrightarrow> True"
| "sets_deadline _ \<longleftrightarrow> False"

lemma preserves_calm: "same_calm m m' \<Longrightarrow> preserves calm m"
  by (auto simp: same_calm_def preserves_def)

lemma calm_write: "(\<And>g. expiry_index g = fmempty \<Longrightarrow> expiry_index (snd (f g)) = fmempty) \<Longrightarrow> preserves calm (with_write f)"
  by (rule preserves_calm [OF same_calm_write]) simp

lemma writes_calm:
  "preserves calm (store_lset t k i y)" "preserves calm (store_get_del t k)" "preserves calm (store_spop e t k n)"
  "preserves calm (store_delete_bulk ks)"
proof -
  have "expiry_index (fold inner_remove ks g) = fmempty" if "expiry_index g = fmempty" for g
    using that by (induction ks arbitrary: g) auto
  then show "preserves calm (store_delete_bulk ks)" unfolding store_delete_bulk_def by (intro calm_write) simp
qed (unfold store_lset_def store_get_del_def store_spop_def; rule calm_write;
    simp add: Let_def split: option.splits store_value.splits result.splits outcome.splits)+

lemma execute_calm: "\<not> sets_deadline c \<Longrightarrow> preserves calm (execute x e c)"
proof (cases "replayable c")
  case True
  then show ?thesis by (rule preserves_calm [OF execute_same_calm [OF _ refl]])
next
  case no: False
  assume c: "\<not> sets_deadline c"
  show ?thesis
  proof (cases "is_write c \<or> (\<exists>k i y. c = LSet k i y)")
    case False
    then show ?thesis by (intro preserves_read_only execute_read_only) auto
  next
    case True
    with c no show ?thesis
      by (cases c) (auto simp: exec_lset_def exec_get_del_def exec_spop_def store_get_del_string_def
          intro!: preserves_rules writes_calm)
  qed
qed

interpretation calm_sections: section_invariant calm "\<lambda>_ c. \<not> sets_deadline c"
proof unfold_locales
  show "preserves calm (store_set k v)" for k v by (rule preserves_calm [OF store_same_calm(1)])
  show "preserves calm (store_delete k)" for k by (rule preserves_calm [OF store_same_calm(2)])
qed (auto simp: store_lpush_def store_rpush_def store_lpushx_def store_rpushx_def
    intro: execute_calm writes_calm preserves_calm [OF store_same_calm(7)])

section \<open>A tick that finds nothing\<close>

inductive harmless :: "'a task \<Rightarrow> bool" where
  ended: "harmless (Done r)"
| critical: "(\<And>s. calm s \<Longrightarrow> snd (f s) = s \<and> harmless (fst (f s))) \<Longrightarrow> harmless (Section f)"

inductive_cases harmless_SectionE: "harmless (Section f)"

lemma harmless_evict:
  assumes "sample_ok e"
  shows "harmless (evict_task e)"
proof -
  have empty: "pick e 16 N ([] :: (string \<times> int) list) = Ret ps \<Longrightarrow> ps = []" for ps
    using pick_subset [OF assms, of 16 N "[] :: (string \<times> int) list"] by simp
  have "harmless (fst (map_prod (\<lambda>t. bind_task t g) id (case store_sample_eviction_index e N s of (r, s') \<Rightarrow> (Done r, s'))))"
    if "calm s" and g: "g = (\<lambda>ps. atomic (store_delete_bulk (expired_sample (now_at e 0) ps)))" for s g
  proof -
    have "List.map_filter (\<lambda>k. map_option (Pair k) (fmlookup (expiry_index (inner s)) k)) ks = []" for ks
      using \<open>calm s\<close> by (simp add: calm_def List.map_filter_def)
    then have "fst (store_sample_eviction_index e N s) = Panic \<or> fst (store_sample_eviction_index e N s) = Ret []"
      using empty by (cases "pick e 16 N ([] :: (string \<times> int) list)") (simp_all add: store_sample_eviction_index_def op_simps)
    moreover have "harmless (atomic (store_delete_bulk []))"
      unfolding atomic_def by (rule harmless.critical) (auto simp: store_delete_bulk_def op_simps intro: harmless.ended)
    ultimately show ?thesis
      by (auto simp: g expired_sample_def intro: harmless.ended split: prod.splits)
  qed
  moreover have "snd (store_sample_eviction_index e N s) = s" for s
    using store_reads_read_only(16) by (simp add: read_only_def)
  ultimately show ?thesis
    unfolding evict_task_def atomic_def bind_task.simps
    by (intro harmless.critical) (auto simp: split_beta)
qed

section \<open>Erasing the ticks\<close>

definition handlers_only :: "label list \<Rightarrow> label list" where
  "handlers_only = filter (\<lambda>l. case l of Ticked _ \<Rightarrow> False | Evicted \<Rightarrow> False | _ \<Rightarrow> True)"

abbreviation without_daemon :: "system \<Rightarrow> system" where
  "without_daemon st \<equiv> st\<lparr>evictor := ret_task ()\<rparr>"

lemma handlers_only_simps [simp]:
  "handlers_only [] = []" "handlers_only (ls @ ms) = handlers_only ls @ handlers_only ms"
  "received i (handlers_only ls) = received i ls" "replies i (handlers_only ls) = replies i ls"
  "sections (handlers_only ls) = sections ls"
  "Ticked e \<notin> set (handlers_only ls)" "Received i w v \<in> set (handlers_only ls) \<longleftrightarrow> Received i w v \<in> set ls"
proof -
  show "received i (handlers_only ls) = received i ls" "replies i (handlers_only ls) = replies i ls"
    "sections (handlers_only ls) = sections ls"
    by (induction ls) (auto simp: handlers_only_def received_def arrived_def replies_def sections_def List.map_filter_def split: label.splits)
qed (auto simp: handlers_only_def)

lemma without_daemon_simps:
  "without_daemon (set_conn i c st) = set_conn i c (without_daemon st)"
  "without_daemon (st\<lparr>sys_store := s\<rparr>) = (without_daemon st)\<lparr>sys_store := s\<rparr>"
  "without_daemon (st\<lparr>sys_aof := a\<rparr>) = (without_daemon st)\<lparr>sys_aof := a\<rparr>"
  "without_daemon (st\<lparr>outs := out\<rparr>) = (without_daemon st)\<lparr>outs := out\<rparr>"
  by (cases st; simp add: set_conn_def)+

lemma step_without_daemon:
  assumes "sys_step x st l st'" "\<And>e. l \<noteq> Ticked e" "l \<noteq> Evicted"
  shows "sys_step x (without_daemon st) l (without_daemon st')"
  using assms(1)
proof cases
  case (critical i w v cmd f t s')
  then show ?thesis using sys_step.critical [of "without_daemon st" i w v cmd f t s' x] by (simp add: without_daemon_simps)
next
  case (log i w v cmd r aof)
  then show ?thesis using sys_step.log [of "without_daemon st" i w v cmd r aof x] by (simp add: without_daemon_simps)
next
  case (send i w r out)
  then show ?thesis using sys_step.send [of "without_daemon st" i w r out x] by (simp add: without_daemon_simps)
next
  case (send_error i w r e out)
  then show ?thesis using sys_step.send_error [of "without_daemon st" i w r e out x] by (simp add: without_daemon_simps)
next
  case (abort i w r n)
  then show ?thesis using sys_step.abort [of "without_daemon st" i w r x n] by (simp add: without_daemon_simps)
next
  case (fsync a r)
  then show ?thesis using sys_step.fsync [of "without_daemon st" a x r] by (simp add: without_daemon_simps)
next
  case (receive_panic i v)
  then show ?thesis using sys_step.receive_panic [of "without_daemon st" i v x] by (simp add: without_daemon_simps)
next
  case (unwind i w v cmd)
  then show ?thesis using sys_step.unwind [of "without_daemon st" i w v cmd x] by (simp add: without_daemon_simps)
next
  case (log_panic i w v cmd r)
  then show ?thesis using sys_step.log_panic [of "without_daemon st" i w v cmd r x] by (simp add: without_daemon_simps)
qed (use assms(2,3) in \<open>auto simp: without_daemon_simps intro!: sys_step.receive sys_step.leave\<close>)

lemma step_evictor: "sys_step x st l st' \<Longrightarrow> (\<And>e. l \<noteq> Ticked e) \<Longrightarrow> l \<noteq> Evicted \<Longrightarrow> evictor st' = evictor st"
  by (cases rule: sys_step.cases) auto

text \<open>From any state whose store has no deadline and whose daemon has nothing to remove.\<close>

definition quiet_daemon :: "system \<Rightarrow> bool" where
  "quiet_daemon st \<longleftrightarrow> calm_sections.sys_inv st \<and> harmless (evictor st)"

lemma quiet_init: "calm s \<Longrightarrow> quiet_daemon (sys_init s aof)"
  by (simp add: quiet_daemon_def calm_sections.sys_inv_def sys_init_def task_keeps.ended harmless.ended)

lemma erase_step:
  assumes "sys_step x st l st'" "quiet_daemon st" "\<And>e. l = Ticked e \<Longrightarrow> sample_ok e"
    "\<And>i w v c. l = Received i w v \<Longrightarrow> from_resp2 v = Ret (Ok c) \<Longrightarrow> \<not> sets_deadline c"
  shows "quiet_daemon st' \<and> sys_run x (without_daemon st) (handlers_only [l]) (without_daemon st')"
proof -
  have inv: "calm_sections.sys_inv st'"
    by (rule calm_sections.sys_inv_step [OF assms(1)]) (use assms(2,4) in \<open>auto simp: quiet_daemon_def\<close>)
  consider (tick) e where "l = Ticked e" | (evict) "l = Evicted" | (handler) "\<And>e. l \<noteq> Ticked e" "l \<noteq> Evicted" by blast
  then show ?thesis
  proof cases
    case tick
    with assms(1) have "st' = st\<lparr>evictor := evict_task e\<rparr>" by (auto elim: sys_step_elims)
    with tick inv harmless_evict [OF assms(3) [OF tick]] show ?thesis
      by (simp add: quiet_daemon_def handlers_only_def sys_run.stay)
  next
    case evict
    with assms(1) obtain f t s' where f: "st' = st\<lparr>evictor := t, sys_store := s'\<rparr>" "evictor st = Section f" "f (sys_store st) = (t, s')"
      by (auto elim: sys_step_elims)
    moreover have "calm (sys_store st)" "harmless (Section f)"
      using assms(2) f(2) by (auto simp: quiet_daemon_def calm_sections.sys_inv_def)
    ultimately have "s' = sys_store st \<and> harmless t" by (metis harmless_SectionE fst_conv snd_conv)
    with evict f(1) inv show ?thesis by (simp add: quiet_daemon_def handlers_only_def sys_run.stay)
  next
    case handler
    from step_without_daemon [OF assms(1) handler] step_evictor [OF assms(1) handler] handler assms(2) inv show ?thesis
      by (auto simp: quiet_daemon_def handlers_only_def intro: sys_run_one split: label.split)
  qed
qed

lemma erase_ticks:
  assumes "sys_run x st ls st'" "quiet_daemon st" "\<forall>e. Ticked e \<in> set ls \<longrightarrow> sample_ok e"
    "\<forall>i w v c. Received i w v \<in> set ls \<longrightarrow> from_resp2 v = Ret (Ok c) \<longrightarrow> \<not> sets_deadline c"
  shows "quiet_daemon st' \<and> sys_run x (without_daemon st) (handlers_only ls) (without_daemon st')"
  using assms
proof (induction rule: sys_run.induct)
  case (move st ls st' l st'')
  then have "quiet_daemon st'" "sys_run x (without_daemon st) (handlers_only ls) (without_daemon st')" by auto
  moreover have "quiet_daemon st'' \<and> sys_run x (without_daemon st') (handlers_only [l]) (without_daemon st'')"
    by (rule erase_step [OF move.hyps(2) \<open>quiet_daemon st'\<close>]) (use move.prems in auto)
  ultimately show ?case using sys_run_trans by auto
qed (simp add: sys_run.stay)

lemma erase_from_start:
  assumes "sys_run x (sys_init s aof) ls st" "calm s" "\<forall>e. Ticked e \<in> set ls \<longrightarrow> sample_ok e"
    "\<forall>i w v c. Received i w v \<in> set ls \<longrightarrow> from_resp2 v = Ret (Ok c) \<longrightarrow> \<not> sets_deadline c"
  shows "quiet_daemon st \<and> sys_run x (sys_init s aof) (handlers_only ls) (without_daemon st)"
  using erase_ticks [OF assms(1) quiet_init [OF assms(2)] assms(3,4)] by (simp add: sys_init_def)

end
