(* ===== verification/Concurrent_Log.thy ===== *)
theory Concurrent_Log
  imports Quiet_Ticks
begin

text \<open>
  The append-only file of a server with several clients.  The handlers append after they have released
  the lock, so the file need not be in the order of the writes; for clients on different keys it
  rebuilds the store all the same.
\<close>

section \<open>Requests that panic\<close>

lemma write_no_panic: "(\<And>g. fst (f g) \<noteq> Panic) \<Longrightarrow> \<not> poisoned s \<Longrightarrow> fst (with_write f s) \<noteq> Panic"
  by (auto simp: with_write_def split: prod.splits outcome.splits) (metis fst_conv)

lemma delete_no_panic: "\<not> poisoned s \<Longrightarrow> fst (count_loop (\<lambda>_. store_delete) i ks n s) \<noteq> Panic"
  by (induction ks arbitrary: i n s) (auto simp: store_delete_def op_simps)

lemma push_inner_no_panic: "\<not> poisoned s \<Longrightarrow> \<exists>r s'. store_push_inner t k y c f s = (Ret r, s') \<and> \<not> poisoned s'"
  by (auto simp: store_push_inner_def op_simps Let_def split: option.splits store_value.splits)

lemma push_no_panic:
  assumes "\<And>t y s. \<not> poisoned s \<Longrightarrow> \<exists>r s'. f t k y s = (Ret r, s') \<and> \<not> poisoned s'" "\<not> poisoned s"
  shows "fst (push_loop now f k i xs n s) \<noteq> Panic"
  using assms(2)
proof (induction xs arbitrary: i n s)
  case (Cons y xs)
  obtain r s' where "f (now i) k y s = (Ret r, s')" "\<not> poisoned s'" using assms(1) Cons.prems by blast
  with Cons.IH show ?case by (cases r) (simp_all add: bind_op_def ret_op_def)
qed (simp add: ret_op_def)

lemma reply_Panic: "reply f m s = (Panic, s') \<longleftrightarrow> m s = (Panic, s')"
  by (auto simp: reply_def bind_op_def ret_op_def split: prod.splits outcome.splits)

lemma panic_unchanged:
  assumes "execute x e c s = (Panic, s')" "replayable c" "\<not> poisoned s" "\<not> poisoned s'"
  shows "s' = s"
proof -
  note push = push_no_panic [OF push_inner_no_panic]
  show ?thesis using assms
  proof (cases c)
    case (Set k v b y g)
    with assms show ?thesis
      by (auto simp: exec_set_spec set_spec_def Let_def set_deadline_def with_deadline_def split: option.splits store_value.splits if_splits)
  next
    case (Delete ks)
    with assms delete_no_panic [of s 0 ks 0] show ?thesis by (simp add: exec_delete_def)
  next
    case (LPush k xs)
    with assms push_no_panic [of store_lpush k s "now_at e" 0 xs 0] push_inner_no_panic show ?thesis
      by (fastforce simp: push_pop_defs)
  next
    case (RPush k xs)
    with assms push_no_panic [of store_rpush k s "now_at e" 0 xs 0] push_inner_no_panic show ?thesis
      by (fastforce simp: push_pop_defs)
  next
    case (LPushX k xs)
    with assms push_no_panic [of store_lpushx k s "now_at e" 0 xs 0] push_inner_no_panic show ?thesis
      by (fastforce simp: push_pop_defs)
  next
    case (RPushX k xs)
    with assms push_no_panic [of store_rpushx k s "now_at e" 0 xs 0] push_inner_no_panic show ?thesis
      by (fastforce simp: push_pop_defs)
  qed (auto simp: reply_Panic push_pop_defs exec_mset_def exec_sadd_def exec_smove_def exec_srem_def
      exec_persist_def exec_flush_db_def store_pop_inner_def store_mset_def store_sadd_def store_srem_def store_persist_def
      store_smove_def store_clear_def store_clear_async_def op_simps
      split: option.splits if_splits flush_mode.splits prod.splits outcome.splits store_value.splits)
qed

section \<open>What a request leaves in the file\<close>

text \<open>A request of a client that only uses the keys \<open>K\<close>.\<close>

definition safe_on :: "string set \<Rightarrow> resp_value \<Rightarrow> bool" where
  "safe_on K v \<longleftrightarrow> replay_safe v \<and>
     (\<forall>c. from_resp2 v = Ret (Ok c) \<longrightarrow> (\<exists>L. footprint c = Some L \<and> L \<subseteq> K))"

definition safe_cmd :: "string set \<Rightarrow> (command, handler_error) result \<Rightarrow> bool" where
  "safe_cmd K cmd \<longleftrightarrow> (\<exists>v. safe_on K v \<and> from_resp2 v = Ret cmd)"

definition logged_one :: "(command, handler_error) result \<Rightarrow> resp_value outcome \<Rightarrow> command list" where
  "logged_one cmd r = (case (cmd, r) of (Ok c, Ret y) \<Rightarrow> if is_logged cmd y then [c] else [] | _ \<Rightarrow> [])"

lemma safe_poison:
  assumes "safe_cmd K cmd" "respond x e cmd u = (r, u')" "poisoned u"
  shows "poisoned u'"
proof (cases cmd)
  case (Ok c)
  with assms(1) obtain L where "footprint c = Some L" by (auto simp: safe_cmd_def safe_on_def)
  from local_opD(4) [OF execute_local [OF this] assms(3)] assms(2) Ok show ?thesis
    by (metis respond_def result.case(1) snd_conv)
next
  case (Err h)
  with assms show ?thesis by (cases h) (auto simp: respond_def ret_op_def)
qed

text \<open>Either nothing is logged and the store stands, or the command is, and it returned.\<close>

lemma request_logged:
  assumes "safe_cmd K cmd" "respond x e cmd u = (r, u')" "calm u" "\<not> poisoned u'" "within_limits u" "within_limits u'"
  shows "calm u' \<and> (logged_one cmd r = [] \<and> u' = u \<or>
    (\<exists>c y. logged_one cmd r = [c] \<and> replayable c \<and> execute x e c u = (Ret y, u')))"
proof -
  have np: "\<not> poisoned u" using safe_poison [OF assms(1,2)] assms(4) by blast
  obtain v where v: "replay_safe v" "from_resp2 v = Ret cmd" using assms(1) by (auto simp: safe_cmd_def safe_on_def)
  show ?thesis
  proof (cases r)
    case (Ret y)
    from respond_logged [OF assms(2) [unfolded Ret] v assms(3) np assms(5,6)] Ret show ?thesis
      by (auto simp: logged_one_def is_logged_def is_write_cmd_def split: result.split)
  next
    case Panic
    from v have "u' = u"
    proof (cases rule: replay_safeE)
      case (error h)
      with assms(2) Panic show ?thesis by (cases h) (auto simp: respond_def ret_op_def)
    next
      case (reads c)
      with assms(2) show ?thesis by (auto simp: respond_def read_only_def) (metis snd_conv)
    next
      case (writes c)
      with assms(2) Panic have "execute x e c u = (Panic, u')" by (simp add: respond_def)
      from panic_unchanged [OF this writes(2) np assms(4)] show ?thesis .
    qed
    with Panic assms(3) show ?thesis by (simp add: logged_one_def split: result.split)
  qed
qed

text \<open>The commands that a client logs when it runs alone.\<close>

fun logged_cmds :: "executor \<Rightarrow> (nat \<times> request_world \<times> (command, handler_error) result) list \<Rightarrow> store \<Rightarrow> command list" where
  "logged_cmds x [] s = []"
| "logged_cmds x ((i, w, cmd) # cs) s =
     (case respond x (r_env w) cmd s of (r, s') \<Rightarrow> logged_one cmd r @ logged_cmds x cs s')"

lemma logged_snoc: "logged_cmds x (reqs @ [(i, w, cmd)]) s =
    logged_cmds x reqs s @ logged_one cmd (fst (respond x (r_env w) cmd (snd (solo x reqs s))))"
  by (induction x reqs s rule: logged_cmds.induct) (auto simp: solo_def split: prod.splits)

text \<open>Commands that run one after the other and return, whatever clocks they see.\<close>

fun chain :: "executor \<Rightarrow> (string \<Rightarrow> nat) \<Rightarrow> command list \<Rightarrow> store \<Rightarrow> store \<Rightarrow> bool" where
  "chain x h [] s u \<longleftrightarrow> s = u"
| "chain x h (c # cs) s u \<longleftrightarrow> replayable c \<and> (\<exists>e y t. xxh3 e = h \<and> execute x e c s = (Ret y, t) \<and> chain x h cs t u)"

lemma chain_append: "chain x h (cs @ ds) s u \<longleftrightarrow> (\<exists>t. chain x h cs s t \<and> chain x h ds t u)"
  by (induction cs arbitrary: s) auto

lemma solo_chain:
  assumes "calm s" "\<not> poisoned (snd (solo x reqs s))" "\<forall>(i, w, cmd) \<in> set reqs. safe_cmd K cmd \<and> xxh3 (r_env w) = h"
    "\<forall>n. within_limits (snd (solo x (take n reqs) s))"
  shows "calm (snd (solo x reqs s)) \<and> chain x h (logged_cmds x reqs s) s (snd (solo x reqs s))"
  using assms(2-)
proof (induction reqs rule: rev_induct)
  case Nil
  with assms(1) show ?case by (simp add: solo_snoc)
next
  case (snoc req reqs)
  obtain i w cmd where req: "req = (i, w, cmd)" by (cases req)
  let ?u = "snd (solo x reqs s)"
  obtain r u' where r: "respond x (r_env w) cmd ?u = (r, u')" by fastforce
  have end_eq: "snd (solo x (reqs @ [req]) s) = u'" using r by (cases "solo x reqs s") (simp add: req solo_snoc)
  have lim: "within_limits (snd (solo x (take n reqs) s))" for n
    using snoc.prems(3) [rule_format, of "min n (length reqs)"] by (simp add: min_def split: if_splits)
  have safe: "safe_cmd K cmd" "xxh3 (r_env w) = h" using snoc.prems(2) by (auto simp: req)
  have np: "\<not> poisoned ?u" using safe_poison [OF safe(1) r] snoc.prems(1) end_eq by blast
  have lims: "within_limits ?u" "within_limits u'"
    using lim [of "length reqs"] snoc.prems(3) [rule_format, of "Suc (length reqs)"] end_eq by simp_all
  have IH: "calm ?u \<and> chain x h (logged_cmds x reqs s) s ?u"
    by (rule snoc.IH [OF np _ ]) (use snoc.prems(2) lim in auto)
  have "\<not> poisoned u'" using snoc.prems(1) end_eq by simp
  from request_logged [OF safe(1) r conjunct1 [OF IH] this lims] IH safe(2) r
  show ?case unfolding end_eq by (auto simp: req logged_snoc chain_append) blast
qed

section \<open>Replaying a merged log\<close>

lemma replay_merged:
  assumes "\<forall>(i, v) \<in> set es. safe_on (K i) v"
    "\<forall>i. map from_resp2 (of_client i es) = map (Ret \<circ> Ok) (cs i) \<and> chain x h (cs i) (s i) (u i) \<and> agree (K i) (s i) t"
    "\<forall>i j. i \<noteq> j \<longrightarrow> K i \<inter> K j = {}" "\<forall>j. xxh3 (ws j) = h" "calm t"
  shows "\<exists>t'. (\<forall>rest. replay x ws n (concat (map encode (map snd es)) @ rest) t = replay x ws (n + length es) rest t') \<and>
    (\<forall>i. agree (K i) (u i) t') \<and>
    poisoned t' = poisoned t \<and> (\<forall>k. (\<forall>i. k \<notin> K i) \<longrightarrow> same_at k (inner t) (inner t'))"
  using assms(1,2,5)
proof (induction es arbitrary: n cs s t)
  case Nil
  then have "\<forall>i. agree (K i) (u i) t" by (metis chain.simps(1) of_client_simps(1) list.map_disc_iff)
  then show ?case by (intro exI [of _ t]) simp
next
  case (Cons entry es)
  obtain i v where entry: "entry = (i, v)" by (cases entry)
  have v: "safe_on (K i) v" "wf_resp v" using Cons.prems(1) by (auto simp: entry safe_on_def replay_safe_def)
  obtain c ds where c: "from_resp2 v = Ret (Ok c)" "cs i = c # ds" "map from_resp2 (of_client i es) = map (Ret \<circ> Ok) ds"
    using Cons.prems(2) [rule_format, of i] by (auto simp: entry Cons_eq_map_conv)
  obtain L where "footprint c = Some L" "L \<subseteq> K i" using v(1) c(1) by (auto simp: safe_on_def)
  then have loc: "local_op (K i) (execute x e c)" for e using local_op_mono [OF execute_local] by blast
  obtain e y m where m: "replayable c" "xxh3 e = h" "execute x e c (s i) = (Ret y, m)" "chain x h ds m (u i)"
    using Cons.prems(2) [rule_format, of i] c(2) by auto
  have "agree (K i) (s i) t" using Cons.prems(2) by blast
  with local_opD(2,3) [OF loc, of "s i" t e] m(3) obtain t1 where t1: "execute x e c t = (Ret y, t1)" "agree (K i) m t1"
    by (metis fst_conv prod.collapse snd_conv)
  then have step: "execute x (ws n) c t = (Ret y, t1)" "calm t1"
    using same_calmD [OF execute_same_calm [OF m(1), of e "ws n"] Cons.prems(3)] assms(4) m(2) by (metis snd_conv)+
  have pois: "poisoned t1 = poisoned t" using local_op_Ret [OF loc step(1)] .
  have frame: "same_at k (inner t) (inner t1)" if "k \<notin> K i" for k
    using local_opD(1) [OF loc that, of t "ws n"] step(1) by simp
  have "agree (K j) (s j) t1" if "j \<noteq> i" for j
  proof -
    have "\<And>k. k \<in> K j \<Longrightarrow> k \<notin> K i" using assms(3) that by blast
    with frame pois have "agree (K j) t t1" by (simp add: agree_def)
    with Cons.prems(2) show ?thesis using agree_trans by blast
  qed
  then have "map from_resp2 (of_client j es) = map (Ret \<circ> Ok) ((cs(i := ds)) j) \<and>
      chain x h ((cs(i := ds)) j) ((s(i := m)) j) (u j) \<and> agree (K j) ((s(i := m)) j) t1" for j
    using Cons.prems(2) [rule_format, of j] c(3) m(4) t1(2) by (cases "j = i") (auto simp: entry)
  then have "\<forall>j. map from_resp2 (of_client j es) = map (Ret \<circ> Ok) ((cs(i := ds)) j) \<and>
      chain x h ((cs(i := ds)) j) ((s(i := m)) j) (u j) \<and> agree (K j) ((s(i := m)) j) t1" by blast
  from Cons.IH [OF _ this step(2), of "Suc n"] Cons.prems(1) obtain t' where
    t': "\<forall>rest. replay x ws (Suc n) (concat (map encode (map snd es)) @ rest) t1 = replay x ws (Suc n + length es) rest t'"
      "\<forall>i. agree (K i) (u i) t'"
      "poisoned t' = poisoned t1" "\<forall>k. (\<forall>i. k \<notin> K i) \<longrightarrow> same_at k (inner t1) (inner t')" by auto
  moreover have "replay x ws n (concat (map encode (map snd (entry # es))) @ rest) t =
      replay x ws (n + length (entry # es)) rest t'" for rest
    using replay_entry [OF v(2) c(1)] step(1) t'(1) by (simp add: entry)
  ultimately show ?case using frame pois same_at_trans by blast
qed

section \<open>The file of a running server\<close>

definition settled :: "nat \<Rightarrow> label list \<Rightarrow> conn \<Rightarrow> (nat \<times> request_world \<times> (command, handler_error) result) list" where
  "settled i ls c = (case c of Busy _ _ _ _ \<Rightarrow> butlast (received i ls) | _ \<Rightarrow> received i ls)"

lemma settled_snoc: "received j (ls @ [l]) = received j ls \<Longrightarrow> settled j (ls @ [l]) c = settled j ls c"
  by (cases c) (simp_all add: settled_def)

lemma received_other: "(\<And>w v. l \<noteq> Received i w v) \<Longrightarrow> received i (ls @ [l]) = received i ls"
  by (simp add: received_def arrived_other)

definition log_at ::
    "executor \<Rightarrow> (nat \<Rightarrow> string set) \<Rightarrow> store \<Rightarrow> aof_writer \<Rightarrow> (nat \<times> resp_value) list \<Rightarrow> label list \<Rightarrow> system \<Rightarrow> bool" where
  "log_at x K s0 a es ls st \<longleftrightarrow> (\<exists>b. sys_aof st = Some b \<and> buffered b = [] \<and>
       aof_file b = aof_file a @ concat (map encode (map snd es)) \<and> (\<forall>(i, v) \<in> set es. safe_on (K i) v) \<and>
       (\<forall>i. map from_resp2 (of_client i es) = map (Ret \<circ> Ok) (logged_cmds x (settled i ls (conns st i)) s0)))"

definition busy_ok :: "(nat \<Rightarrow> string set) \<Rightarrow> system \<Rightarrow> bool" where
  "busy_ok K st \<longleftrightarrow> (\<forall>i w v cmd t. conns st i = Busy w v cmd t \<longrightarrow>
     from_resp2 v = Ret cmd \<and> safe_on (K i) v \<and> write_result (r_append w) = Written)"

lemma busy_ok_step:
  assumes "sys_step x st l st'" "busy_ok K st"
    "\<And>i w v. l = Received i w v \<Longrightarrow> safe_on (K i) v \<and> write_result (r_append w) = Written"
  shows "busy_ok K st'"
  using assms(1)
proof cases
  case (critical i w v cmd f t s')
  then have "from_resp2 v = Ret cmd \<and> safe_on (K i) v \<and> write_result (r_append w) = Written"
    using assms(2) unfolding busy_ok_def by blast
  with critical assms(2) show ?thesis by (auto simp: busy_ok_def)
qed (use assms(2,3) in \<open>auto simp: busy_ok_def split: if_splits\<close>)

lemma log_step_safe:
  assumes "safe_on K v" "from_resp2 v = Ret cmd" "write_result (r_append w) = Written" "buffered b = []"
  shows "\<exists>b'. log_step w cmd v r (Some b) = Ret (Some b') \<and> buffered b' = [] \<and>
    aof_file b' = aof_file b @ concat (map encode (if logged_one cmd (Ret r) = [] then [] else [v])) \<and>
    (logged_one cmd (Ret r) \<noteq> [] \<longrightarrow> from_resp2 v = Ret (Ok (hd (logged_one cmd (Ret r)))) \<and> length (logged_one cmd (Ret r)) = 1)"
proof -
  have "replay_safe v" using assms(1) by (simp add: safe_on_def)
  from this assms(2) show ?thesis
  proof (cases rule: replay_safeE)
    case (writes c)
    with append_written [OF assms(3,4)] assms(2,4) show ?thesis
      by (auto simp: log_step_def logged_one_def aof_bytes_def)
  qed (use assms(4) in \<open>auto simp: log_step_def logged_one_def is_logged_def is_write_cmd_def\<close>)
qed

lemma log_silent:
  assumes "log_at x K s0 a es ls st" "sys_aof st' = sys_aof st \<or> (\<exists>b r. sys_aof st = Some b \<and> sys_aof st' = Some (snd (sync_data r b)))"
    "\<And>j. logged_cmds x (settled j (ls @ [l]) (conns st' j)) s0 = logged_cmds x (settled j ls (conns st j)) s0"
  shows "log_at x K s0 a es (ls @ [l]) st'"
proof -
  have "aof_file (snd (sync_data r b)) = aof_file b" "buffered (snd (sync_data r b)) = buffered b" for r b
    by (auto simp: sync_data_def split: result.splits)
  with assms show ?thesis unfolding log_at_def by (metis (no_types, lifting) option.inject)
qed

text \<open>The requests of a busy connection, and what its last one answers alone.\<close>

lemma busy_settled:
  assumes "isolated_at x K s0 ls st" "\<not> poisoned (sys_store st)" "conns st i = Busy w v cmd (Done r)"
  shows "logged_cmds x (received i ls) s0 = logged_cmds x (butlast (received i ls)) s0 @ logged_one cmd r"
proof -
  obtain j prev u where p: "received i ls = prev @ [(j, w, cmd)]"
    "run_task (Done r) u = respond x (r_env w) cmd (snd (solo x prev s0))"
    using isolated_conn(1) [OF assms] by auto
  then have "fst (respond x (r_env w) cmd (snd (solo x prev s0))) = r" by (metis fst_conv pure_op_def run_Done)
  with p(1) show ?thesis by (simp add: logged_snoc)
qed

lemma log_close:
  assumes "log_at x K s0 a es ls st" "sys_aof st' = sys_aof st" "conns st' = (conns st)(i := Closed)"
    "logged_cmds x (received i ls) s0 = logged_cmds x (settled i ls (conns st i)) s0"
  shows "log_at x K s0 a es (ls @ [Ended i]) st'"
proof (rule log_silent [OF assms(1)])
  show "logged_cmds x (settled j (ls @ [Ended i]) (conns st' j)) s0 = logged_cmds x (settled j ls (conns st j)) s0" for j
    using assms(3,4) by (simp add: settled_snoc received_other) (simp add: settled_def)
qed (use assms(2) in simp)

text \<open>The append adds the entry of the request, if it is logged.\<close>

lemma log_at_append:
  assumes "isolated_at x K s0 ls st" "busy_ok K st" "log_at x K s0 a es ls st" "\<not> poisoned (sys_store st)"
    and log: "l = Appended i" "st' = set_conn i (Answering w r) (st\<lparr>sys_aof := aof\<rparr>)"
      "conns st i = Busy w v cmd (Done (Ret r))" "log_step w cmd v r (sys_aof st) = Ret aof"
  shows "\<exists>new. log_at x K s0 a (es @ new) (ls @ [l]) st'"
proof -
  obtain b where b: "sys_aof st = Some b" "buffered b = []" "aof_file b = aof_file a @ concat (map encode (map snd es))"
    "\<forall>(i, v) \<in> set es. safe_on (K i) v"
    "\<forall>i. map from_resp2 (of_client i es) = map (Ret \<circ> Ok) (logged_cmds x (settled i ls (conns st i)) s0)"
    using assms(3) by (auto simp: log_at_def)
  have v: "from_resp2 v = Ret cmd" "safe_on (K i) v" "write_result (r_append w) = Written"
    using assms(2) log(3) unfolding busy_ok_def by blast+
  let ?one = "logged_one cmd (Ret r)" and ?new = "if logged_one cmd (Ret r) = [] then [] else [(i, v)]"
  obtain b' where b': "aof = Some b'" "buffered b' = []" "aof_file b' = aof_file b @ concat (map encode (map snd ?new))"
    "?one \<noteq> [] \<longrightarrow> from_resp2 v = Ret (Ok (hd ?one)) \<and> length ?one = 1"
    using log_step_safe [OF v(2,1,3) b(2), of r] log(4) b(1) by (auto split: if_splits)
  have mine: "map from_resp2 (of_client i ?new) = map (Ret \<circ> Ok) ?one"
    using b'(4) by (cases ?one) auto
  have "map from_resp2 (of_client j (es @ ?new)) =
      map (Ret \<circ> Ok) (logged_cmds x (settled j (ls @ [l]) (conns st' j)) s0)" for j
  proof (cases "j = i")
    case True
    have "settled i (ls @ [l]) (conns st' i) = received i ls" "settled i ls (conns st i) = butlast (received i ls)"
      using log(1,2,3) by (simp_all add: settled_def received_snoc)
    with True mine b(5) busy_settled [OF assms(1,4) log(3)] show ?thesis by simp
  next
    case False
    with log(1,2) b(5) show ?thesis by (simp add: settled_snoc received_other)
  qed
  then show ?thesis
    using b(3,4) b' v(2) log(2) unfolding log_at_def by (intro exI [of _ ?new] exI [of _ b']) auto
qed

lemma log_at_step:
  assumes "sys_step x st l st'" "isolated_at x K s0 ls st" "busy_ok K st" "log_at x K s0 a es ls st"
    "\<not> poisoned (sys_store st)"
  shows "\<exists>new. log_at x K s0 a (es @ new) (ls @ [l]) st'"
proof -
  have still: "log_at x K s0 a es (ls @ [l]) st' \<Longrightarrow> \<exists>new. log_at x K s0 a (es @ new) (ls @ [l]) st'"
    by (rule exI [of _ "[]"]) simp
  from assms(1) show ?thesis
proof cases
  case (unwind i w v cmd)
  have "logged_cmds x (received i ls) s0 = logged_cmds x (settled i ls (conns st i)) s0"
    using busy_settled [OF assms(2,5) unwind(3)] by (simp add: settled_def unwind(3) logged_one_def split: result.split)
  from log_close [OF assms(4) _ _ this, of st'] unwind(1,2) still show ?thesis by simp
next
  case (log i w v cmd r aof)
  from log_at_append [OF assms(2-5) log] show ?thesis .
next
  case (log_panic i w v cmd r)
  have "from_resp2 v = Ret cmd" "safe_on (K i) v" "write_result (r_append w) = Written"
    using assms(3) log_panic(3) unfolding busy_ok_def by blast+
  moreover obtain b where "sys_aof st = Some b" "buffered b = []" using assms(4) by (auto simp: log_at_def)
  ultimately show ?thesis using log_step_safe [of "K i" v cmd w b r] log_panic(4) by auto
next
  case (receive i v cmd w)
  have "settled j (ls @ [l]) (conns st' j) = settled j ls (conns st j)" for j
    using receive by (cases "j = i") (auto simp: settled_def received_snoc split: conn.split)
  then show ?thesis using receive(2) by (intro still log_silent [OF assms(4)]) simp_all
next
  case (critical i w v cmd f t s')
  have "settled j (ls @ [l]) (conns st' j) = settled j ls (conns st j)" for j
    using critical by (simp add: settled_snoc received_other) (simp add: settled_def)
  then show ?thesis using critical(2) by (intro still log_silent [OF assms(4)]) simp_all
next
  case (send i w r out)
  have "settled j (ls @ [l]) (conns st' j) = settled j ls (conns st j)" for j
    using send by (simp add: settled_snoc received_other) (simp add: settled_def)
  then show ?thesis using send(2) by (intro still log_silent [OF assms(4)]) simp_all
qed (rule still; auto intro!: log_silent [OF assms(4)] log_close [OF assms(4)] simp: settled_snoc received_other; auto simp: settled_def)+
qed

text \<open>The file only grows, from any state on.\<close>

lemma log_at_extends:
  assumes "sys_run x st1 ls2 st2" "isolated_at x K s ls1 st1" "busy_ok K st1" "log_at x K s a es ls1 st1"
    "\<forall>e. Ticked e \<notin> set ls2" "\<forall>i w v. Received i w v \<in> set ls2 \<longrightarrow> safe_on (K i) v \<and> write_result (r_append w) = Written"
    "\<forall>i j. i \<noteq> j \<longrightarrow> K i \<inter> K j = {}"
  shows "isolated_at x K s (ls1 @ ls2) st2 \<and> busy_ok K st2 \<and>
    (\<not> poisoned (sys_store st2) \<longrightarrow> (\<exists>new. log_at x K s a (es @ new) (ls1 @ ls2) st2))"
  using assms
proof (induction rule: sys_run.induct)
  case (stay st)
  then show ?case by (auto intro: exI [of _ "[]"])
next
  case (move st ls st' l st'')
  have "Received i w v \<in> set (ls @ [l]) \<Longrightarrow> safe_on (K i) v \<and> write_result (r_append w) = Written" for i w v
    using move.prems by blast
  then have IH: "isolated_at x K s (ls1 @ ls) st'" "busy_ok K st'"
    "\<not> poisoned (sys_store st') \<Longrightarrow> \<exists>new. log_at x K s a (es @ new) (ls1 @ ls) st'"
    and l: "\<And>e. l \<noteq> Ticked e" "\<And>i w v. l = Received i w v \<Longrightarrow> safe_on (K i) v \<and> write_result (r_append w) = Written"
    using move.IH move.prems by auto
  have iso: "isolated_at x K s ((ls1 @ ls) @ [l]) st''"
    by (rule isolated_step [OF move.hyps(2) IH(1)]) (use l assms(7) in \<open>auto simp: safe_on_def\<close>)
  have "\<exists>new. log_at x K s a (es @ new) ((ls1 @ ls) @ [l]) st''" if "\<not> poisoned (sys_store st'')"
  proof -
    have np: "\<not> poisoned (sys_store st')" using isolated_poison [OF move.hyps(2) IH(1)] that by blast
    then obtain new where "log_at x K s a (es @ new) (ls1 @ ls) st'" using IH(3) by blast
    from log_at_step [OF move.hyps(2) IH(1,2) this np] show ?thesis by (metis append.assoc)
  qed
  with iso busy_ok_step [OF move.hyps(2) IH(2) l(2)] show ?case by simp
qed

lemma log_at_run:
  assumes "sys_run x (sys_init s (Some a)) ls st" "\<forall>e. Ticked e \<notin> set ls"
    "\<forall>i w v. Received i w v \<in> set ls \<longrightarrow> safe_on (K i) v \<and> write_result (r_append w) = Written"
    "\<forall>i j. i \<noteq> j \<longrightarrow> K i \<inter> K j = {}" "buffered a = []"
  shows "isolated_at x K s ls st \<and> busy_ok K st \<and> (\<not> poisoned (sys_store st) \<longrightarrow> (\<exists>es. log_at x K s a es ls st))"
proof -
  have "isolated_at x K s [] (sys_init s (Some a))"
    using isolated_run [OF sys_run.stay _ _ assms(4), of x s "Some a"] by simp
  moreover have "settled i [] (conns (sys_init s (Some a)) i) = []" for i
    by (simp add: settled_def sys_init_def received_def arrived_def List.map_filter_def)
  then have "busy_ok K (sys_init s (Some a))" "log_at x K s a [] [] (sys_init s (Some a))"
    using assms(5) by (simp_all add: busy_ok_def log_at_def sys_init_def)
  ultimately show ?thesis using log_at_extends [OF assms(1) _ _ _ assms(2-4), of s "[]" a "[]"] by auto
qed

lemma log_rebuilds:
  assumes "sys_run x (sys_init s (Some a)) ls st" "\<forall>e. Ticked e \<notin> set ls"
    "\<forall>i w v. Received i w v \<in> set ls \<longrightarrow> replay_safe v \<and> write_result (r_append w) = Written \<and> xxh3 (r_env w) = xxh3 (es 0)"
    "\<forall>i w v c. Received i w v \<in> set ls \<longrightarrow> from_resp2 v = Ret (Ok c) \<longrightarrow> (\<exists>L. footprint c = Some L \<and> L \<subseteq> K i)"
    "\<forall>i j. i \<noteq> j \<longrightarrow> K i \<inter> K j = {}" "\<not> poisoned (sys_store st)" "\<forall>i w v cmd t. conns st i \<noteq> Busy w v cmd t"
    "calm s" "buffered a = []" "\<forall>i n. within_limits (snd (solo x (take n (received i ls)) s))"
    "\<forall>j. xxh3 (es j) = xxh3 (es 0)"
  shows "\<exists>b log. sys_aof st = Some b \<and> aof_file b = aof_file a @ log \<and> replay x es 0 log s = (Ret (Ok ()), sys_store st)"
proof -
  have safe: "\<forall>i w v. Received i w v \<in> set ls \<longrightarrow> safe_on (K i) v \<and> write_result (r_append w) = Written"
    using assms(3,4) by (auto simp: safe_on_def)
  obtain es' where inv: "isolated_at x K s ls st" "log_at x K s a es' ls st"
    using log_at_run [OF assms(1,2) safe assms(5,9)] assms(6) by blast
  let ?u = "\<lambda>i. snd (solo x (received i ls) s)"
  note quiet = quiet_agree [OF inv(1) assms(6,7)]
  have set: "settled i ls (conns st i) = received i ls" for i
    using assms(7) by (auto simp: settled_def split: conn.split)
  have reqs: "\<forall>(j, w, cmd) \<in> set (received i ls). safe_cmd (K i) cmd \<and> xxh3 (r_env w) = xxh3 (es 0)" for i
    using safe assms(3)
    by (fastforce simp: received_def arrived_def List.map_filter_def safe_cmd_def split: label.splits outcome.splits if_splits)
  have chains: "chain x (xxh3 (es 0)) (logged_cmds x (received i ls) s) s (?u i)" for i
    using solo_chain [OF assms(8) _ reqs] quiet [of i] assms(6,10) by (simp add: agree_def)
  obtain b where b: "sys_aof st = Some b" "aof_file b = aof_file a @ concat (map encode (map snd es'))"
    "\<forall>(i, v) \<in> set es'. safe_on (K i) v"
    "\<forall>i. map from_resp2 (of_client i es') = map (Ret \<circ> Ok) (logged_cmds x (received i ls) s)"
    using inv(2) unfolding log_at_def set by blast
  obtain t' where t': "\<forall>rest. replay x es 0 (concat (map encode (map snd es')) @ rest) s = replay x es (0 + length es') rest t'" "\<forall>i. agree (K i) (?u i) t'"
    "\<forall>k. (\<forall>i. k \<notin> K i) \<longrightarrow> same_at k (inner s) (inner t')"
    using replay_merged [of es' K "\<lambda>i. logged_cmds x (received i ls) s" x "xxh3 (es 0)" "\<lambda>_. s" ?u s es 0]
      b(3,4) chains assms(5,8,11) by auto
  from t'(1) [rule_format, of "[]"] have "replay x es 0 (concat (map encode (map snd es'))) s = (Ret (Ok ()), t')"
    by (simp add: replay_empty)
  with quiet_store [OF inv(1) assms(6,7) t'(2,3)] b(1,2) show ?thesis by blast
qed

lemma replay_safe_no_deadline: "replay_safe v \<Longrightarrow> from_resp2 v = Ret (Ok c) \<Longrightarrow> \<not> sets_deadline c"
  by (cases c) (auto simp: replay_safe_def)

lemma two_clients_push:
  "exec_rpush e q [a, b] store_new = (Ret (len_reply 2), store_new\<lparr>inner := inner_put q (ListVal [a, b]) (inner store_new)\<rparr>)"
proof -
  have new: "\<not> poisoned store_new" "inner_get t j (inner store_new) = None" for t j
    by (simp_all add: store_new_def inner_get_def)
  note push = store_rpush_absent [OF new] store_rpush_list [OF new(1)]
  show ?thesis by (simp add: exec_rpush_def exec_push_inner_def push bind_op_def ret_op_def numeral_2_eq_2)
qed

lemma two_clients_limits:
  "within_limits (snd (solo x (take n (received i (two_clients w q a b k v))) store_new))"
proof -
  have "within_limits (store_new\<lparr>inner := inner_put q (ListVal [a, b]) (inner store_new)\<rparr>)"
    by (simp add: within_limits_def inner_put_def store_new_def)
  moreover have "\<not> poisoned store_new" by (simp add: store_new_def)
  ultimately show ?thesis unfolding two_clients_received
    by (cases n) (simp_all add: solo_def respond_def two_clients_push exec_mset_one demo_limits)
qed

lemma two_clients_replay:
  "\<forall>i w v. Received i w v \<in> set (two_clients (demo_world 0) ''q'' ''a'' ''b'' ''k'' ''v'') \<longrightarrow>
     replay_safe v \<and> write_result (r_append w) = Written \<and> xxh3 (r_env w) = xxh3 (demo_env 99 99)"
  by (auto simp: replay_safe_def push_request demo_mset wf_request vec_capacity_ok_def demo_world_def)

section \<open>Properties\<close>



end
