(* ===== verification/Durability.thy ===== *)
theory Durability
  imports Races
begin

text \<open>
  What the append-only file promises to a client that has been told its write succeeded: with
  \<open>appendfsync always\<close>, as long as no write and no sync fails, its entry is on the disk; when an
  append fails, it is told so all the same.
\<close>

section \<open>Acknowledged writes\<close>

text \<open>The entries of the writes that a client has had an answer to, in the order it sent them.\<close>

definition entries_for :: "(request_world \<times> resp_value \<times> (command, handler_error) result) list \<Rightarrow> resp_value list \<Rightarrow> string outcome list" where
  "entries_for reqs rs = List.map_filter (\<lambda>((w, v, cmd), r). if is_logged cmd r then Some (aof_bytes (r_env w) cmd v) else None)
     (zip reqs rs)"

definition acknowledged :: "nat \<Rightarrow> label list \<Rightarrow> string outcome list" where
  "acknowledged i ls = entries_for (arrived i ls) (replies i ls)"

lemma entries_for_snoc:
  assumes "length reqs = length rs"
  shows "entries_for (reqs @ [(w, v, cmd)]) (rs @ [r]) =
     entries_for reqs rs @ (if is_logged cmd r then [aof_bytes (r_env w) cmd v] else [])"
    "entries_for (reqs @ [q]) rs = entries_for reqs rs"
  using assms by (simp_all add: entries_for_def List.map_filter_def zip_append1)

text \<open>How a connection stands to its entries in the file.\<close>

fun logged_at :: "(request_world \<times> resp_value \<times> (command, handler_error) result) list \<Rightarrow> resp_value list \<Rightarrow> string outcome list
    \<Rightarrow> conn \<Rightarrow> bool" where
  "logged_at reqs rs es Idle \<longleftrightarrow> length reqs = length rs \<and> es = entries_for reqs rs"
| "logged_at reqs rs es (Busy w v cmd t) \<longleftrightarrow>
     (\<exists>prev. reqs = prev @ [(w, v, cmd)] \<and> length prev = length rs \<and> es = entries_for prev rs)"
| "logged_at reqs rs es (Answering w r) \<longleftrightarrow> length reqs = Suc (length rs) \<and> es = entries_for reqs (rs @ [r])"
| "logged_at reqs rs es Closed \<longleftrightarrow> prefix (entries_for reqs rs) es"

lemma logged_at_prefix:
  assumes "logged_at reqs rs es c"
  shows "prefix (entries_for reqs rs) es"
proof (cases c)
  case (Answering w r)
  with assms have *: "length reqs = Suc (length rs)" "es = entries_for reqs (rs @ [r])" by simp_all
  then obtain prev q where "reqs = prev @ [q]" "length prev = length rs" by (cases reqs rule: rev_cases) auto
  with *(2) entries_for_snoc [of prev rs] show ?thesis by (cases q) auto
qed (use assms entries_for_snoc in auto)

definition good_append :: "append_io \<Rightarrow> bool" where
  "good_append io \<longleftrightarrow> write_result io = Written \<and> sync_result io = Ok ()"

lemma append_good:
  assumes "good_append io" "fsync_mode b = Always" "buffered b = []"
  shows "snd (aof_append io bs b) = b\<lparr>aof_file := aof_file b @ bs, synced := length (aof_file b @ bs)\<rparr>"
  using assms by (simp add: good_append_def aof_append_def sync_data_def)

definition durable_at :: "aof_writer \<Rightarrow> label list \<Rightarrow> system \<Rightarrow> bool" where
  "durable_at a ls st \<longleftrightarrow>
     (\<exists>b es. sys_aof st = Some b \<and> fsync_mode b = Always \<and> buffered b = [] \<and>
        aof_file b = aof_file a @ concat (map snd es) \<and> (es = [] \<or> synced b = length (aof_file b)) \<and>
        (\<forall>i. logged_at (arrived i ls) (replies i ls) (map Ret (of_client i es)) (conns st i))) \<and>
     (\<forall>i w v cmd t. conns st i = Busy w v cmd t \<longrightarrow> good_append (r_append w))"

lemma durable_good: "durable_at a ls st \<Longrightarrow> conns st i = Busy w v cmd t \<Longrightarrow> good_append (r_append w)"
  unfolding durable_at_def by blast

text \<open>A step that appends nothing only has to keep its connection in line.\<close>

lemma durable_silent:
  assumes "durable_at a ls st" "sys_aof st' = sys_aof st \<or> (\<exists>b r. sys_aof st = Some b \<and> sys_aof st' = Some (snd (sync_data r b)))"
    "\<And>j es. logged_at (arrived j ls) (replies j ls) es (conns st j) \<Longrightarrow>
      logged_at (arrived j (ls @ [l])) (replies j (ls @ [l])) es (conns st' j)"
    "\<And>i w v cmd t. conns st' i = Busy w v cmd t \<Longrightarrow> good_append (r_append w)"
  shows "durable_at a (ls @ [l]) st'"
proof -
  have sync: "aof_file (snd (sync_data r b)) = aof_file b" "buffered (snd (sync_data r b)) = buffered b"
    "fsync_mode (snd (sync_data r b)) = fsync_mode b"
    "synced b = length (aof_file b) \<Longrightarrow> synced (snd (sync_data r b)) = length (aof_file b)" for r b
    by (auto simp: sync_data_def split: result.splits)
  obtain b es where b: "sys_aof st = Some b" "fsync_mode b = Always" "buffered b = []"
    "aof_file b = aof_file a @ concat (map snd es)" "es = [] \<or> synced b = length (aof_file b)"
    "\<forall>i. logged_at (arrived i ls) (replies i ls) (map Ret (of_client i es)) (conns st i)"
    using assms(1) unfolding durable_at_def by blast
  obtain b' where "sys_aof st' = Some b'" "fsync_mode b' = Always" "buffered b' = []" "aof_file b' = aof_file b"
    "es = [] \<or> synced b' = length (aof_file b)"
    using assms(2) b(1,2,3,5) sync by auto
  moreover have "\<forall>i. logged_at (arrived i (ls @ [l])) (replies i (ls @ [l])) (map Ret (of_client i es)) (conns st' i)"
    using assms(3) b(6) by blast
  ultimately show ?thesis using b(4) assms(4) unfolding durable_at_def by (intro conjI exI [of _ b'] exI [of _ es]) auto
qed

lemma durable_close:
  assumes "durable_at a ls st" "sys_aof st' = sys_aof st" "conns st' = (conns st)(i := Closed)"
  shows "durable_at a (ls @ [Ended i]) st'"
proof (rule durable_silent [OF assms(1)])
  have lab: "arrived j (ls @ [Ended i]) = arrived j ls" "replies j (ls @ [Ended i]) = replies j ls" for j
    by (simp_all add: arrived_snoc run_labels)
  show "logged_at (arrived j (ls @ [Ended i])) (replies j (ls @ [Ended i])) es (conns st' j)"
    if "logged_at (arrived j ls) (replies j ls) es (conns st j)" for j es
    using that logged_at_prefix [OF that] assms(3) by (auto simp: lab)
  show "good_append (r_append w)" if "conns st' j = Busy w v cmd t" for j w v cmd t
    using that durable_good [OF assms(1)] assms(3) by (cases "j = i") simp_all
qed (use assms(2) in simp)

lemma durable_step:
  assumes "sys_step x st l st'" "durable_at a ls st" "\<And>i w v. l = Received i w v \<Longrightarrow> good_append (r_append w)"
  shows "durable_at a (ls @ [l]) st'"
proof -
  note good = durable_good [OF assms(2)]
  from assms(1) show ?thesis
  proof cases
    case (log i w v cmd r aof)
    obtain b es where b: "sys_aof st = Some b" "fsync_mode b = Always" "buffered b = []"
      "aof_file b = aof_file a @ concat (map snd es)" "es = [] \<or> synced b = length (aof_file b)"
      "\<forall>i. logged_at (arrived i ls) (replies i ls) (map Ret (of_client i es)) (conns st i)"
      using assms(2) unfolding durable_at_def by blast
    have lab: "arrived j (ls @ [l]) = arrived j ls" "replies j (ls @ [l]) = replies j ls" for j
      using log(1) by (simp_all add: arrived_snoc run_labels)
    obtain prev where prev: "arrived i ls = prev @ [(w, v, cmd)]" "length prev = length (replies i ls)"
      "map Ret (of_client i es) = entries_for prev (replies i ls)"
      using b(6) [rule_format, of i] log(3) by auto
    have "\<exists>b' new. aof = Some b' \<and> fsync_mode b' = Always \<and> buffered b' = [] \<and> aof_file b' = aof_file b @ concat new \<and>
        (new = [] \<and> b' = b \<or> synced b' = length (aof_file b')) \<and>
        map Ret new = (if is_logged cmd r then [aof_bytes (r_env w) cmd v] else [])"
    proof (cases "is_logged cmd r")
      case True
      with log(4) b(1) obtain bs where bs: "aof_bytes (r_env w) cmd v = Ret bs" "aof = Some (snd (aof_append (r_append w) bs b))"
        by (auto simp: log_step_def split: outcome.splits)
      show ?thesis unfolding bs append_good [OF good [OF log(3)] b(2,3)] using b(2,3) True
        by (intro exI [of _ "b\<lparr>aof_file := aof_file b @ bs, synced := length (aof_file b @ bs)\<rparr>"] exI [of _ "[bs]"]) simp
    next
      case False
      with log(4) b(1-3) show ?thesis by (auto simp: log_step_def intro: exI [of _ "[]"])
    qed
    then obtain b' new where b': "aof = Some b'" "fsync_mode b' = Always" "buffered b' = []" "aof_file b' = aof_file b @ concat new"
      "new = [] \<and> b' = b \<or> synced b' = length (aof_file b')"
      "map Ret new = (if is_logged cmd r then [aof_bytes (r_env w) cmd v] else [])" by blast
    let ?es = "es @ map (Pair i) new"
    have own: "of_client j (map (Pair i) new) = (if j = i then new else [])" for j
      by (induction new) auto
    have "logged_at (arrived j (ls @ [l])) (replies j (ls @ [l])) (map Ret (of_client j ?es)) (conns st' j)" for j
      using b(6) [rule_format, of j] prev b'(6) log(2) by (cases "j = i") (simp_all add: lab own entries_for_snoc)
    moreover have "aof_file b' = aof_file a @ concat (map snd ?es)" using b(4) b'(4) by (simp add: comp_def)
    ultimately show ?thesis using b' b(5) log(2) good unfolding durable_at_def
      by (intro conjI exI [of _ b'] exI [of _ ?es]) (auto split: if_splits)
  next
    case (receive i v cmd w)
    then show ?thesis using assms(3) good
      by (intro durable_silent [OF assms(2)]) (auto simp: arrived_snoc run_labels split: if_splits)
  next
    case (send i w r out)
    then show ?thesis using good
      by (intro durable_silent [OF assms(2)]) (auto simp: arrived_snoc run_labels split: if_splits)
  next
    case (critical i w v cmd f t s')
    then show ?thesis using good
      by (intro durable_silent [OF assms(2)]) (auto simp: arrived_snoc run_labels split: if_splits)
  qed (use good in \<open>auto intro!: durable_close [OF assms(2)] durable_silent [OF assms(2)] simp: arrived_snoc run_labels\<close>)
qed

lemma durable_run:
  assumes "sys_run x (sys_init s (Some a)) ls st" "fsync_mode a = Always" "buffered a = []"
    "\<forall>i w v. Received i w v \<in> set ls \<longrightarrow> good_append (r_append w)"
  shows "durable_at a ls st"
  using assms
proof (induction "sys_init s (Some a)" ls st rule: sys_run.induct)
  case stay
  then show ?case
    by (auto simp: durable_at_def sys_init_def arrived_def replies_def entries_for_def List.map_filter_def intro: exI [of _ "[]"])
next
  case (move ls st' l st'')
  show ?case by (rule durable_step [OF move.hyps(3)]) (use move in auto)
qed

section \<open>Failed appends\<close>

text \<open>What the buffer kept of a failed append goes to the file with the next one that succeeds.\<close>

lemma failed_append_retried:
  assumes "write_result io = Write_failed n m e" "length (buffered a @ bs) \<le> n + m" "write_result io' = Written"
  shows "aof_file (snd (aof_append io' bs' (snd (aof_append io bs a)))) = aof_file a @ buffered a @ bs @ bs'"
proof -
  let ?p = "buffered a @ bs" and ?w = "snd (aof_append io bs a)"
  have "take m (drop n ?p) = drop n ?p" using assms(2) by (intro take_all) simp
  moreover have "aof_file ?w @ buffered ?w = aof_file a @ take n ?p @ take m (drop n ?p)"
    using assms(1) by (simp add: aof_append_def Let_def del: take_append drop_append)
  ultimately have "aof_file ?w @ buffered ?w = aof_file a @ ?p" by (metis append_take_drop_id)
  moreover have "aof_file (snd (aof_append io' bs' ?w)) = (aof_file ?w @ buffered ?w) @ bs'"
    using assms(3) by (simp add: aof_append_def sync_data_def Let_def split: result.splits)
  ultimately show ?thesis by simp
qed

section \<open>Properties\<close>

text \<open>C10: with \<open>appendfsync always\<close>, what a client was told is on the disk.  In every run of the server in
  which the appends and their syncs succeed, whatever the commands, the interleaving, panics and closed
  connections: the file holds whole entries behind what it held at first, all of it is synced as soon as
  there is one, and the entries of each client begin with those of the logged writes it has had its
  answer to, in the order it sent them.\<close>

theorem always_keeps_acknowledged_writes:
  assumes "sys_run x (sys_init s (Some a)) ls st" "fsync_mode a = Always" "buffered a = []"
    "\<forall>i w v. Received i w v \<in> set ls \<longrightarrow> good_append (r_append w)"
  shows "\<exists>b es. sys_aof st = Some b \<and> aof_file b = aof_file a @ concat (map snd es) \<and>
    (es = [] \<or> synced b = length (aof_file b)) \<and> (\<forall>i. prefix (acknowledged i ls) (map Ret (of_client i es)))"
proof -
  obtain b es where "sys_aof st = Some b" "aof_file b = aof_file a @ concat (map snd es)" "es = [] \<or> synced b = length (aof_file b)"
    and at: "\<forall>i. logged_at (arrived i ls) (replies i ls) (map Ret (of_client i es)) (conns st i)"
    using durable_run [OF assms] unfolding durable_at_def by blast
  moreover have "prefix (acknowledged i ls) (map Ret (of_client i es))" for i
    unfolding acknowledged_def by (rule logged_at_prefix [OF at [rule_format]])
  ultimately show ?thesis by (intro exI [of _ b] exI [of _ es]) simp
qed

theorem always_keeps_acknowledged_writes_witness:
  "\<exists>ls st b es. sys_run \<lparr>lazyfree_lazy_user_flush = False\<rparr> (sys_init store_new (h_aof (demo_handler store_new))) ls st \<and>
     acknowledged 0 ls = [Ret (encode (request [''MSET'', ''k'', ''v0'']))] \<and>
     acknowledged 1 ls = [Ret (encode (request [''MSET'', ''k'', ''v1'']))] \<and>
     sys_aof st = Some b \<and> aof_file b = concat (map snd es) \<and> synced b = length (aof_file b) \<and>
     prefix (acknowledged 0 ls) (map Ret (of_client 0 es))"
proof -
  let ?x = "\<lparr>lazyfree_lazy_user_flush = False\<rparr>" and ?w = "demo_world 0"
  let ?a = "\<lparr>aof_file = [], buffered = [], synced = 0, fsync_mode = Always\<rparr>"
  let ?r0 = "request [''MSET'', ''k'', ''v0'']" and ?r1 = "request [''MSET'', ''k'', ''v1'']"
  let ?c0 = "Ok (MSet [(''k'', ''v0'')])" and ?c1 = "Ok (MSet [(''k'', ''v1'')])"
  let ?ls = "[Received 0 ?w ?r0, Received 1 ?w ?r1, Ran 0 ?w ?c0, Ran 1 ?w ?c1, Appended 1, Appended 0,
    Sent 0 ok_reply, Sent 1 ok_reply]"
  have new: "\<not> poisoned store_new" by (simp add: store_new_def)
  have "\<exists>st. schedule ?x ?ls (sys_init store_new (Some ?a)) = Some st"
    using new by (simp add: fire_simps(1) fire_append fire_send demo_mset mset_task mset_logged fire_atomic exec_mset_one
      sys_init_def demo_world_def)
  then obtain st where run: "sys_run ?x (sys_init store_new (Some ?a)) ?ls st" using schedule_run by blast
  have ack: "acknowledged 0 ?ls = [Ret (encode ?r0)]" "acknowledged 1 ?ls = [Ret (encode ?r1)]"
    by (simp_all add: acknowledged_def arrived_def replies_Cons entries_for_def List.map_filter_def demo_mset mset_logged)
  obtain b es where "sys_aof st = Some b" "aof_file b = concat (map snd es)" "es = [] \<or> synced b = length (aof_file b)"
    "prefix (acknowledged 0 ?ls) (map Ret (of_client 0 es))"
    using always_keeps_acknowledged_writes [OF run] by (auto simp: good_append_def demo_world_def)
  with run ack show ?thesis
    by (intro exI [of _ ?ls] exI [of _ st] exI [of _ b] exI [of _ es]) (auto simp: demo_handler_def)
qed

text \<open>C29: an append that fails is acknowledged all the same, in every mode.  When writing the entry of a
  request fails after \<open>n\<close> bytes, the store has changed and the client is told that its write succeeded,
  while the file has gained those bytes only and nothing more is synced.\<close>

theorem failed_append_acknowledged:
  assumes "from_resp2 v = Ret cmd" "respond x (r_env w) cmd (h_store st) = (Ret r, s)" "is_logged cmd r"
    "aof_bytes (r_env w) cmd v = Ret bs" "h_aof st = Some a" "write_result (r_append w) = Write_failed n m e" "r_send w = Ok ()"
  shows "\<exists>h b. handle_request x w v st = (Ret (Ok ()), h) \<and> h_store h = s \<and> h_out h = h_out st @ encode r \<and>
    h_aof h = Some b \<and> aof_file b = aof_file a @ take n (buffered a @ bs) \<and> synced b = synced a"
  using assms by (auto simp: handle_request_def log_step_def send_response_def aof_append_def Let_def)

theorem failed_append_acknowledged_witness:
  "\<exists>h b. handle_request \<lparr>lazyfree_lazy_user_flush = False\<rparr>
        ((demo_world 0)\<lparr>r_append := \<lparr>write_result = Write_failed 0 0 (OsError ''full''), sync_result = Ok ()\<rparr>\<rparr>)
        (request [''SET'', ''k'', ''v'']) (demo_handler store_new) = (Ret (Ok ()), h) \<and>
     h_store h = store_new\<lparr>inner := inner_put ''k'' (Str ''v'') (inner store_new)\<rparr> \<and> h_out h = encode ok_reply \<and>
     h_aof h = Some b \<and> replay \<lparr>lazyfree_lazy_user_flush = False\<rparr> (\<lambda>_. demo_env 9 9) 0 (aof_file b) store_new = (Ret (Ok ()), store_new)"
proof -
  let ?x = "\<lparr>lazyfree_lazy_user_flush = False\<rparr>" and ?h = "demo_handler store_new"
  let ?w = "(demo_world 0)\<lparr>r_append := \<lparr>write_result = Write_failed 0 0 (OsError ''full''), sync_result = Ok ()\<rparr>\<rparr>"
  have "respond ?x (r_env ?w) (Ok (Set ''k'' ''v'' None None False)) (h_store ?h) =
      (Ret ok_reply, store_new\<lparr>inner := inner_put ''k'' (Str ''v'') (inner store_new)\<rparr>)"
    using demo_exec_set [of 0] by (simp add: respond_def demo_handler_def demo_world_def)
  moreover have "h_aof ?h = Some \<lparr>aof_file = [], buffered = [], synced = 0, fsync_mode = Always\<rparr>" by (simp add: demo_handler_def)
  ultimately obtain h b where "handle_request ?x ?w (request [''SET'', ''k'', ''v'']) ?h = (Ret (Ok ()), h)"
    "h_store h = store_new\<lparr>inner := inner_put ''k'' (Str ''v'') (inner store_new)\<rparr>" "h_out h = encode ok_reply"
    "h_aof h = Some b" "aof_file b = []"
    using failed_append_acknowledged [OF demo_set_request, of ?x ?w ?h ok_reply]
    by (fastforce simp: is_logged_def is_write_cmd_def ok_reply_def aof_bytes_def expire_info_def demo_handler_def demo_world_def)
  then show ?thesis using replay_empty by metis
qed

end
