(* ===== verification/Concurrent_Crash.thy ===== *)
theory Concurrent_Crash
  imports Concurrent_Log Recovery Durability
begin

text \<open>
  A crash of a server with several clients.  The file that reaches the disk is a prefix of what the
  handlers appended, cut at any byte; each client finds its keys as after a prefix of its own requests.
\<close>

section \<open>Cutting a file of entries\<close>

lemma take_entries:
  "\<exists>m rest. m \<le> length xs \<and> take n (concat (map f xs)) = concat (map f (take m xs)) @ rest \<and>
     (rest = [] \<or> m < length xs \<and> (\<exists>k < length (f (xs ! m)). rest = take k (f (xs ! m)))) \<and>
     (\<forall>ys zs. xs = ys @ zs \<longrightarrow> length (concat (map f ys)) \<le> n \<longrightarrow> length ys \<le> m)"
proof (induction xs arbitrary: n)
  case (Cons y xs)
  show ?case
  proof (cases "length (f y) \<le> n")
    case True
    obtain m rest where m: "m \<le> length xs" "take (n - length (f y)) (concat (map f xs)) = concat (map f (take m xs)) @ rest"
      "rest = [] \<or> m < length xs \<and> (\<exists>k < length (f (xs ! m)). rest = take k (f (xs ! m)))"
      "\<forall>ys zs. xs = ys @ zs \<longrightarrow> length (concat (map f ys)) \<le> n - length (f y) \<longrightarrow> length ys \<le> m"
      using Cons.IH by blast
    have "length ys \<le> Suc m" if "y # xs = ys @ zs" "length (concat (map f ys)) \<le> n" for ys zs
      using that m(4) by (cases ys) auto
    with True m(1-3) show ?thesis by (intro exI [of _ "Suc m"] exI [of _ rest]) simp
  next
    case False
    have "length ys \<le> 0" if "y # xs = ys @ zs" "length (concat (map f ys)) \<le> n" for ys zs
      using that False by (cases ys) auto
    with False show ?thesis by (intro exI [of _ 0] exI [of _ "take n (f y)"]) (auto intro!: exI [of _ n])
  qed
qed simp

text \<open>What a replay makes of the part of an entry that is left.\<close>

lemma replay_rest:
  assumes "rest = [] \<or> k < length (encode v) \<and> rest = take k (encode v)" "from_resp2 v = Ret (Ok c)" "wf_resp v"
  shows "\<exists>r. replay x es n rest t = (Ret r, t) \<and> (r = Ok () \<or> (\<exists>u. r = Err (io_error_of_resp (InvalidInteger u))))"
  using assms(1)
proof
  assume "rest = []"
  then show ?thesis by (simp add: replay_empty)
next
  assume k: "k < length (encode v) \<and> rest = take k (encode v)"
  obtain ss where "v = request ss" "ss \<noteq> []" using parsed_request [OF assms(2)] by blast
  with torn_request [of ss k] assms(3) k have "torn (bad_cut ss k) (decode rest)" by simp
  from replay_torn [OF this, of x es n t] show ?thesis by (auto split: if_splits)
qed

section \<open>Clients that run alone\<close>

lemma solo_poison:
  assumes "\<forall>(i, w, cmd) \<in> set reqs. safe_cmd K cmd" "poisoned (snd (solo x (take n reqs) s))"
  shows "poisoned (snd (solo x reqs s))"
  using assms
proof (induction reqs rule: rev_induct)
  case (snoc req reqs)
  obtain i w cmd where req: "req = (i, w, cmd)" by (cases req)
  show ?case
  proof (cases "n \<le> length reqs")
    case True
    with snoc have "poisoned (snd (solo x reqs s))" by simp
    moreover have "safe_cmd K cmd" using snoc.prems(1) by (simp add: req)
    ultimately show ?thesis using safe_poison by (auto simp: req solo_snoc split: prod.splits)
  qed (use snoc.prems in simp)
qed simp

text \<open>A client logs at most one entry for each request, so every number of entries is reached on the way.\<close>

lemma logged_one_short: "length (logged_one cmd r) \<le> 1"
  by (auto simp: logged_one_def split: result.split outcome.split)

lemma logged_append: "\<exists>more. logged_cmds x (reqs @ reqs') s = logged_cmds x reqs s @ more"
  by (induction x reqs s rule: logged_cmds.induct) (auto split: prod.splits)

lemma logged_between:
  assumes "p \<le> length reqs" "length (logged_cmds x (take p reqs) s) \<le> q" "q \<le> length (logged_cmds x reqs s)"
  shows "\<exists>m. p \<le> m \<and> m \<le> length reqs \<and> logged_cmds x (take m reqs) s = take q (logged_cmds x reqs s)"
proof -
  let ?f = "\<lambda>m. int (length (logged_cmds x (take m reqs) s))"
  have "\<bar>?f (Suc m) - ?f m\<bar> \<le> 1" if "m < length reqs" for m
  proof -
    obtain i w cmd where "reqs ! m = (i, w, cmd)" by (cases "reqs ! m")
    with that have "take (Suc m) reqs = take m reqs @ [(i, w, cmd)]" by (simp add: take_Suc_conv_app_nth)
    with logged_one_short show ?thesis by (simp add: logged_snoc)
  qed
  then obtain m where m: "p \<le> m" "m \<le> length reqs" "?f m = int q"
    using nat_intermed_int_val [of p "length reqs" ?f "int q"] assms by auto
  obtain more where "logged_cmds x reqs s = logged_cmds x (take m reqs) s @ more"
    using logged_append [of x "take m reqs" "drop m reqs" s] by auto
  with m show ?thesis by (intro exI [of _ m]) simp
qed


section \<open>Two states of a run\<close>

text \<open>While the store is healthy, so is what each client has done alone.\<close>

lemma settled_busy:
  assumes "sys_step x st l st'" "conns st' i = Busy w v cmd t"
  shows "settled i (ls @ [l]) (conns st' i) = settled i ls (conns st i)"
  using assms(1)
proof cases
  case (receive j v' cmd' w')
  with assms(2) show ?thesis by (cases "j = i") (auto simp: settled_def received_snoc)
next
  case (critical j w' v' cmd' f t' s')
  with assms(2) show ?thesis by (cases "j = i") (auto simp: settled_def received_snoc)
qed (use assms(2) in \<open>auto simp: settled_def received_snoc split: if_splits\<close>)

lemma settled_healthy:
  assumes "sys_run x (sys_init s aof) ls st" "\<forall>e. Ticked e \<notin> set ls"
    "\<forall>i w v c. Received i w v \<in> set ls \<longrightarrow> from_resp2 v = Ret (Ok c) \<longrightarrow> (\<exists>L. footprint c = Some L \<and> L \<subseteq> K i)"
    "\<forall>i j. i \<noteq> j \<longrightarrow> K i \<inter> K j = {}" "\<not> poisoned (sys_store st)"
  shows "\<not> poisoned (snd (solo x (settled i ls (conns st i)) s))"
  using assms(1-3,5)
proof (induction "sys_init s aof" ls st rule: sys_run.induct)
  case stay
  then show ?case by (simp add: sys_init_def settled_def received_def arrived_def List.map_filter_def solo_snoc)
next
  case (move ls st' l st'')
  have iso: "isolated_at x K s ls st'" by (rule isolated_run [OF move.hyps(1) _ _ assms(4)]) (use move.prems in auto)
  have iso': "isolated_at x K s (ls @ [l]) st''"
    by (rule isolated_run [OF sys_run.move [OF move.hyps(1,3)] move.prems(1,2) assms(4)])
  show ?case
  proof (cases "\<exists>w v cmd t. conns st'' i = Busy w v cmd t")
    case True
    have "\<not> poisoned (sys_store st')" using isolated_poison [OF move.hyps(3) iso] move.prems(3) by blast
    with move True settled_busy [OF move.hyps(3)] show ?thesis by (auto; metis)
  next
    case False
    then have "settled i (ls @ [l]) (conns st'' i) = received i (ls @ [l])"
      by (simp add: settled_def split: conn.split)
    with alone_quiet [OF isolated_conn(1) [OF iso' move.prems(3) refl]] False move.prems(3) show ?thesis
      by (auto simp: agree_def)
  qed
qed

text \<open>What is on the disk stays there.\<close>

lemma append_sync: "synced b \<le> length (aof_file b) \<Longrightarrow>
    synced b \<le> synced (snd (aof_append io bs b)) \<and> synced (snd (aof_append io bs b)) \<le> length (aof_file (snd (aof_append io bs b)))"
  by (auto simp: aof_append_def sync_data_def Let_def split: result.splits write_io.splits)

lemma synced_grows:
  assumes "sys_run x st ls st'" "sys_aof st = Some b" "synced b \<le> length (aof_file b)"
  shows "\<exists>b'. sys_aof st' = Some b' \<and> synced b \<le> synced b' \<and> synced b' \<le> length (aof_file b')"
  using assms
proof (induction rule: sys_run.induct)
  case (move st ls st' l st'')
  then obtain b' where b': "sys_aof st' = Some b'" "synced b \<le> synced b'" "synced b' \<le> length (aof_file b')" by blast
  from move.hyps(2) show ?case
  proof cases
    case (log i w v cmd r aof)
    then obtain c where "aof = Some c" "c = b' \<or> (\<exists>bs. c = snd (aof_append (r_append w) bs b'))"
      using log(4) [unfolded b'(1)] by (auto simp: log_step_def split: if_splits outcome.splits)
    with b' append_sync [OF b'(3), of "r_append w"] log(2) show ?thesis by (auto intro: order_trans)
  next
    case (fsync a r)
    with b' show ?thesis by (auto simp: sync_data_def split: result.splits)
  qed (use b' in auto)
qed auto

lemma labels_append: "received i (ls @ ms) = received i ls @ received i ms" "replies i (ls @ ms) = replies i ls @ replies i ms"
  by (simp_all add: received_def arrived_def replies_def List.map_filter_def)

lemma solo_length: "length (fst (solo x reqs s)) = length reqs"
  by (induction reqs rule: rev_induct) (auto simp: solo_snoc split: prod.splits)

lemma replies_settled:
  assumes "alone x K s reqs sent t c" "reqs = received i ls"
  shows "length sent \<le> length (settled i ls c)"
proof (cases c)
  case (Busy w v cmd u)
  with assms show ?thesis by (auto simp: settled_def solo_length)
qed (use prefix_length_le [OF conjunct1 [OF alone_lag [OF assms(1)]]] assms(2) in \<open>auto simp: settled_def solo_length\<close>)


lemma settled_take: "n \<le> length (settled i ls c) \<Longrightarrow> take n (settled i ls c) = take n (received i ls)"
  "length (settled i ls c) \<le> length (received i ls)"
proof -
  have *: "settled i ls c = received i ls \<or> settled i ls c = butlast (received i ls)" by (cases c) (simp_all add: settled_def)
  then show "n \<le> length (settled i ls c) \<Longrightarrow> take n (settled i ls c) = take n (received i ls)"
    by (auto simp: butlast_conv_take min_def split: if_splits)
  from * show "length (settled i ls c) \<le> length (received i ls)" by auto
qed

lemma settled_set: "req \<in> set (settled i ls c) \<Longrightarrow> req \<in> set (received i ls)"
  by (cases c) (auto simp: settled_def dest: in_set_butlastD)

section \<open>What a cut keeps of a client\<close>

lemma client_cut:
  assumes "map from_resp2 (of_client i es) = map (Ret \<circ> Ok) (logged_cmds x (settled i ls c) s)"
    "map from_resp2 (of_client i (es @ new)) = map (Ret \<circ> Ok) (logged_cmds x (settled i (ls @ ms) d) s)"
    "n \<le> length (settled i ls c)" "n \<le> length (settled i (ls @ ms) d)" "length es \<le> m"
  shows "\<exists>p. n \<le> p \<and> p \<le> length (settled i (ls @ ms) d) \<and>
    map from_resp2 (of_client i (take m (es @ new))) = map (Ret \<circ> Ok) (logged_cmds x (take p (settled i (ls @ ms) d)) s)"
proof -
  let ?reqs = "settled i (ls @ ms) d"
  define kept where "kept = of_client i (take m (es @ new))"
  define all where "all = of_client i (es @ new)"
  let ?q = "length kept"
  have cut: "kept = take ?q all"
    unfolding kept_def all_def by (metis append_take_drop_id append_eq_conv_conj of_client_simps(3))
  have all: "map from_resp2 all = map (Ret \<circ> Ok) (logged_cmds x ?reqs s)" using assms(2) by (simp only: all_def)
  have "take n ?reqs = take n (settled i ls c)"
    using assms(3,4) settled_take(1) settled_take(2) [of i ls c] by (simp add: labels_append)
  moreover obtain more where "logged_cmds x (settled i ls c) s = logged_cmds x (take n (settled i ls c)) s @ more"
    using logged_append [of x "take n (settled i ls c)" "drop n (settled i ls c)" s] by auto
  ultimately have "length (logged_cmds x (take n ?reqs) s) \<le> length (of_client i es)"
    using arg_cong [OF assms(1), of length] by simp
  also have "\<dots> \<le> ?q" using assms(5) by (simp add: kept_def)
  finally have low: "length (logged_cmds x (take n ?reqs) s) \<le> ?q" .
  have "?q \<le> length all" by (metis cut length_take min.cobounded1 min.commute)
  then have "?q \<le> length (logged_cmds x ?reqs s)" using arg_cong [OF all, of length] by simp
  from logged_between [OF assms(4) low this] obtain p where
    p: "n \<le> p" "p \<le> length ?reqs" "logged_cmds x (take p ?reqs) s = take ?q (logged_cmds x ?reqs s)" by blast
  have "map from_resp2 kept = take ?q (map from_resp2 all)" by (subst cut) (simp add: take_map)
  with all p show ?thesis unfolding kept_def [symmetric] by (auto simp: take_map)
qed


lemma run_healthy:
  assumes "sys_run x st ms st'" "sys_run x (sys_init s aof) ls st" "\<forall>e. Ticked e \<notin> set (ls @ ms)"
    "\<forall>i w v c. Received i w v \<in> set (ls @ ms) \<longrightarrow> from_resp2 v = Ret (Ok c) \<longrightarrow> (\<exists>L. footprint c = Some L \<and> L \<subseteq> K i)"
    "\<forall>i j. i \<noteq> j \<longrightarrow> K i \<inter> K j = {}" "\<not> poisoned (sys_store st')"
  shows "\<not> poisoned (sys_store st)"
  using assms
proof (induction rule: sys_run.induct)
  case (move st ms st' l st'')
  have "isolated_at x K s (ls @ ms) st'"
    by (rule isolated_run [OF sys_run_trans [OF move.hyps(1) move.prems(1)] _ _ assms(5)]) (use move.prems in auto)
  with isolated_poison [OF move.hyps(2)] move show ?case by auto
qed simp

text \<open>The entries that are whole, the rest of the next one, and the requests that they stand for.\<close>

lemma crash_kept:
  assumes "log_at x K s a es ls st" "log_at x K s a (es @ new) (ls @ ms) st'" "aof_file a = []"
    "\<forall>i. length (replies i ls) \<le> length (settled i ls (conns st i)) \<and> length (replies i ls) \<le> length (settled i (ls @ ms) (conns st' i))"
    "sys_aof st = Some b" "length (aof_file b) \<le> n" "sys_aof st' = Some b'"
  obtains kept rest p where "take n (aof_file b') = concat (map encode (map snd kept)) @ rest"
    "\<forall>(i, v) \<in> set kept. safe_on (K i) v"
    "rest = [] \<or> (\<exists>i v c k. safe_on (K i) v \<and> from_resp2 v = Ret (Ok c) \<and> k < length (encode v) \<and> rest = take k (encode v))"
    "\<forall>i. length (replies i ls) \<le> p i \<and> p i \<le> length (settled i (ls @ ms) (conns st' i)) \<and>
      map from_resp2 (of_client i kept) = map (Ret \<circ> Ok) (logged_cmds x (take (p i) (received i (ls @ ms))) s)"
proof -
  let ?all = "es @ new" and ?done = "\<lambda>i. settled i (ls @ ms) (conns st' i)"
  have bytes: "aof_file b = concat (map encode (map snd es))" "aof_file b' = concat (map encode (map snd ?all))"
    and safe: "\<forall>(i, v) \<in> set ?all. safe_on (K i) v"
    and cmds: "\<forall>i. map from_resp2 (of_client i ?all) = map (Ret \<circ> Ok) (logged_cmds x (?done i) s)"
    and old: "\<forall>i. map from_resp2 (of_client i es) = map (Ret \<circ> Ok) (logged_cmds x (settled i ls (conns st i)) s)"
    using assms(1-3,5,7) by (auto simp: log_at_def)
  obtain m rest where m: "take n (aof_file b') = concat (map encode (map snd (take m ?all))) @ rest"
    "\<forall>ys zs. ?all = ys @ zs \<longrightarrow> length (concat (map encode (map snd ys))) \<le> n \<longrightarrow> length ys \<le> m"
    "rest = [] \<or> m < length ?all \<and> (\<exists>k < length (encode (snd (?all ! m))). rest = take k (encode (snd (?all ! m))))"
    using take_entries [of ?all n "\<lambda>e. encode (snd e)"] unfolding bytes(2) map_map comp_def by auto
  have le: "length es \<le> m" using m(2) assms(6) unfolding bytes(1) by blast
  have parsed: "\<exists>c. from_resp2 v = Ret (Ok c)" if "(i, v) \<in> set ?all" for i v
  proof -
    have "v \<in> set (of_client i ?all)" using that by (force simp: of_client_def)
    then have "from_resp2 v \<in> set (map from_resp2 (of_client i ?all))" unfolding set_map by (rule imageI)
    then show ?thesis unfolding cmds [rule_format] by auto
  qed
  have "\<exists>p. length (replies i ls) \<le> p \<and> p \<le> length (?done i) \<and>
      map from_resp2 (of_client i (take m ?all)) = map (Ret \<circ> Ok) (logged_cmds x (take p (received i (ls @ ms))) s)" (is "\<exists>p. ?kept i p") for i
  proof -
    obtain q where q: "length (replies i ls) \<le> q" "q \<le> length (?done i)"
      "map from_resp2 (of_client i (take m ?all)) = map (Ret \<circ> Ok) (logged_cmds x (take q (?done i)) s)"
      using client_cut [OF old [rule_format] cmds [rule_format] _ _ le, of "length (replies i ls)"] assms(4) by blast
    with settled_take(1) [OF q(2)] show ?thesis by (intro exI [of _ q]) simp
  qed
  then have "\<forall>i. \<exists>p. ?kept i p" ..
  from choice [OF this] obtain p where p: "\<forall>i. ?kept i (p i)" ..
  have "\<forall>(i, v) \<in> set (take m ?all). safe_on (K i) v" using safe in_set_takeD by fast
  moreover have "rest = [] \<or> (\<exists>i v c k. safe_on (K i) v \<and> from_resp2 v = Ret (Ok c) \<and> k < length (encode v) \<and> rest = take k (encode v))"
    using m(3)
  proof (elim disjE conjE)
    assume "m < length ?all" "\<exists>k < length (encode (snd (?all ! m))). rest = take k (encode (snd (?all ! m)))"
    moreover from nth_mem [OF this(1)] have "(fst (?all ! m), snd (?all ! m)) \<in> set ?all" by (metis prod.collapse)
    ultimately show ?thesis using safe parsed by blast
  qed simp
  ultimately show thesis using that m(1) p by blast
qed

text \<open>The replay of that file.\<close>

lemma crash_replay:
  assumes "log_at x K s a es ls st" "log_at x K s a (es @ new) (ls @ ms) st'" "aof_file a = []"
    "\<forall>i. length (replies i ls) \<le> length (settled i ls (conns st i)) \<and> length (replies i ls) \<le> length (settled i (ls @ ms) (conns st' i))"
    "sys_aof st = Some b" "length (aof_file b) \<le> n" "sys_aof st' = Some b'"
    "\<forall>i. \<forall>(j, w, cmd) \<in> set (received i (ls @ ms)). safe_cmd (K i) cmd \<and> xxh3 (r_env w) = xxh3 (ws 0)"
    "\<forall>i. \<not> poisoned (snd (solo x (settled i (ls @ ms) (conns st' i)) s))"
    "calm s" "\<forall>i n. within_limits (snd (solo x (take n (received i (ls @ ms))) s))" "\<forall>j. xxh3 (ws j) = xxh3 (ws 0)"
    "\<forall>i j. i \<noteq> j \<longrightarrow> K i \<inter> K j = {}"
  shows "\<exists>r t. replay x ws 0 (take n (aof_file b')) s = (Ret r, t) \<and>
    (r = Ok () \<or> (\<exists>u. r = Err (io_error_of_resp (InvalidInteger u)))) \<and>
    (\<forall>i. \<exists>p. length (replies i ls) \<le> p \<and> p \<le> length (received i (ls @ ms)) \<and>
       agree (K i) t (snd (solo x (take p (received i (ls @ ms))) s))) \<and>
    (\<forall>k. (\<forall>i. k \<notin> K i) \<longrightarrow> same_at k (inner t) (inner s))"
proof -
  let ?reqs = "\<lambda>i. received i (ls @ ms)" and ?done = "\<lambda>i. settled i (ls @ ms) (conns st' i)"
  obtain kept rest p where k: "take n (aof_file b') = concat (map encode (map snd kept)) @ rest"
    "\<forall>(i, v) \<in> set kept. safe_on (K i) v"
    "rest = [] \<or> (\<exists>i v c k. safe_on (K i) v \<and> from_resp2 v = Ret (Ok c) \<and> k < length (encode v) \<and> rest = take k (encode v))"
    and p: "\<forall>i. length (replies i ls) \<le> p i \<and> p i \<le> length (?done i) \<and>
      map from_resp2 (of_client i kept) = map (Ret \<circ> Ok) (logged_cmds x (take (p i) (?reqs i)) s)"
    using crash_kept [OF assms(1-7)] by metis
  let ?u = "\<lambda>i. snd (solo x (take (p i) (?reqs i)) s)"
  have chains: "chain x (xxh3 (ws 0)) (logged_cmds x (take (p i) (?reqs i)) s) s (?u i)" for i
  proof -
    have same: "take (p i) (?done i) = take (p i) (?reqs i)" using settled_take(1) p by blast
    have "\<forall>(j, w, cmd) \<in> set (?done i). safe_cmd (K i) cmd"
      using assms(8) settled_set by fast
    with solo_poison [of "?done i" "K i" x "p i" s] assms(9) same have "\<not> poisoned (?u i)" by metis
    moreover have "\<forall>(j, w, cmd) \<in> set (take (p i) (?reqs i)). safe_cmd (K i) cmd \<and> xxh3 (r_env w) = xxh3 (ws 0)"
      using assms(8) in_set_takeD by fast
    moreover have "\<forall>n. within_limits (snd (solo x (take n (take (p i) (?reqs i))) s))" using assms(11) by simp
    ultimately show ?thesis using solo_chain [OF assms(10)] by blast
  qed
  obtain t where t: "replay x ws 0 (concat (map encode (map snd kept)) @ rest) s = replay x ws (0 + length kept) rest t"
    "\<forall>i. agree (K i) (?u i) t" "\<forall>k. (\<forall>i. k \<notin> K i) \<longrightarrow> same_at k (inner s) (inner t)"
    using replay_merged [of kept K "\<lambda>i. logged_cmds x (take (p i) (?reqs i)) s" x "xxh3 (ws 0)" "\<lambda>_. s" ?u s ws 0]
      k(2) p chains assms(10,12,13) by auto
  moreover have "\<exists>r. replay x ws (0 + length kept) rest t = (Ret r, t) \<and> (r = Ok () \<or> (\<exists>u. r = Err (io_error_of_resp (InvalidInteger u))))"
    using k(3) replay_rest by (fastforce simp: replay_empty safe_on_def replay_safe_def)
  moreover have "p i \<le> length (?reqs i)" for i using p settled_take(2) order_trans by blast
  ultimately show ?thesis unfolding k(1) using p agree_sym same_at_sym by metis
qed


text \<open>The whole argument, for runs without eviction ticks.\<close>

lemma crash_without_ticks:
  assumes "sys_run x (sys_init s (Some a)) ls st" "sys_run x st ms st'" "\<forall>e. Ticked e \<notin> set (ls @ ms)"
    "\<forall>i w v. Received i w v \<in> set (ls @ ms) \<longrightarrow>
       replay_safe v \<and> write_result (r_append w) = Written \<and> xxh3 (r_env w) = xxh3 (es 0)"
    "\<forall>i w v c. Received i w v \<in> set (ls @ ms) \<longrightarrow> from_resp2 v = Ret (Ok c) \<longrightarrow> (\<exists>L. footprint c = Some L \<and> L \<subseteq> K i)"
    "\<forall>i j. i \<noteq> j \<longrightarrow> K i \<inter> K j = {}" "\<not> poisoned (sys_store st')" "calm s"
    "aof_file a = []" "buffered a = []"
    "\<forall>i n. within_limits (snd (solo x (take n (received i (ls @ ms))) s))" "\<forall>j. xxh3 (es j) = xxh3 (es 0)"
    "sys_aof st = Some b" "synced b = length (aof_file b)" "sys_aof st' = Some b'" "synced b' \<le> n"
  shows "\<exists>r t. replay x es 0 (take n (aof_file b')) s = (Ret r, t) \<and>
    (r = Ok () \<or> (\<exists>u. r = Err (io_error_of_resp (InvalidInteger u)))) \<and>
    (\<forall>i. \<exists>p. length (replies i ls) \<le> p \<and> p \<le> length (received i (ls @ ms)) \<and>
       agree (K i) t (snd (solo x (take p (received i (ls @ ms))) s))) \<and>
    (\<forall>k. (\<forall>i. k \<notin> K i) \<longrightarrow> same_at k (inner t) (inner s))"
proof -
  note run = sys_run_trans [OF assms(2,1)]
  have np: "\<not> poisoned (sys_store st)" by (rule run_healthy [OF assms(2,1,3,5,6,7)])
  have safe: "\<forall>i w v. Received i w v \<in> set (ls @ ms) \<longrightarrow> safe_on (K i) v \<and> write_result (r_append w) = Written"
    using assms(4,5) by (auto simp: safe_on_def)
  have at: "isolated_at x K s ls st" "busy_ok K st" "\<exists>es. log_at x K s a es ls st"
    using log_at_run [OF assms(1) _ _ assms(6,10)] assms(3) safe np by auto
  then obtain old where old: "log_at x K s a old ls st" by blast
  have ext: "isolated_at x K s (ls @ ms) st'" "\<exists>new. log_at x K s a (old @ new) (ls @ ms) st'"
    using log_at_extends [OF assms(2) at(1,2) old _ _ assms(6)] assms(3,7) safe by auto
  then obtain new where new: "log_at x K s a (old @ new) (ls @ ms) st'" by blast
  have settled: "length (replies i ls) \<le> length (settled i ls (conns st i)) \<and>
      length (replies i ls) \<le> length (settled i (ls @ ms) (conns st' i))" for i
    using replies_settled [OF isolated_conn(1) [OF at(1) np refl] refl, of i]
      replies_settled [OF isolated_conn(1) [OF ext(1) assms(7) refl] refl, of i] by (simp add: labels_append)
  have reqs: "\<forall>(j, w, cmd) \<in> set (received i (ls @ ms)). safe_cmd (K i) cmd \<and> xxh3 (r_env w) = xxh3 (es 0)" for i
    using safe assms(4)
    by (fastforce simp: received_def arrived_def List.map_filter_def safe_cmd_def split: label.splits outcome.splits if_splits)
  have "\<not> poisoned (snd (solo x (settled i (ls @ ms) (conns st' i)) s))" for i
    by (rule settled_healthy [OF run assms(3,5,6,7)])
  moreover have "length (aof_file b) \<le> n"
    using synced_grows [OF assms(2,13)] assms(14,15,16) by auto
  ultimately show ?thesis
    using crash_replay [OF old new assms(9) _ assms(13) _ assms(15)] settled reqs assms(6,8,11,12) by blast
qed

section \<open>Properties\<close>



end
