(* ===== verification/Reference_Clients.thy ===== *)
theory Reference_Clients
  imports Reference_Session Concurrent_Crash
begin

text \<open>
  The concurrent server against the reference: clients on different keys each talk to a reference
  database of their own.
\<close>

section \<open>A client alone\<close>

fun ref_client :: "(nat \<times> request_world \<times> (command, handler_error) result) list \<Rightarrow> database \<Rightarrow> (resp_value list \<times> database) option" where
  "ref_client [] db = Some ([], db)"
| "ref_client ((i, w, cmd) # reqs) db =
     (case ref_respond (r_env w) cmd db of
        Some (Ret r, db') \<Rightarrow> map_option (\<lambda>(rs, db''). (r # rs, db'')) (ref_client reqs db')
      | _ \<Rightarrow> None)"

lemma serial_ref:
  assumes "calm s" "\<not> poisoned s" "\<forall>(i, w, cmd) \<in> set reqs. hash_order_ok (r_env w)" "ref_client reqs (contents s) = Some (rs, db)"
  shows "length rs = length reqs \<and> (\<exists>u. serial x reqs s = (zip (map fst reqs) (map Ret rs), u) \<and> calm u \<and> contents u = db)"
  using assms
proof (induction reqs arbitrary: s rs)
  case (Cons req reqs)
  obtain i w cmd where req: "req = (i, w, cmd)" by (cases req)
  obtain r db' rs' where r: "ref_respond (r_env w) cmd (contents s) = Some (Ret r, db')"
    "ref_client reqs db' = Some (rs', db)" "rs = r # rs'"
    using Cons.prems(4) by (auto simp: req split: outcome.splits option.splits)
  obtain s' where s': "respond x (r_env w) cmd s = (Ret r, s')" "calm s'" "\<not> poisoned s'" "contents s' = db'"
    using respond_ref [OF Cons.prems(1,2) _ r(1)] Cons.prems(3) by (auto simp: req)
  obtain u where "length rs' = length reqs" "serial x reqs s' = (zip (map fst reqs) (map Ret rs'), u)" "calm u" "contents u = db"
    using Cons.IH [OF s'(2,3) _, of rs'] Cons.prems(3) r(2) s'(4) by auto
  with s'(1) r(3) show ?case by (simp add: req)
qed simp

lemma solo_ref:
  assumes "calm s" "\<not> poisoned s" "\<forall>(i, w, cmd) \<in> set reqs. hash_order_ok (r_env w)" "ref_client reqs (contents s) = Some (rs, db)"
  shows "\<exists>u. solo x reqs s = (map Ret rs, u) \<and> calm u \<and> contents u = db"
  using serial_ref [OF assms, of x] by (auto simp: solo_def map_snd_zip)

lemma map_Ret_prefix: "prefix (map Ret ys) (map Ret zs) \<Longrightarrow> prefix ys zs"
  using inj_map_eq_map [of Ret] by (auto simp: prefix_def map_eq_append_conv inj_on_def)

lemma of_client_Ret: "of_client i (zip is (map Ret rs)) = map Ret (of_client i (zip is rs))"
  by (induction "is" rs rule: list_induct2') auto

lemma agree_keyspace: "agree K s t \<Longrightarrow> k \<in> K \<Longrightarrow> keyspace u (inner s) k = keyspace u (inner t) k"
  by (simp add: agree_def same_at_def keyspace_def expired_def)

text \<open>Without eviction ticks the other clients may do what they like with their keys.\<close>

lemma clients_without_ticks:
  assumes "sys_run x (sys_init s aof) ls st" "\<forall>e. Ticked e \<notin> set ls"
    "\<forall>i w v c. Received i w v \<in> set ls \<longrightarrow> from_resp2 v = Ret (Ok c) \<longrightarrow> (\<exists>L. footprint c = Some L \<and> L \<subseteq> K i)"
    "\<forall>i j. i \<noteq> j \<longrightarrow> K i \<inter> K j = {}" "\<not> poisoned (sys_store st)" "calm s"
    "\<forall>i w v. Received i w v \<in> set ls \<longrightarrow> hash_order_ok (r_env w)"
    "ref_client (received i ls) (keyspace t (inner s)) = Some (rs, db)"
  shows "prefix (replies i ls) rs \<and> length rs \<le> Suc (length (replies i ls)) \<and>
    ((\<forall>w v cmd f. conns st i \<noteq> Busy w v cmd f) \<longrightarrow> (\<forall>k \<in> K i. keyspace t (inner (sys_store st)) k = db k))"
proof -
  have inv: "isolated_at x K s ls st" by (rule isolated_run [OF assms(1-4)])
  note c = isolated_conn(1) [OF inv assms(5) refl, of i]
  have "\<not> poisoned (sys_store (sys_init s aof))"
    using run_healthy [OF assms(1) sys_run.stay _ _ assms(4,5)] assms(2,3) by simp
  then have np: "\<not> poisoned s" by (simp add: sys_init_def)
  have "\<forall>(j, w, cmd) \<in> set (received i ls). hash_order_ok (r_env w)"
    using assms(7) by (fastforce simp: received_def arrived_def List.map_filter_def split: label.splits outcome.splits if_splits)
  from solo_ref [OF assms(6) np this, of rs db x] assms(8) contents_calm [OF assms(6)] obtain u where
    u: "solo x (received i ls) s = (map Ret rs, u)" "calm u" "contents u = db" by auto
  have "prefix (map Ret (replies i ls)) (map Ret rs)" "length rs \<le> Suc (length (replies i ls))"
    using alone_lag [OF c] u(1) by auto
  then have "prefix (replies i ls) rs" using map_Ret_prefix by blast
  moreover have "keyspace t (inner (sys_store st)) k = db k" if "\<forall>w v cmd f. conns st i \<noteq> Busy w v cmd f" "k \<in> K i" for k
    using agree_keyspace [OF alone_quiet [OF c that(1)] that(2)] u contents_calm by simp
  ultimately show ?thesis using \<open>length rs \<le> _\<close> by blast
qed

text \<open>Commands of one section, on whatever keys.\<close>

lemma atomic_without_ticks:
  assumes "sys_run x (sys_init s aof) ls st" "\<forall>e. Ticked e \<notin> set ls"
    "\<forall>i w v c. Received i w v \<in> set ls \<longrightarrow> from_resp2 v = Ret (Ok c) \<longrightarrow> single_section c"
    "calm s" "\<not> poisoned s" "\<forall>(i, w, cmd) \<in> set (sections ls). hash_order_ok (r_env w)"
    "ref_client (sections ls) (keyspace t (inner s)) = Some (rs, db)"
  shows "keyspace t (inner (sys_store st)) = db \<and>
    prefix (replies i ls) (of_client i (zip (map fst (sections ls)) rs)) \<and>
    length (of_client i (zip (map fst (sections ls)) rs)) \<le> Suc (length (replies i ls))"
proof -
  obtain u where u: "serial x (sections ls) s = (zip (map fst (sections ls)) (map Ret rs), u)" "calm u" "contents u = db"
    using serial_ref [OF assms(4,5,6), of rs db x] assms(7) contents_calm [OF assms(4)] by auto
  have lin: "lin_at x s ls st" by (rule lin_run [OF assms(1-3)])
  with u have "sys_store st = u" "prefix (map Ret (replies i ls)) (map Ret (of_client i (zip (map fst (sections ls)) rs)))"
    "length (of_client i (zip (map fst (sections ls)) rs)) \<le> Suc (length (replies i ls))"
    using conn_at_lag [OF lin_conn [OF lin refl], of i] by (simp_all add: lin_at_def of_client_Ret)
  with u contents_calm map_Ret_prefix show ?thesis by blast
qed

section \<open>Properties\<close>






end
