(* ===== verification/Signals.thy ===== *)
theory Signals
  imports Server
begin

text \<open>
  Signals and the accept loop (\<open>main.rs\<close>).  In every round of the loop \<open>select!\<close> makes and polls a new
  future of \<open>shutdown_signal\<close>, which listens until \<open>select!\<close> drops it; that is before the body of the
  branch that completed runs.  A signal does nothing but to notify the future that listens, if one does.
  That signals are lost while the body of the accept branch waits for a permit follows.
\<close>

section \<open>The future of a signal\<close>

datatype os_signal = Sigint | Sigterm

text \<open>What \<open>tokio\<close> gives for one kind of signal: a receiver, made at the first poll, its state after a
  signal of the kind, and whether it has something to receive.\<close>

record 'r signal_rx =
  rx_new :: 'r
  rx_notify :: "'r \<Rightarrow> 'r"
  rx_ready :: "'r \<Rightarrow> bool"

text \<open>Its documented behaviour: a receiver gets the signals that come after it has been made.\<close>

definition rx_ok :: "'r signal_rx \<Rightarrow> bool" where
  "rx_ok R \<longleftrightarrow> \<not> rx_ready R (rx_new R) \<and> (\<forall>r. rx_ready R (rx_notify R r))"

text \<open>\<open>shutdown_signal\<close>: it listens for Ctrl+C and, on Unix (\<open>unix\<close> is the build's \<open>cfg\<close>), for
  \<open>SIGTERM\<close>, and resolves when one of the two receivers does.\<close>

type_synonym 'r shutdown_future = "'r \<times> 'r option"

definition shutdown_signal :: "'r signal_rx \<Rightarrow> bool \<Rightarrow> 'r shutdown_future" where
  "shutdown_signal R unix = (rx_new R, if unix then Some (rx_new R) else None)"

definition deliver :: "'r signal_rx \<Rightarrow> os_signal \<Rightarrow> 'r shutdown_future \<Rightarrow> 'r shutdown_future" where
  "deliver R sig fut =
     (case (fut, sig) of
        ((ctrl_c, sigterm), Sigint) \<Rightarrow> (rx_notify R ctrl_c, sigterm)
      | ((ctrl_c, sigterm), Sigterm) \<Rightarrow> (ctrl_c, map_option (rx_notify R) sigterm))"

definition resolved :: "'r signal_rx \<Rightarrow> 'r shutdown_future \<Rightarrow> bool" where
  "resolved R fut =
     (case fut of (ctrl_c, sigterm) \<Rightarrow>
        rx_ready R ctrl_c \<or> (case sigterm of Some r \<Rightarrow> rx_ready R r | None \<Rightarrow> False))"

definition heard :: "bool \<Rightarrow> os_signal \<Rightarrow> bool" where
  "heard unix sig \<longleftrightarrow> sig = Sigint \<or> unix"

lemma new_unresolved: "rx_ok R \<Longrightarrow> \<not> resolved R (shutdown_signal R unix)"
  by (simp add: rx_ok_def resolved_def shutdown_signal_def)

lemma deliver_resolves: "rx_ok R \<Longrightarrow> heard unix sig \<Longrightarrow> resolved R (deliver R sig (shutdown_signal R unix))"
  by (cases sig) (auto simp: rx_ok_def resolved_def shutdown_signal_def deliver_def heard_def)

section \<open>The loop\<close>

record 'r main_loop =
  srv :: server
  listening :: "'r shutdown_future option"

definition loop_init :: "nat \<Rightarrow> bool \<Rightarrow> 'r main_loop" where
  "loop_init m f = \<lparr>srv = server_init m f, listening = None\<rparr>"

text \<open>What can happen: \<open>select!\<close> polls its futures, one of its branches completes (when both are ready it takes
  either), the body of the accept branch gets its permit or finds the semaphore closed, a handler ends, and a
  signal comes at any time.\<close>

datatype loop_event =
    Polled
  | Accepted
  | Accept_failed io_error
  | Shut_down
  | Permit_answered
  | Handler_ended
  | Signalled os_signal

definition loop_step :: "'r signal_rx \<Rightarrow> bool \<Rightarrow> loop_event \<Rightarrow> 'r main_loop \<Rightarrow> 'r main_loop option" where
  "loop_step R unix ev st =
     (let s = srv st in
      case ev of
        Polled \<Rightarrow>
          if phase s = Accepting \<and> listening st = None
          then Some (st\<lparr>listening := Some (shutdown_signal R unix)\<rparr>) else None
      | Accepted \<Rightarrow>
          if listening st \<noteq> None
          then Some (st\<lparr>srv := s\<lparr>phase := Waiting_permit\<rparr>, listening := None\<rparr>) else None
      | Accept_failed e \<Rightarrow>
          if listening st \<noteq> None
          then Some (st\<lparr>srv := s\<lparr>phase := Stopped (Err e)\<rparr>, listening := None\<rparr>) else None
      | Shut_down \<Rightarrow>
          (case listening st of
             None \<Rightarrow> None
           | Some fut \<Rightarrow>
               if resolved R fut
               then Some (st\<lparr>srv := s\<lparr>phase := Draining, sem_closed := True\<rparr>, listening := None\<rparr>) else None)
      | Permit_answered \<Rightarrow>
          if phase s \<noteq> Waiting_permit then None
          else if sem_closed s then Some (st\<lparr>srv := s\<lparr>phase := Draining\<rparr>\<rparr>)
          else if 0 < permits s
          then Some (st\<lparr>srv := s\<lparr>phase := Accepting, permits := permits s - 1, running := Suc (running s)\<rparr>\<rparr>)
          else None
      | Handler_ended \<Rightarrow>
          if 0 < running s \<and> (\<forall>r. phase s \<noteq> Stopped r)
          then Some (st\<lparr>srv := s\<lparr>running := running s - 1, permits := Suc (permits s)\<rparr>\<rparr>) else None
      | Signalled sig \<Rightarrow> Some (st\<lparr>listening := map_option (deliver R sig) (listening st)\<rparr>))"

primrec loop_run :: "'r signal_rx \<Rightarrow> bool \<Rightarrow> loop_event list \<Rightarrow> 'r main_loop \<Rightarrow> 'r main_loop option" where
  "loop_run R unix [] st = Some st"
| "loop_run R unix (ev # evs) st = Option.bind (loop_step R unix ev st) (loop_run R unix evs)"

lemma loop_run_append:
  "loop_run R unix (xs @ ys) st = Option.bind (loop_run R unix xs st) (loop_run R unix ys)"
proof (induction xs arbitrary: st)
  case (Cons ev xs)
  then show ?case by (cases "loop_step R unix ev st") simp_all
qed simp

text \<open>A future listens only while the loop is about to accept, and the loop does what the server may do.\<close>

definition loop_inv :: "nat \<Rightarrow> bool \<Rightarrow> 'r main_loop \<Rightarrow> bool" where
  "loop_inv m f st \<longleftrightarrow> server_reach m f (srv st) \<and> (listening st = None \<or> phase (srv st) = Accepting)"

lemmas reach_moves = server_reach.step [OF _ server_step.accept] server_reach.step [OF _ server_step.accept_error]
  server_reach.step [OF _ server_step.shutdown] server_reach.step [OF _ server_step.acquire_closed]
  server_reach.step [OF _ server_step.acquire, simplified] server_reach.step [OF _ server_step.handler_end, simplified]

lemma reach_accepting_end:
  "server_reach m f s \<Longrightarrow> phase s = Accepting \<Longrightarrow> 0 < running s \<Longrightarrow>
     server_reach m f (s\<lparr>running := running s - Suc 0, permits := Suc (permits s)\<rparr>)"
  by (rule reach_moves(6)) simp_all

lemma loop_step_inv:
  assumes "loop_step R unix ev st = Some st'" "loop_inv m f st"
  shows "loop_inv m f st'"
  using assms
  by (cases ev; cases "listening st") (auto simp: loop_step_def loop_inv_def Let_def intro: reach_moves reach_accepting_end
      split: if_splits)

lemma loop_run_inv: "loop_run R unix evs st = Some st' \<Longrightarrow> loop_inv m f st \<Longrightarrow> loop_inv m f st'"
  by (induction evs arbitrary: st) (auto simp: Option.bind_eq_Some_conv dest: loop_step_inv)

lemma loop_inv_init: "loop_inv m f (loop_init m f)"
  by (simp add: loop_inv_def loop_init_def server_reach.init)

lemma unheard_signal: "listening st = None \<Longrightarrow> loop_step R unix (Signalled sig) st = Some st"
  by (cases st) (simp add: loop_step_def)

lemma unheard_signals: "listening st = None \<Longrightarrow> loop_run R unix (map Signalled sigs) st = Some st"
  by (induction sigs) (simp_all add: unheard_signal)

section \<open>Properties\<close>

text \<open>C40: signals that come while the server is saturated are lost.  Whenever the loop has come to wait for a
  permit while all are taken, any number of signals may arrive: when a handler ends, the loop goes on and polls
  its next futures as if they had not come, and cannot shut down; although one signal after that would let it.\<close>

theorem signals_lost_while_saturated:
  assumes "rx_ok R" "loop_run R unix evs (loop_init m f) = Some st" "phase (srv st) = Waiting_permit"
    "permits (srv st) = 0" "0 < running (srv st)" "heard unix sig"
  shows "\<exists>st'. loop_run R unix (map Signalled sigs @ [Handler_ended, Permit_answered, Polled]) st = Some st' \<and>
    phase (srv st') = Accepting \<and> running (srv st') = running (srv st) \<and>
    loop_step R unix Shut_down st' = None \<and>
    (\<exists>st''. loop_run R unix [Signalled sig, Shut_down] st' = Some st'' \<and> phase (srv st'') = Draining)"
proof -
  have "loop_inv m f st" by (rule loop_run_inv [OF assms(2) loop_inv_init])
  then have quiet: "listening st = None" "\<not> sem_closed (srv st)"
    using assms(3) server_reach_inv [of m f "srv st"] by (auto simp: loop_inv_def server_inv_def)
  let ?st' = "st\<lparr>srv := srv st\<lparr>phase := Accepting, permits := 0\<rparr>, listening := Some (shutdown_signal R unix)\<rparr>"
  have "loop_run R unix (map Signalled sigs @ [Handler_ended, Permit_answered, Polled]) st = Some ?st'"
    using assms(3-5) quiet by (simp add: loop_run_append unheard_signals loop_step_def Let_def)
  moreover have "loop_step R unix Shut_down ?st' = None"
    using new_unresolved [OF assms(1)] by (simp add: loop_step_def)
  moreover have "\<exists>st''. loop_run R unix [Signalled sig, Shut_down] ?st' = Some st'' \<and> phase (srv st'') = Draining"
    using deliver_resolves [OF assms(1,6)] by (simp add: loop_step_def Let_def)
  ultimately show ?thesis by (intro exI [of _ ?st']) simp
qed

text \<open>Receivers that remember whether they have been notified.\<close>

definition demo_rx :: "bool signal_rx" where
  "demo_rx = \<lparr>rx_new = False, rx_notify = (\<lambda>_. True), rx_ready = (\<lambda>r. r)\<rparr>"

theorem signals_lost_while_saturated_witness:
  "\<exists>st'. loop_run demo_rx True [Polled, Accepted, Permit_answered, Polled, Accepted, Signalled Sigterm, Signalled Sigint,
       Handler_ended, Permit_answered, Polled] (loop_init 1 False) = Some st' \<and>
     phase (srv st') = Accepting \<and> loop_step demo_rx True Shut_down st' = None"
proof -
  let ?evs = "[Polled, Accepted, Permit_answered, Polled, Accepted]"
  let ?st = "\<lparr>srv = (server_init 1 False)\<lparr>phase := Waiting_permit, permits := 0, running := 1\<rparr>, listening = None\<rparr>"
  have run: "loop_run demo_rx True ?evs (loop_init 1 False) = Some ?st"
    by (simp add: loop_step_def loop_init_def server_init_def Let_def)
  have "rx_ok demo_rx" by (simp add: rx_ok_def demo_rx_def)
  from signals_lost_while_saturated [OF this run, of Sigterm "[Sigterm, Sigint]"]
  obtain st' where st': "loop_run demo_rx True (map Signalled [Sigterm, Sigint] @ [Handler_ended, Permit_answered, Polled]) ?st
      = Some st'" "phase (srv st') = Accepting" "loop_step demo_rx True Shut_down st' = None"
    by (auto simp: heard_def)
  have "loop_run demo_rx True (?evs @ map Signalled [Sigterm, Sigint] @ [Handler_ended, Permit_answered, Polled])
      (loop_init 1 False) = Some st'"
    unfolding loop_run_append [of _ _ ?evs] run using st'(1) by simp
  with st'(2,3) show ?thesis by auto
qed

end
