(* ===== verification/Spec2Isabelle.thy ===== *)
theory Spec2Isabelle
  imports Races Torn_Tail Expiry_Log Visibility Progress Reference_Clients Signals
begin

text \<open>
  Thesaurus is a Redis-compatible, in-memory key-value server.  This development models the crate
  \<open>src/crates/thesaurus/src\<close>: the RESP2 codec, the command parser, the store behind its lock, the
  executor, the eviction daemon, the append-only file, the connection handler, the configuration and
  the server's accept loop.

  \<^bold>\<open>The program.\<close>  A connection handler (\<open>handler.rs\<close>) decodes RESP2 values from a socket
  (\<open>resp2.rs\<close>), parses each into a command (\<open>command/\<close>), lets the executor (\<open>executor/\<close>)
  apply it to the store (\<open>store/\<close>), appends successful writes to the AOF (\<open>aof.rs\<close>) and
  encodes the reply.  A daemon (\<open>ttl.rs\<close>) evicts expired keys.  \<open>main.rs\<close> reads the
  configuration (\<open>config.rs\<close>), replays the AOF, and serves connections under a semaphore until a
  signal arrives.

  \<^bold>\<open>The theories\<close>, in dependency order:

    \<^item> \<open>Prelude\<close>: results, panics, machine integers and casts, the world a command reads (clocks,
      hash order, random draws, the digest), finite-map lemmas.
    \<^item> \<open>Rust_Std\<close>: what the source uses of the standard library: number parsing and printing,
      UTF-8 validation, line reading, instants and durations.
    \<^item> \<open>Resp2\<close> (\<open>resp2.rs\<close>): \<open>encode\<close>, \<open>decode\<close> and the expiry rewriting.  Round trip,
      injectivity of pipelines (through the locale \<open>prefix_codec\<close>), progress, what a decoded value can
      hold, the panic on a multi-byte prefix.
    \<^item> \<open>Errors\<close> (\<open>errors.rs\<close>): error types and texts.
    \<^item> \<open>Pattern\<close> (\<open>pattern.rs\<close>): the glob matcher, equal to a reference relation on token lists.
    \<^item> \<open>Store\<close> (\<open>store/mod.rs\<close>): maps, lock and poisoning; the abstraction \<open>keyspace t\<close> (the
      keys live at time \<open>t\<close> with value and deadline); the locale \<open>kv_interface\<close>.
    \<^item> \<open>Store_String\<close>, \<open>Store_List\<close>, \<open>Store_Set\<close> (\<open>store/string.rs\<close>, \<open>store/list.rs\<close>,
      \<open>store/set.rs\<close>): the typed operations and their effect on the keyspace; the locales
      \<open>deque_end\<close> and \<open>store_deque\<close>, interpreted at both ends of a list.
    \<^item> \<open>Command\<close> (\<open>command/\<close>): all commands and parsers; canonical argument vectors, round trip,
      ranges, the one value on which parsing panics.
    \<^item> \<open>Exec_Base\<close>, \<open>Exec_String\<close>, \<open>Exec_List\<close>, \<open>Exec_Set\<close>, \<open>Executor\<close>
      (\<open>executor/\<close>): every command handler and the dispatch \<open>execute\<close>; the specification of
      \<open>SET\<close> with its own statement of the conditions and deadlines, batch pushes (locale
      \<open>push_operation\<close>, four instances), \<open>TTL\<close>, read-only commands, which commands can poison the
      lock (\<open>SMOVE\<close> and \<open>SPOP\<close>), and what a poisoned lock does to the others.
    \<^item> \<open>Invariants\<close>: the locale \<open>value_invariant\<close> over the entries of the store and its two
      instances (texts, non-empty lists), kept by every command.
    \<^item> \<open>Ttl\<close> (\<open>ttl.rs\<close>): the daemon and what a tick removes.
    \<^item> \<open>Aof\<close> (\<open>aof.rs\<close>): writer, append, fsync task, opening, replay.
    \<^item> \<open>Handler\<close> (\<open>handler.rs\<close>): one request and the request loop.
    \<^item> \<open>Persistence\<close>: the log of a session of requests that replay (\<open>replay_safe\<close>: reads, malformed
      requests, and writes but \<open>LSET\<close>, \<open>GETDEL\<close>, \<open>SPOP\<close> and those with an expiry) rebuilds its
      store; the requests for which it does not.  \<open>Recovery\<close>, \<open>Concurrent_Log\<close> and
      \<open>Concurrent_Crash\<close> are about the same requests.
    \<^item> \<open>Config\<close> (\<open>config.rs\<close>) and \<open>Server\<close> (\<open>main.rs\<close>): configuration, startup and
      \<open>boot\<close> from the command line to the listener, and the accept loop as a step relation with its
      invariant.
    \<^item> \<open>Signals\<close> (\<open>main.rs\<close>): the accept loop with the future of \<open>shutdown_signal\<close> that \<open>select!\<close>
      makes and drops in every round, and which signals are lost.
    \<^item> \<open>Replies\<close>: every reply of every command is a value the codec carries, and a session writes
      exactly the answers to its requests, in order.
    \<^item> \<open>Tasks\<close> (\<open>executor/\<close>, \<open>ttl.rs\<close>): the commands and the daemon's tick cut at their lock
      acquisitions; run without interruption a task is the sequential function.
    \<^item> \<open>Interleaving\<close> (\<open>handler.rs\<close>, \<open>main.rs\<close>): any number of handlers, the daemon and the
      fsync task as one transition system.  A handler alone is the sequential handler; the locale
      \<open>section_invariant\<close> lifts an invariant of critical sections to all reachable states, and
      \<open>value_invariant\<close> is a sublocale of it; commands with one critical section are linearizable.
    \<^item> \<open>Races\<close>: runs of that system that no serial order explains: two \<open>SET NX\<close> that both succeed, a
      write lost to an eviction, mixed batches, and a log in another order than the writes.
    \<^item> \<open>Progress\<close>: how often a request can take the lock.
    \<^item> \<open>Locality\<close>: the keys a command touches; operations on different keys commute.
    \<^item> \<open>Reference\<close>: the commands as functions on a map from keys to values and deadlines, and the
      refinement: thirty-nine of the forty-two commands answer and act as the reference does, errors and
      panics included (\<open>KEYS\<close>, \<open>SRANDMEMBER\<close> and \<open>SPOP\<close> are left open there; \<open>Store\<close> and
      \<open>Store_Set\<close> have what holds of them).
    \<^item> \<open>Reference_Session\<close>: a session of requests without deadlines, from the bytes a client sends to
      the bytes it receives, is the reference.
    \<^item> \<open>Reference_Clients\<close>: concurrent clients on different keys, each with a reference of its own.
    \<^item> \<open>Visibility\<close>: the daemon's work cannot be seen through a read of named keys.
    \<^item> \<open>Isolation\<close>: clients on different keys, each served as if it were alone.
    \<^item> \<open>Quiet_Ticks\<close>: where no client sets a deadline, a run with eviction ticks is a run without them.
    \<^item> \<open>Concurrent_Log\<close>: the file of such clients rebuilds the store, although it is not in the order of
      their writes.
    \<^item> \<open>Durability\<close>: which acknowledged writes are on the disk, and what becomes of a failed append.
    \<^item> \<open>Recovery\<close>: what the decoder makes of every proper prefix of a request, and what a start
      restores from every prefix of the log of a session.
    \<^item> \<open>Concurrent_Crash\<close>: what a start restores from every prefix of the file of several clients: for each,
      a prefix of its own requests.
    \<^item> \<open>Torn_Tail\<close>: the restart after that one, when new entries follow the torn bytes.
    \<^item> \<open>Expiry_Log\<close>: relative expiries across a restart, and their overflow.

  \<^bold>\<open>State and operations.\<close>  A store is a record of two finite maps and a poison flag.  A store
  operation is a function from the store to an outcome (a value or a panic) and the store it leaves;
  \<open>with_read\<close> and \<open>with_write\<close> are the two kinds of critical section, and a panic inside the
  latter poisons the lock.  An executor function is a sequence of such operations, so a panic between
  two of them leaves the effect of the first.  Clock readings are arguments: the \<open>i\<close>-th place where
  a command reads a clock sees \<open>now_at e i\<close> or \<open>unix_at e i\<close>, and theorems that need the clock to
  stand still or to advance say so.  Strings are UTF-8 byte strings; that they stay UTF-8 in the store
  is proved in \<open>Invariants\<close>.

  \<^bold>\<open>Concurrency.\<close>  A \<open>task\<close> is a computation stopped at a lock acquisition.  \<open>sys_step\<close> lets
  one handler receive a request, run one critical section, append to the file or send its reply, or the
  daemon or the fsync task do one of theirs; a handler leaves at a panic, a failed write, the end of its
  input or an abort at a point where it awaits.  \<open>fire\<close> and \<open>schedule\<close> execute a given order of
  steps.  The store's and the writer's locks are what makes a section atomic, so no finer interleaving is
  observable.  Three results bound what interleaving can do: single sections linearize
  (\<open>Interleaving\<close>), clients on disjoint keys are isolated whatever they run (\<open>Isolation\<close>), and the
  runs in \<open>Races\<close> show that clients on the same key are not.  On top of isolation, \<open>Reference_Clients\<close>
  says what each such client is told, \<open>Concurrent_Log\<close> what the file holds, and \<open>Concurrent_Crash\<close> what
  is left of it after a crash.

  \<^bold>\<open>Termination.\<close>  No fuel is used.  The decoder terminates by a domain argument on the length of the
  input (what it does to the stack is not modelled), the matcher by a lexicographic measure, the option loop of \<open>SET\<close> by the arguments left, and
  replay and the handler loop because every decoded value consumes input.

  \<^bold>\<open>Parameters.\<close>  The \<open>rand\<close> and \<open>xxhash-rust\<close> crates, hash iteration order and the
  \<open>config\<close> crate are parameters with their documented behaviour as hypotheses
  (\<open>hash_order_ok\<close>, \<open>sample_ok\<close>, \<open>random_ok\<close>); of \<open>sample\<close> only that it gives distinct items and
  panics at most where a vector of as many elements as it is asked for cannot exist.  The receivers of
  signals are those of \<open>tokio\<close> (\<open>rx_ok\<close>).  System call results are arguments of the AOF and
  handler functions.  \<open>Vec::with_capacity\<close> panics where the size exceeds \<open>isize::MAX\<close>; other
  allocation failures abort the process and are not modelled.

  \<^bold>\<open>Not modelled.\<close>  Logging; the derived command line parser (\<open>cli\<close> is its result); the
  scheduler's fairness and the timers' real time (a tick, a signal or a timeout is a step that may happen);
  TCP (a connection is its input bytes and the bytes written); the stack, which the decoder's recursion on
  nested arrays can use up, since nothing limits their depth (\<open>decode_accepts_any_depth\<close>);
  the crate root, which declares modules; and the unit and integration tests.
\<close>

end
